(* ===== verification/Prelude.thy ===== *)
theory Prelude
  imports Main "HOL-Library.Word" "HOL-Library.AList" "HOL-Library.Char_ord"
    "HOL-Library.List_Lexorder"
begin

text \<open>
  Shared vocabulary of the development: the machine integer types of the C++ code, the outcome
  type that carries exceptions and undefined behaviour as values, \<open>std::to_string\<close> and
  \<open>std::stoul\<close> of the standard library, the little-endian layout of a \<open>uint32_t\<close>, and the
  lemmas on lists and finite maps that several components use.
\<close>

section \<open>Machine types and outcomes\<close>

type_synonym u8 = "8 word"
type_synonym u32 = "32 word"
type_synonym u64 = "64 word"

text \<open>\<open>Key\<close>, \<open>Value\<close> and \<open>Offset\<close> of include/bitcask/Define.hpp; a \<open>std::string\<close> is its bytes.\<close>

type_synonym key = string
type_synonym val = string
type_synonym offset = u32

text \<open>
  What can go wrong beside a returned error code: the exceptions of \<open>std::stoul\<close> and its relatives
  (invalid argument, out of range) and of \<open>std::wstring_convert\<close> (range error), the use of a
  null file handler or a null \<open>shared_ptr\<close> (undefined behaviour in C++), and a loop that never ends.
\<close>

datatype fault = InvalidArgument | OutOfRange | RangeError | NullDeref | NonTermination

text \<open>A call that may fault: \<open>Inl\<close> the fault, \<open>Inr\<close> what it returns.\<close>

type_synonym 'a outcome = "fault + 'a"

named_theorems stream_simps \<open>symbolic execution of stream operations\<close>

section \<open>Numbers as text\<close>

definition digit :: "nat \<Rightarrow> char" where
  "digit d = char_of (48 + d)"

definition is_digit :: "char \<Rightarrow> bool" where
  "is_digit c \<longleftrightarrow> 48 \<le> (of_char c :: nat) \<and> (of_char c :: nat) \<le> 57"

text \<open>\<open>std::to_string\<close> of a non-negative number.\<close>

fun to_string :: "nat \<Rightarrow> string" where
  "to_string n = (if n < 10 then [digit n] else to_string (n div 10) @ [digit (n mod 10)])"

declare to_string.simps [simp del]

definition digits_val :: "string \<Rightarrow> nat" where
  "digits_val ds = foldl (\<lambda>acc c. 10 * acc + (of_char c - 48)) 0 ds"

text \<open>The white space that \<open>strtoul\<close> skips in the C locale.\<close>

definition is_space :: "char \<Rightarrow> bool" where
  "is_space c \<longleftrightarrow> (of_char c :: nat) \<in> {9, 10, 11, 12, 13, 32}"

text \<open>
  \<open>std::stoul(s)\<close> in base ten on a platform with a 64-bit \<open>unsigned long\<close>: white space and one
  sign are skipped, the longest run of digits is converted and the rest of the string is ignored;
  a negative number wraps.
\<close>

definition split_sign :: "string \<Rightarrow> bool \<times> string" where
  "split_sign s = (case s of [] \<Rightarrow> (False, [])
     | c # cs \<Rightarrow> if c = CHR ''-'' then (True, cs) else if c = CHR ''+'' then (False, cs) else (False, s))"

definition stoul :: "string \<Rightarrow> u64 outcome" where
  "stoul s =
     (let (neg, body) = split_sign (dropWhile is_space s);
          ds = takeWhile is_digit body;
          n = digits_val ds
      in if ds = [] then Inl InvalidArgument
         else if 2 ^ 64 \<le> n then Inl OutOfRange
         else Inr (if neg then - word_of_nat n else word_of_nat n))"

lemma of_char_digit [simp]: "d < 10 \<Longrightarrow> (of_char (digit d) :: nat) = 48 + d"
  by (simp add: digit_def)

lemma is_digit_digit [simp]: "d < 10 \<Longrightarrow> is_digit (digit d)"
  by (simp add: is_digit_def)

lemma to_string_nonempty [simp]: "to_string n \<noteq> []"
  by (subst to_string.simps) simp

lemma to_string_digits: "\<forall>c \<in> set (to_string n). is_digit c"
proof (induction n rule: to_string.induct)
  case (1 n)
  then show ?case by (subst to_string.simps) auto
qed

lemma digits_val_snoc: "digits_val (ds @ [c]) = 10 * digits_val ds + (of_char c - 48)"
  by (simp add: digits_val_def)

lemma digits_val_to_string [simp]: "digits_val (to_string n) = n"
proof (induction n rule: to_string.induct)
  case (1 n)
  show ?case
  proof (cases "n < 10")
    case True
    then show ?thesis by (subst to_string.simps) (simp add: digits_val_def)
  next
    case False
    with "1.IH" have "digits_val (to_string (n div 10)) = n div 10" by simp
    with False show ?thesis by (subst to_string.simps) (simp add: digits_val_snoc)
  qed
qed

lemma to_string_inject [simp]: "to_string m = to_string n \<longleftrightarrow> m = n"
  by (metis digits_val_to_string)

lemma is_digit_not_space: "is_digit c \<Longrightarrow> \<not> is_space c"
  by (auto simp: is_digit_def is_space_def)

lemma is_digit_not_sign: "is_digit c \<Longrightarrow> c \<noteq> CHR ''-'' \<and> c \<noteq> CHR ''+''"
  by (auto simp: is_digit_def)

lemma to_string_zero: "to_string 0 = ''0''"
  by (subst to_string.simps) (simp add: digit_def, code_simp)

lemma to_string_head:
  obtains c cs where "to_string n = c # cs" and "is_digit c"
  by (metis list.exhaust list.set_intros(1) to_string_digits to_string_nonempty)

text \<open>A number followed by anything that is not a digit is read back.\<close>

lemma stoul_to_string:
  assumes "n < 2 ^ 64" and "rest = [] \<or> \<not> is_digit (hd rest)"
  shows "stoul (to_string n @ rest) = Inr (word_of_nat n)"
proof -
  obtain c cs where h: "to_string n = c # cs" "is_digit c" by (rule to_string_head)
  have dw: "dropWhile is_space (to_string n @ rest) = to_string n @ rest"
    using h is_digit_not_space by simp
  have sp: "split_sign (to_string n @ rest) = (False, to_string n @ rest)"
    using h is_digit_not_sign by (simp add: split_sign_def)
  have tw: "takeWhile is_digit (to_string n @ rest) = to_string n"
    using assms(2) to_string_digits [of n] by (cases rest) (auto simp: takeWhile_append)
  show ?thesis using assms(1) by (simp add: stoul_def dw sp tw Let_def not_le)
qed

section \<open>Little-endian layout\<close>

definition le32 :: "u32 \<Rightarrow> char list" where
  "le32 w = (let n = unat w in
     [char_of n, char_of (n div 256), char_of (n div 65536), char_of (n div 16777216)])"

fun of_le32 :: "char list \<Rightarrow> u32" where
  "of_le32 [a, b, c, d] =
     word_of_nat (of_char a + 256 * of_char b + 65536 * of_char c + 16777216 * of_char d)"
| "of_le32 _ = 0"

lemma length_le32 [simp]: "length (le32 w) = 4"
  by (simp add: le32_def Let_def)

lemma of_le32_le32 [simp]: "of_le32 (le32 w) = w"
proof -
  define n where "n = unat w"
  have n: "n < 4294967296" using unsigned_less [of w, where ?'a = nat] by (simp add: n_def)
  have ab: "n div 65536 = n div 256 div 256" "n div 16777216 = n div 256 div 256 div 256"
    by (simp_all add: div_mult2_eq [symmetric])
  have top: "n div 256 div 256 div 256 < 256"
    using n by (simp add: div_mult2_eq [symmetric] less_mult_imp_div_less)
  have "n mod 256 + 256 * (n div 256 mod 256) + 65536 * (n div 65536 mod 256)
          + 16777216 * (n div 16777216 mod 256) = n"
    unfolding ab mod_less [OF top]
    using div_mult_mod_eq [of n 256] div_mult_mod_eq [of "n div 256" 256]
      div_mult_mod_eq [of "n div 256 div 256" 256]
    by linarith
  moreover have "of_le32 (le32 w) = word_of_nat (n mod 256 + 256 * (n div 256 mod 256)
          + 65536 * (n div 65536 mod 256) + 16777216 * (n div 16777216 mod 256))"
    by (simp only: le32_def Let_def of_le32.simps of_char_of n_def)
  ultimately show ?thesis by (simp only: n_def) simp
qed

section \<open>Lists and maps\<close>

text \<open>
  Two association lists that agree on their keys position by position give related lookups. The
  index of a log-structured store and the log itself are such a pair.
\<close>

lemma map_of_rel:
  assumes "list_all2 (\<lambda>(k, a) (k', b). k = k' \<and> P k a b) xs ys"
  shows "rel_option (P k) (map_of xs k) (map_of ys k)"
  using assms by (induction rule: list_all2_induct) auto

lemma map_of_rev_append:
  "map_of (rev (xs @ ys)) k = (case map_of (rev ys) k of None \<Rightarrow> map_of (rev xs) k | Some v \<Rightarrow> Some v)"
  by (simp add: map_add_def)

lemma concat_nth_upt: "concat (map ((!) xs) [0..<length xs]) = concat xs"
  by (simp add: map_nth)

end
