(* ===== verification/FileStream.thy ===== *)
theory FileStream
  imports Prelude
begin

text \<open>
  The file system and \<open>std::fstream\<close> as the storage layer uses them, and the helpers of
  src/File.cpp over them. A file system is a list of directory entries in the order a directory
  iterator reports them; a stream is the file it is open on, its position and its state bits. Every
  operation takes the file system and the stream and returns them updated. Output is written
  through: a stream has no put buffer, so a flush has no effect on the model. A stream opened with
  \<open>ios::app\<close> writes at the end of the file, and \<open>tellp\<close> after the write gives the end.
\<close>

section \<open>The file system\<close>

datatype node = Regular "char list" | NonRegular

text \<open>\<open>nodes\<close>: full path and contents; \<open>denied\<close>: the paths the system refuses to open or create.\<close>

record fsys =
  nodes :: "(string \<times> node) list"
  denied :: "string list"

definition file_content :: "fsys \<Rightarrow> string \<Rightarrow> char list" where
  "file_content F p = (case map_of (nodes F) p of Some (Regular bs) \<Rightarrow> bs | _ \<Rightarrow> [])"

definition is_regular :: "fsys \<Rightarrow> string \<Rightarrow> bool" where
  "is_regular F p = (case map_of (nodes F) p of Some (Regular _) \<Rightarrow> True | _ \<Rightarrow> False)"

definition put_file :: "string \<Rightarrow> char list \<Rightarrow> fsys \<Rightarrow> fsys" where
  "put_file p bs F = F\<lparr>nodes := AList.update p (Regular bs) (nodes F)\<rparr>"

lemma file_content_put [simp]:
  "file_content (put_file p bs F) q = (if q = p then bs else file_content F q)"
  by (simp add: file_content_def put_file_def update_conv')

lemma is_regular_put [simp]: "is_regular (put_file p bs F) q \<longleftrightarrow> q = p \<or> is_regular F q"
  by (simp add: is_regular_def put_file_def update_conv')

lemma denied_put [simp]: "denied (put_file p bs F) = denied F"
  by (simp add: put_file_def)

lemma map_of_nodes_put [simp]:
  "map_of (nodes (put_file p bs F)) = (map_of (nodes F))(p \<mapsto> Regular bs)"
  by (simp add: put_file_def update_conv')

lemma distinct_nodes_put [simp]:
  "distinct (map fst (nodes F)) \<Longrightarrow> distinct (map fst (nodes (put_file p bs F)))"
  by (simp add: put_file_def distinct_update)

lemma is_regular_map_of: "is_regular F p \<longleftrightarrow> map_of (nodes F) p = Some (Regular (file_content F p))"
  by (auto simp: is_regular_def file_content_def split: option.splits node.splits)

section \<open>Streams\<close>

record fstream =
  st_file :: "string option"  \<comment> \<open>the file the stream is open on\<close>
  st_app :: bool
  st_pos :: nat
  st_eof :: bool
  st_fail :: bool
  st_gcount :: nat

datatype ios_flag = ios_binary | ios_in | ios_out | ios_app | ios_trunc

definition new_fstream :: fstream where
  "new_fstream = \<lparr>st_file = None, st_app = False, st_pos = 0, st_eof = False, st_fail = False, st_gcount = 0\<rparr>"

definition st_good :: "fstream \<Rightarrow> bool" where
  "st_good s \<longleftrightarrow> \<not> st_eof s \<and> \<not> st_fail s"

definition is_open :: "fstream \<Rightarrow> bool" where
  "is_open s \<longleftrightarrow> st_file s \<noteq> None"

text \<open>
  \<open>fstream::open\<close>: with \<open>app\<close> the file is created when it is not there, with \<open>trunc\<close> it is
  emptied or created, otherwise it has to exist. Opening an open stream, a path the system denies or
  something that is not a file sets \<open>failbit\<close>.
\<close>

definition st_opened :: "string \<Rightarrow> bool \<Rightarrow> fstream \<Rightarrow> fstream" where
  "st_opened p app s = s\<lparr>st_file := Some p, st_app := app, st_pos := 0, st_eof := False, st_fail := False\<rparr>"

definition open_stream :: "fsys \<Rightarrow> string \<Rightarrow> ios_flag set \<Rightarrow> fstream \<Rightarrow> fsys \<times> fstream" where
  "open_stream F p mode s =
     (if is_open s \<or> p \<in> set (denied F) \<or> map_of (nodes F) p = Some NonRegular
      then (F, s\<lparr>st_fail := True\<rparr>)
      else if ios_app \<in> mode
      then ((if is_regular F p then F else put_file p [] F), st_opened p True s)
      else if ios_trunc \<in> mode then (put_file p [] F, st_opened p False s)
      else if is_regular F p then (F, st_opened p False s)
      else (F, s\<lparr>st_fail := True\<rparr>))"

definition st_close :: "fstream \<Rightarrow> fstream" where
  "st_close s = (if is_open s then s\<lparr>st_file := None\<rparr> else s\<lparr>st_fail := True\<rparr>)"

definition st_clear :: "fstream \<Rightarrow> fstream" where
  "st_clear s = s\<lparr>st_eof := False, st_fail := False\<rparr>"

text \<open>\<open>istream::read\<close>: the bytes it delivers; a short read sets \<open>eofbit\<close> and \<open>failbit\<close>.\<close>

definition st_read :: "fsys \<Rightarrow> nat \<Rightarrow> fstream \<Rightarrow> char list \<times> fstream" where
  "st_read F n s =
     (if \<not> st_good s then ([], s\<lparr>st_fail := True, st_gcount := 0\<rparr>)
      else
        let bs = (case st_file s of None \<Rightarrow> [] | Some p \<Rightarrow> take n (drop (st_pos s) (file_content F p)));
            short = length bs < n
        in (bs, s\<lparr>st_pos := st_pos s + length bs, st_gcount := length bs,
                 st_eof := short, st_fail := short\<rparr>))"

text \<open>\<open>istream::seekg(off, beg)\<close>: it clears \<open>eofbit\<close> and does nothing on a failed stream.\<close>

definition st_seekg :: "nat \<Rightarrow> fstream \<Rightarrow> fstream" where
  "st_seekg off s =
     (let s1 = s\<lparr>st_eof := False\<rparr>
      in if st_fail s1 then s1
         else if is_open s1 then s1\<lparr>st_pos := off\<rparr> else s1\<lparr>st_fail := True\<rparr>)"

text \<open>\<open>tellp\<close>: minus one on a failed or closed stream.\<close>

definition st_tellp :: "fstream \<Rightarrow> int" where
  "st_tellp s = (if st_fail s \<or> \<not> is_open s then -1 else int (st_pos s))"

text \<open>\<open>ostream::write\<close>; a gap before the position is filled with zero bytes.\<close>

definition splice :: "nat \<Rightarrow> char list \<Rightarrow> char list \<Rightarrow> char list" where
  "splice at bs c = take at (c @ replicate (at - length c) (char_of (0::nat))) @ bs @ drop (at + length bs) c"

definition st_write :: "fsys \<Rightarrow> char list \<Rightarrow> fstream \<Rightarrow> fsys \<times> fstream" where
  "st_write F bs s =
     (if \<not> st_good s \<or> bs = [] then (F, s)
      else (case st_file s of
          None \<Rightarrow> (F, s\<lparr>st_fail := True\<rparr>)
        | Some p \<Rightarrow>
            let c = file_content F p; at = (if st_app s then length c else st_pos s)
            in (put_file p (splice at bs c) F, s\<lparr>st_pos := at + length bs\<rparr>)))"

lemma splice_end [simp]: "splice (length c) bs c = c @ bs"
  by (simp add: splice_def)

section \<open>The helpers of src/File.cpp\<close>

definition OpenFile :: "fsys \<Rightarrow> fstream \<Rightarrow> string \<Rightarrow> ios_flag set \<Rightarrow> bool \<times> fsys \<times> fstream" where
  "OpenFile F file filename mode =
     (let (F', s) = open_stream F filename mode file in (is_open s, F', s))"

text \<open>\<open>bool ReadFile(file, buf, size)\<close>: the flag, the bytes put into the buffer, the stream.\<close>

definition ReadFile_buf :: "fsys \<Rightarrow> fstream \<Rightarrow> nat \<Rightarrow> bool \<times> char list \<times> fstream" where
  "ReadFile_buf F file sz = (let (bs, s) = st_read F sz file in (\<not> st_fail s, bs, s))"

definition ReadValueFromFile :: "fsys \<Rightarrow> fstream \<Rightarrow> nat \<Rightarrow> string \<times> fstream" where
  "ReadValueFromFile F file sz =
     (let (ok, buf, s) = ReadFile_buf F file sz in if \<not> ok then ([], s) else (buf, s))"

definition ReadFile_size :: "fsys \<Rightarrow> fstream \<Rightarrow> nat \<Rightarrow> string \<times> fstream" where
  "ReadFile_size F file sz =
     (let (ok, buf, s) = ReadFile_buf F file sz in if \<not> ok then ([], s) else (buf, s))"

definition ReadFile_at :: "fsys \<Rightarrow> fstream \<Rightarrow> offset \<Rightarrow> nat \<Rightarrow> string \<times> fstream" where
  "ReadFile_at F file off sz = ReadFile_size F (st_seekg (unat off) file) sz"

definition WriteFile :: "fsys \<Rightarrow> fstream \<Rightarrow> char list \<Rightarrow> int \<times> fsys \<times> fstream" where
  "WriteFile F file buf = (let (F', s) = st_write F buf file in (st_tellp s, F', s))"

definition Exist :: "fsys \<Rightarrow> string \<Rightarrow> bool" where
  "Exist F p \<longleftrightarrow> map_of (nodes F) p \<noteq> None"

section \<open>Reading and writing a stream in good state\<close>

text \<open>A stream that is open on \<open>p\<close> with no state bit set.\<close>

definition ready :: "string \<Rightarrow> fstream \<Rightarrow> bool" where
  "ready p s \<longleftrightarrow> st_file s = Some p \<and> st_good s"

text \<open>A stream whose next write goes to the end of its file.\<close>

definition at_end :: "fsys \<Rightarrow> string \<Rightarrow> fstream \<Rightarrow> bool" where
  "at_end F p s \<longleftrightarrow> ready p s \<and> (st_app s \<or> st_pos s = length (file_content F p))"

lemma readyI [intro]: "st_file s = Some p \<Longrightarrow> \<not> st_eof s \<Longrightarrow> \<not> st_fail s \<Longrightarrow> ready p s"
  by (simp add: ready_def st_good_def)

lemma ready_simps [stream_simps]:
  "ready p s \<Longrightarrow> st_file s = Some p" "ready p s \<Longrightarrow> st_good s"
  "ready p s \<Longrightarrow> \<not> st_eof s" "ready p s \<Longrightarrow> \<not> st_fail s" "ready p s \<Longrightarrow> is_open s"
  by (auto simp: ready_def st_good_def is_open_def)

lemma seek_ready [stream_simps]: "ready p s \<Longrightarrow> st_seekg n s = s\<lparr>st_pos := n\<rparr>"
  by (cases s) (simp add: st_seekg_def Let_def ready_def st_good_def is_open_def)

lemma tellp_ready [stream_simps]: "ready p s \<Longrightarrow> st_tellp s = int (st_pos s)"
  by (simp add: st_tellp_def ready_simps)

lemma st_read_full:
  assumes "ready p s" and "st_pos s + n \<le> length (file_content F p)"
  shows "st_read F n s =
     (take n (drop (st_pos s) (file_content F p)), s\<lparr>st_pos := st_pos s + n, st_gcount := n\<rparr>)"
  using assms by (cases s) (auto simp: st_read_def Let_def ready_def st_good_def)

lemma st_read_short:
  assumes "ready p s" and "length (file_content F p) < st_pos s + n" and "0 < n"
  shows "st_fail (snd (st_read F n s))" and "st_file (snd (st_read F n s)) = Some p"
  using assms by (auto simp: st_read_def Let_def ready_def st_good_def)

lemma ready_pos [simp]: "ready p (s\<lparr>st_pos := x\<rparr>) = ready p s"
  "ready p (s\<lparr>st_gcount := y\<rparr>) = ready p s"
  by (simp_all add: ready_def st_good_def)

lemma ReadFile_buf_full:
  assumes "ready p s" and "st_pos s + n \<le> length (file_content F p)"
  shows "ReadFile_buf F s n =
     (True, take n (drop (st_pos s) (file_content F p)), s\<lparr>st_pos := st_pos s + n, st_gcount := n\<rparr>)"
  using st_read_full [OF assms] assms(1) by (simp add: ReadFile_buf_def stream_simps)

lemma ReadFile_buf_short:
  assumes "ready p s" and "length (file_content F p) < st_pos s + n" and "0 < n"
  obtains bs s' where "ReadFile_buf F s n = (False, bs, s')" and "st_fail s'"
  using st_read_short [OF assms]
  by (cases "st_read F n s") (auto simp: ReadFile_buf_def)

lemma ReadFile_at_full:
  assumes "ready p s" and "unat off + n \<le> length (file_content F p)"
  shows "ReadFile_at F s off n =
     (take n (drop (unat off) (file_content F p)), s\<lparr>st_pos := unat off + n, st_gcount := n\<rparr>)"
proof -
  have "st_seekg (unat off) s = s\<lparr>st_pos := unat off\<rparr>"
    using assms(1) by (simp add: stream_simps)
  then show ?thesis
    using assms ReadFile_buf_full [of p "s\<lparr>st_pos := unat off\<rparr>" n F]
    by (simp add: ReadFile_at_def ReadFile_size_def)
qed

lemma ReadFile_at_short:
  assumes "ready p s" and "length (file_content F p) < unat off + n" and "0 < n"
  obtains s' where "ReadFile_at F s off n = ([], s')" and "st_fail s'"
proof -
  have seek: "st_seekg (unat off) s = s\<lparr>st_pos := unat off\<rparr>"
    using assms(1) by (simp add: stream_simps)
  obtain bs s' where "ReadFile_buf F (s\<lparr>st_pos := unat off\<rparr>) n = (False, bs, s')" "st_fail s'"
    using assms by (auto intro: ReadFile_buf_short [of p "s\<lparr>st_pos := unat off\<rparr>" F n])
  then show thesis using that by (simp add: ReadFile_at_def ReadFile_size_def seek)
qed

lemma ReadFile_at_failed:
  assumes "st_fail s"
  obtains s' where "ReadFile_at F s off n = ([], s')" and "st_fail s'"
  using assms that
  by (simp add: ReadFile_at_def ReadFile_size_def ReadFile_buf_def st_seekg_def Let_def
      st_read_def st_good_def)

text \<open>A write at the end appends and stays at the end.\<close>

definition same_but :: "string \<Rightarrow> fsys \<Rightarrow> fsys \<Rightarrow> bool" where
  "same_but p F F' \<longleftrightarrow> denied F' = denied F \<and> (\<forall>q. q \<noteq> p \<longrightarrow> map_of (nodes F') q = map_of (nodes F) q)
     \<and> (distinct (map fst (nodes F)) \<longrightarrow> distinct (map fst (nodes F')))"

lemma same_but_refl [simp]: "same_but p F F"
  by (simp add: same_but_def)

lemma same_but_trans: "same_but p F G \<Longrightarrow> same_but p G H \<Longrightarrow> same_but p F H"
  by (auto simp: same_but_def)

lemma same_but_put [simp]: "same_but p F (put_file p bs F)"
  by (simp add: same_but_def)

lemma same_but_content: "same_but p F G \<Longrightarrow> q \<noteq> p \<Longrightarrow> file_content G q = file_content F q"
  "same_but p F G \<Longrightarrow> q \<noteq> p \<Longrightarrow> is_regular G q = is_regular F q"
  by (simp_all add: same_but_def file_content_def is_regular_def)

lemma WriteFile_at_end:
  assumes "at_end F p s" and "is_regular F p"
  obtains F' s' n where "WriteFile F s bs = (n, F', s')" and "at_end F' p s'"
    and "is_regular F' p" and "file_content F' p = file_content F p @ bs" and "same_but p F F'"
    and "bs \<noteq> [] \<longrightarrow> st_pos s' = length (file_content F' p)"
    and "st_pos s = length (file_content F p) \<longrightarrow> st_pos s' = length (file_content F' p)"
proof (cases "bs = []")
  case True
  then show thesis using assms that by (simp add: WriteFile_def st_write_def)
next
  case False
  let ?c = "file_content F p"
  have at: "(if st_app s then length ?c else st_pos s) = length ?c"
    using assms(1) by (auto simp: at_end_def)
  have "st_write F bs s = (put_file p (?c @ bs) F, s\<lparr>st_pos := length ?c + length bs\<rparr>)"
    using assms(1) False unfolding st_write_def at_end_def
    by (auto simp: stream_simps Let_def at_end_def)
  then show thesis using assms False that
    by (simp add: WriteFile_def at_end_def)
qed

end
