(* ===== verification/DiskRecord.thy ===== *)
theory DiskRecord
  imports FileStream
begin

text \<open>
  The on-disk record format: src/CRC32.hpp, src/Record.hpp and src/Record.cpp. A record is a header
  of three \<open>uint32_t\<close> (checksum, key size, value size), the key and the value. The checksum function
  of the third-party library crc32c is a parameter \<open>ext\<close> of every definition; nothing is assumed
  of it. Headers are laid out little-endian and without padding, as on every platform the build
  files name.
\<close>

section \<open>CRC32.hpp\<close>

type_synonym crc_fn = "u32 \<Rightarrow> u8 list \<Rightarrow> u32"  \<comment> \<open>\<open>crc32c::Extend\<close>\<close>

definition as_uint8 :: "char list \<Rightarrow> u8 list" where
  "as_uint8 bs = map of_char bs"

definition crc32_data :: "crc_fn \<Rightarrow> u32 \<Rightarrow> u8 list \<Rightarrow> u32" where
  "crc32_data ext crc data = ext crc data"

definition crc32_string :: "crc_fn \<Rightarrow> u32 \<Rightarrow> string \<Rightarrow> u32" where
  "crc32_string ext crc str = ext crc (as_uint8 str)"

text \<open>The overload for a \<open>std::string_view\<close>, which the program does not use.\<close>

definition crc32_string_view :: "crc_fn \<Rightarrow> u32 \<Rightarrow> string \<Rightarrow> u32" where
  "crc32_string_view ext crc view = ext crc (as_uint8 view)"

section \<open>Headers\<close>

record RecordHeader =
  h_crc32 :: u32
  h_keySize :: u32
  h_valueSize :: u32

record RecordInf =
  inf_size :: u32
  inf_keyOffset :: offset
  inf_valueOffset :: offset

definition header_size :: nat where  \<comment> \<open>\<open>sizeof(RecordHeader)\<close>\<close>
  "header_size = 12"

definition header_bytes :: "RecordHeader \<Rightarrow> char list" where
  "header_bytes h = le32 (h_crc32 h) @ le32 (h_keySize h) @ le32 (h_valueSize h)"

definition header_of_bytes :: "char list \<Rightarrow> RecordHeader" where
  "header_of_bytes bs =
     \<lparr>h_crc32 = of_le32 (take 4 bs), h_keySize = of_le32 (take 4 (drop 4 bs)),
      h_valueSize = of_le32 (take 4 (drop 8 bs))\<rparr>"

definition getCRC32 :: "crc_fn \<Rightarrow> RecordHeader \<Rightarrow> key \<Rightarrow> val \<Rightarrow> u32" where
  "getCRC32 ext header k v =
     (let crc = 0;
          crc = crc32_data ext crc (as_uint8 (le32 (h_keySize header)));
          crc = crc32_data ext crc (as_uint8 (le32 (h_valueSize header)));
          crc = crc32_string ext crc k;
          crc = crc32_string ext crc v
      in crc)"

text \<open>\<open>fillHeader\<close>: the filled header and the size of the whole record, a \<open>size_t\<close>.\<close>

definition fillHeader :: "crc_fn \<Rightarrow> key \<Rightarrow> val \<Rightarrow> RecordHeader \<times> u64" where
  "fillHeader ext k v =
     (let h = \<lparr>h_crc32 = 0, h_keySize = word_of_nat (length k), h_valueSize = word_of_nat (length v)\<rparr>;
          h = h\<lparr>h_crc32 := getCRC32 ext h k v\<rparr>
      in (h, word_of_nat header_size + ucast (h_keySize h) + ucast (h_valueSize h)))"

section \<open>Writing and reading one record\<close>

definition WriteRecord :: "crc_fn \<Rightarrow> fsys \<Rightarrow> fstream \<Rightarrow> key \<Rightarrow> val \<Rightarrow> RecordInf \<times> fsys \<times> fstream" where
  "WriteRecord ext F file k v =
     (let (header, sz) = fillHeader ext k v;
          (_, F, file) = WriteFile F file (header_bytes header);
          keyOffset = word_of_int (st_tellp file);
          (_, F, file) = WriteFile F file k;
          valueOffset = word_of_int (st_tellp file);
          (_, F, file) = WriteFile F file v
      in (\<lparr>inf_size = ucast sz, inf_keyOffset = keyOffset, inf_valueOffset = valueOffset\<rparr>, F, file))"

text \<open>
  \<open>ReadRecord\<close>: \<open>None\<close> for the result \<open>false\<close>. The offsets are 32-bit, so the sums wrap and a
  position beyond 4 GB is truncated; a short read of key or value leaves the stream failed and gives
  the empty string, and the checksum decides.
\<close>

definition ReadRecord :: "crc_fn \<Rightarrow> fsys \<Rightarrow> fstream \<Rightarrow> (key \<times> val \<times> RecordInf) option \<times> fstream" where
  "ReadRecord ext F file =
     (let (ok, buf, file) = ReadFile_buf F file header_size
      in if \<not> ok then (None, file)
         else
           let header = header_of_bytes buf;
               keyOffset = word_of_int (st_tellp file);
               (k, file) = ReadFile_at F file keyOffset (unat (h_keySize header));
               valueOffset = keyOffset + h_keySize header;
               (v, file) = ReadFile_at F file valueOffset (unat (h_valueSize header));
               sz = word_of_nat header_size + ucast (h_keySize header) + ucast (h_valueSize header) :: u64
           in if h_crc32 header \<noteq> getCRC32 ext header k v then (None, file)
              else (Some (k, v, \<lparr>inf_size = ucast sz, inf_keyOffset = keyOffset,
                                 inf_valueOffset = valueOffset\<rparr>), file))"

section \<open>Scanning a file\<close>

text \<open>
  The loop of \<open>ReadAllRecordFromFile\<close>, with the state the callback captures threaded through. The
  loop is not known to end: in a file of 4 GB and more the truncated offsets can send it back, so
  the result is an option and \<open>None\<close> means that it does not return.
\<close>

type_synonym 'x callback = "key \<Rightarrow> val \<Rightarrow> RecordInf \<Rightarrow> 'x \<Rightarrow> 'x"

partial_function (option) read_loop ::
  "crc_fn \<Rightarrow> fsys \<Rightarrow> 'x callback \<Rightarrow> fstream \<Rightarrow> 'x \<Rightarrow> (fstream \<times> 'x) option" where
  "read_loop ext F callback file x =
     (case ReadRecord ext F file of
        (None, file') \<Rightarrow> Some (file', x)
      | (Some (k, v, info), file') \<Rightarrow> read_loop ext F callback file' (callback k v info x))"

declare read_loop.simps [code]

definition ReadAllRecordFromFile ::
  "crc_fn \<Rightarrow> fsys \<Rightarrow> 'x callback \<Rightarrow> fstream \<Rightarrow> 'x \<Rightarrow> (fstream \<times> 'x) option" where
  "ReadAllRecordFromFile ext F callback file x = read_loop ext F callback (st_seekg 0 file) x"

section \<open>The format as a function\<close>

text \<open>The bytes of one record and of a log, and what a scan of the log reports.\<close>

definition enc_record :: "crc_fn \<Rightarrow> key \<times> val \<Rightarrow> char list" where
  "enc_record ext r = header_bytes (fst (fillHeader ext (fst r) (snd r))) @ fst r @ snd r"

definition enc_log :: "crc_fn \<Rightarrow> (key \<times> val) list \<Rightarrow> char list" where
  "enc_log ext rs = concat (map (enc_record ext) rs)"

definition rec_size :: "key \<times> val \<Rightarrow> nat" where
  "rec_size r = header_size + length (fst r) + length (snd r)"

definition log_size :: "(key \<times> val) list \<Rightarrow> nat" where
  "log_size rs = sum_list (map rec_size rs)"

fun log_entries :: "nat \<Rightarrow> (key \<times> val) list \<Rightarrow> (key \<times> val \<times> RecordInf) list" where
  "log_entries off [] = []"
| "log_entries off (r # rs) =
     (fst r, snd r,
      \<lparr>inf_size = word_of_nat (rec_size r), inf_keyOffset = word_of_nat (off + header_size),
       inf_valueOffset = word_of_nat (off + header_size + length (fst r))\<rparr>)
     # log_entries (off + rec_size r) rs"

text \<open>What \<open>ReadRecord\<close> makes of the bytes from its position on: the record it parses, before the check.\<close>

definition parsed_key :: "char list \<Rightarrow> key" where
  "parsed_key bs = (let ks = unat (h_keySize (header_of_bytes bs))
     in if header_size + ks \<le> length bs then take ks (drop header_size bs) else [])"

definition parsed_value :: "char list \<Rightarrow> val" where
  "parsed_value bs = (let ks = unat (h_keySize (header_of_bytes bs)); vs = unat (h_valueSize (header_of_bytes bs))
     in if header_size + ks + vs \<le> length bs then take vs (drop (header_size + ks) bs) else [])"

text \<open>A tail at which the scan stops: too short for a header, or the checksum does not match.\<close>

definition tail_stops :: "crc_fn \<Rightarrow> char list \<Rightarrow> bool" where
  "tail_stops ext bs \<longleftrightarrow> length bs < header_size \<or>
     h_crc32 (header_of_bytes bs) \<noteq> getCRC32 ext (header_of_bytes bs) (parsed_key bs) (parsed_value bs)"

lemma length_header_bytes [simp]: "length (header_bytes h) = header_size"
  by (simp add: header_bytes_def header_size_def)

lemma header_of_bytes_append [simp]: "header_of_bytes (header_bytes h @ bs) = h"
  by (simp add: header_of_bytes_def header_bytes_def)

lemma header_of_bytes_bytes [simp]: "header_of_bytes (header_bytes h) = h"
  using header_of_bytes_append [of h "[]"] by simp

lemma length_enc_record [simp]: "length (enc_record ext r) = rec_size r"
  by (simp add: enc_record_def rec_size_def)

lemma enc_log_simps [simp]: "enc_log ext [] = []" "enc_log ext (r # rs) = enc_record ext r @ enc_log ext rs"
  "enc_log ext (rs @ qs) = enc_log ext rs @ enc_log ext qs"
  by (simp_all add: enc_log_def)

lemma log_size_simps [simp]: "log_size [] = 0" "log_size (r # rs) = rec_size r + log_size rs"
  "log_size (rs @ qs) = log_size rs + log_size qs"
  by (simp_all add: log_size_def)

lemma length_enc_log [simp]: "length (enc_log ext rs) = log_size rs"
  by (induction rs) auto

lemma log_entries_append: "log_entries off (rs @ qs) = log_entries off rs @ log_entries (off + log_size rs) qs"
  by (induction rs arbitrary: off) (auto simp: add.assoc)

section \<open>What one call of ReadRecord does\<close>

definition parsed_inf :: "nat \<Rightarrow> char list \<Rightarrow> RecordInf" where
  "parsed_inf pos bs =
     (let h = header_of_bytes bs
      in \<lparr>inf_size = ucast (word_of_nat header_size + ucast (h_keySize h) + ucast (h_valueSize h) :: u64),
          inf_keyOffset = word_of_nat (pos + header_size),
          inf_valueOffset = word_of_nat (pos + header_size) + h_keySize h\<rparr>)"

definition parsed_len :: "char list \<Rightarrow> nat" where
  "parsed_len bs = header_size + unat (h_keySize (header_of_bytes bs)) + unat (h_valueSize (header_of_bytes bs))"

lemma unat_of_nat_u32: "n < 2 ^ 32 \<Longrightarrow> unat (word_of_nat n :: u32) = n"
  by (simp add: unat_of_nat take_bit_nat_eq_self)

lemma header_of_take: "header_size \<le> length bs \<Longrightarrow> header_of_bytes (take header_size bs) = header_of_bytes bs"
  by (simp add: header_of_bytes_def header_size_def drop_take take_take min_def)

text \<open>Key and value are read, or one of them is short and the stream is left failed.\<close>

lemma read_key_value:
  fixes c pos ks vs
  assumes "ready p s" and "c = file_content F p" and "st_pos s = pos + header_size"
    and "pos + header_size \<le> length c" and "length c < 2 ^ 32"
    and "off = word_of_nat (pos + header_size)"
  obtains s1 s2 where "ReadFile_at F s off (unat ks) =
        ((if pos + header_size + unat ks \<le> length c then take (unat ks) (drop (pos + header_size) c) else []), s1)"
    and "ReadFile_at F s1 (off + ks) (unat vs) =
        ((if pos + header_size + unat ks + unat vs \<le> length c
          then take (unat vs) (drop (pos + header_size + unat ks) c) else []), s2)"
    and "if pos + header_size + unat ks + unat vs \<le> length c
         then ready p s2 \<and> st_pos s2 = pos + header_size + unat ks + unat vs else st_fail s2"
proof (cases "pos + header_size + unat ks \<le> length c")
  case True
  have off: "unat off = pos + header_size"
    unfolding assms(6) by (rule unat_of_nat_u32) (use assms(4,5) in linarith)
  have off2: "unat (off + ks) = pos + header_size + unat ks"
    using True assms(5) off by (simp add: unat_word_ariths)
  define s1 where "s1 = s\<lparr>st_pos := pos + header_size + unat ks, st_gcount := unat ks\<rparr>"
  have r1: "ReadFile_at F s off (unat ks) = (take (unat ks) (drop (pos + header_size) c), s1)"
    using ReadFile_at_full [of p s off "unat ks" F] assms(1,2) True by (simp add: off s1_def)
  have rd: "ready p s1" using assms(1) by (simp add: s1_def)
  show thesis
  proof (cases "pos + header_size + unat ks + unat vs \<le> length c")
    case T2: True
    show thesis
      using that [OF _ _ ] r1 T2 True rd ReadFile_at_full [of p s1 "off + ks" "unat vs" F] assms(2)
      by (simp add: off2)
  next
    case F2: False
    then have "0 < unat vs" using True by (metis add.right_neutral gr_zeroI)
    then obtain s2 where "ReadFile_at F s1 (off + ks) (unat vs) = ([], s2)" "st_fail s2"
      using ReadFile_at_short [of p s1 F "off + ks" "unat vs"] rd F2 assms(2) by (auto simp: off2)
    then show thesis using that r1 True F2 by simp
  qed
next
  case False
  have off: "unat off = pos + header_size"
    unfolding assms(6) by (rule unat_of_nat_u32) (use assms(4,5) in linarith)
  have "0 < unat ks" using False assms(4) by (metis add.right_neutral gr_zeroI)
  then obtain s1 where s1: "ReadFile_at F s off (unat ks) = ([], s1)" "st_fail s1"
    using ReadFile_at_short [of p s F off "unat ks"] assms(1,2) False by (auto simp: off)
  obtain s2 where "ReadFile_at F s1 (off + ks) (unat vs) = ([], s2)" "st_fail s2"
    using ReadFile_at_failed [OF s1(2)] by blast
  then show thesis using that s1 False by simp
qed

lemma ReadRecord_none_short:
  assumes "ready p s" and "length (file_content F p) < st_pos s + header_size"
  obtains s' where "ReadRecord ext F s = (None, s')"
proof -
  obtain bs s' where "ReadFile_buf F s header_size = (False, bs, s')" "st_fail s'"
    by (rule ReadFile_buf_short [OF assms]) (simp add: header_size_def)
  then show thesis using that by (simp add: ReadRecord_def)
qed

lemma ReadRecord_failed:
  assumes "st_fail s" obtains s' where "ReadRecord ext F s = (None, s')"
  using assms that by (simp add: ReadRecord_def ReadFile_buf_def st_read_def st_good_def)

lemma ReadRecord_header:
  fixes c bs
  assumes "ready p s" and "c = file_content F p" and "bs = drop (st_pos s) c"
    and "header_size \<le> length bs" and "length c < 2 ^ 32"
  obtains s' where "ReadRecord ext F s =
      ((if tail_stops ext bs then None
        else Some (parsed_key bs, parsed_value bs, parsed_inf (st_pos s) bs)), s')"
    and "if parsed_len bs \<le> length bs then ready p s' \<and> st_pos s' = st_pos s + parsed_len bs
         else st_fail s'"
proof -
  define pos s0 h where "pos = st_pos s"
    and "s0 = s\<lparr>st_pos := pos + header_size, st_gcount := header_size\<rparr>" and "h = header_of_bytes bs"
  have le: "pos + header_size \<le> length c" and len: "length bs = length c - pos"
    using assms(3,4) by (auto simp: pos_def header_size_def)
  have buf: "ReadFile_buf F s header_size = (True, take header_size bs, s0)"
    using ReadFile_buf_full [OF assms(1), of header_size F] le assms(2,3) by (simp add: s0_def pos_def)
  have s0: "ready p s0" "st_pos s0 = pos + header_size" using assms(1) by (auto simp: s0_def)
  have off: "word_of_int (st_tellp s0) = (word_of_nat (pos + header_size) :: u32)"
    using s0 by (simp add: stream_simps)
  obtain s1 s2 where r:
    "ReadFile_at F s0 (word_of_nat (pos + header_size)) (unat (h_keySize h)) =
       ((if pos + header_size + unat (h_keySize h) \<le> length c
         then take (unat (h_keySize h)) (drop (pos + header_size) c) else []), s1)"
    "ReadFile_at F s1 (word_of_nat (pos + header_size) + h_keySize h) (unat (h_valueSize h)) =
       ((if pos + header_size + unat (h_keySize h) + unat (h_valueSize h) \<le> length c
         then take (unat (h_valueSize h)) (drop (pos + header_size + unat (h_keySize h)) c) else []), s2)"
    "if pos + header_size + unat (h_keySize h) + unat (h_valueSize h) \<le> length c
     then ready p s2 \<and> st_pos s2 = pos + header_size + unat (h_keySize h) + unat (h_valueSize h)
     else st_fail s2"
    by (rule read_key_value [OF s0(1) assms(2) s0(2) le assms(5) refl])
  have pk: "parsed_key bs = (if pos + header_size + unat (h_keySize h) \<le> length c
         then take (unat (h_keySize h)) (drop (pos + header_size) c) else [])"
    using len le unfolding parsed_key_def Let_def h_def [symmetric]
    by (auto simp: assms(3) pos_def add.commute)
  have pv: "parsed_value bs = (if pos + header_size + unat (h_keySize h) + unat (h_valueSize h) \<le> length c
         then take (unat (h_valueSize h)) (drop (pos + header_size + unat (h_keySize h)) c) else [])"
    using len le unfolding parsed_value_def Let_def h_def [symmetric]
    by (auto simp: assms(3) pos_def add.commute add.left_commute)
  have pl: "parsed_len bs = header_size + unat (h_keySize h) + unat (h_valueSize h)"
    by (simp add: parsed_len_def h_def)
  have "ReadRecord ext F s =
      ((if tail_stops ext bs then None
        else Some (parsed_key bs, parsed_value bs, parsed_inf pos bs)), s2)"
    using assms(4) unfolding ReadRecord_def buf pk pv tail_stops_def parsed_inf_def
    by (simp add: header_of_take off r(1,2) Let_def del: of_nat_add flip: h_def)
  moreover have "if parsed_len bs \<le> length bs then ready p s2 \<and> st_pos s2 = st_pos s + parsed_len bs
      else st_fail s2"
    using r(3) len le by (auto simp: pl pos_def add.assoc split: if_splits)
  ultimately show thesis using that by (simp add: pos_def)
qed

lemma ReadRecord_tail_stops:
  assumes "ready p s" and "tail_stops ext (drop (st_pos s) (file_content F p))"
    and "length (file_content F p) < 2 ^ 32"
  obtains s' where "ReadRecord ext F s = (None, s')"
proof (cases "header_size \<le> length (drop (st_pos s) (file_content F p))")
  case True
  show thesis
    by (rule ReadRecord_header [OF assms(1) refl refl True assms(3), where ext = ext])
      (use assms(2) that in simp)
next
  case False
  then have "length (file_content F p) < st_pos s + header_size" by simp
  then show thesis using ReadRecord_none_short [OF assms(1)] that by blast
qed

section \<open>The scan loop\<close>

lemma read_loop_stop: "ReadRecord ext F s = (None, s') \<Longrightarrow> read_loop ext F cb s x = Some (s', x)"
  by (simp add: read_loop.simps)

lemma read_loop_step:
  "ReadRecord ext F s = (Some (k, v, i), s') \<Longrightarrow> read_loop ext F cb s x = read_loop ext F cb s' (cb k v i x)"
  by (subst read_loop.simps) simp

lemma read_loop_failed:
  assumes "st_fail s" obtains s' where "read_loop ext F cb s x = Some (s', x)"
  using ReadRecord_failed [OF assms] read_loop_stop that by metis

text \<open>In a file below 4 GB every successful call moves the stream forward, so the loop ends.\<close>

lemma read_loop_terminates:
  assumes "ready p s" and "length (file_content F p) < 2 ^ 32"
  shows "\<exists>r. read_loop ext F cb s x = Some r"
  using assms
proof (induction "length (file_content F p) - st_pos s" arbitrary: s x rule: less_induct)
  case less
  let ?c = "file_content F p" and ?bs = "drop (st_pos s) (file_content F p)"
  show ?case
  proof (cases "header_size \<le> length ?bs")
    case False
    then have "length ?c < st_pos s + header_size" by simp
    with ReadRecord_none_short [OF less.prems(1)] show ?thesis
      using read_loop_stop by metis
  next
    case True
    obtain s' where rr: "ReadRecord ext F s = ((if tail_stops ext ?bs then None
        else Some (parsed_key ?bs, parsed_value ?bs, parsed_inf (st_pos s) ?bs)), s')"
      and st: "if parsed_len ?bs \<le> length ?bs then ready p s' \<and> st_pos s' = st_pos s + parsed_len ?bs
         else st_fail s'"
      by (rule ReadRecord_header [OF less.prems(1) refl refl True less.prems(2)])
    consider "tail_stops ext ?bs" | "\<not> tail_stops ext ?bs" "st_fail s'"
      | "\<not> tail_stops ext ?bs" "ready p s'" "st_pos s' = st_pos s + parsed_len ?bs" "parsed_len ?bs \<le> length ?bs"
      using st by (auto split: if_splits)
    then show ?thesis
    proof cases
      case 1
      then show ?thesis using rr by (auto simp: read_loop_stop)
    next
      case 2
      obtain y where "read_loop ext F cb s' (cb (parsed_key ?bs) (parsed_value ?bs)
          (parsed_inf (st_pos s) ?bs) x) = Some y"
        using read_loop_failed [OF 2(2)] by metis
      then show ?thesis using rr 2(1) by (auto simp: read_loop_step)
    next
      case 3
      have "length ?c - st_pos s' < length ?c - st_pos s"
        using 3(3,4) True by (simp add: parsed_len_def header_size_def)
      from less.hyps [OF this 3(2) less.prems(2)] rr 3(1) show ?thesis
        by (simp add: read_loop_step)
    qed
  qed
qed

text \<open>A well-formed record at the head of the unread bytes is parsed as itself.\<close>

lemma enc_record_header:
  "header_of_bytes (enc_record ext r @ bs) = fst (fillHeader ext (fst r) (snd r))"
  by (simp add: enc_record_def)

lemma fillHeader_sizes:
  "h_keySize (fst (fillHeader ext k v)) = word_of_nat (length k)"
  "h_valueSize (fst (fillHeader ext k v)) = word_of_nat (length v)"
  by (simp_all add: fillHeader_def Let_def)

lemma getCRC32_update [simp]: "getCRC32 ext (h\<lparr>h_crc32 := c\<rparr>) k v = getCRC32 ext h k v"
  by (simp add: getCRC32_def)

lemma fillHeader_crc: "getCRC32 ext (fst (fillHeader ext k v)) k v = h_crc32 (fst (fillHeader ext k v))"
  by (simp add: fillHeader_def Let_def getCRC32_def)

lemma enc_record_parse:
  assumes "rec_size r < 2 ^ 32"
  shows "parsed_key (enc_record ext r @ bs) = fst r" and "parsed_value (enc_record ext r @ bs) = snd r"
    and "parsed_len (enc_record ext r @ bs) = rec_size r"
    and "\<not> tail_stops ext (enc_record ext r @ bs)"
    and "parsed_inf off (enc_record ext r @ bs) = \<lparr>inf_size = word_of_nat (rec_size r),
      inf_keyOffset = word_of_nat (off + header_size),
      inf_valueOffset = word_of_nat (off + header_size + length (fst r))\<rparr>"
proof -
  have u: "unat (word_of_nat (length (fst r)) :: u32) = length (fst r)"
    "unat (word_of_nat (length (snd r)) :: u32) = length (snd r)"
    by (rule unat_of_nat_u32, use assms in \<open>simp add: rec_size_def\<close>)+
  note h = enc_record_header fillHeader_sizes u
  have len: "length (enc_record ext r @ bs) = rec_size r + length bs" by simp
  show k: "parsed_key (enc_record ext r @ bs) = fst r"
    unfolding parsed_key_def Let_def h len by (simp add: rec_size_def enc_record_def)
  show v: "parsed_value (enc_record ext r @ bs) = snd r"
    unfolding parsed_value_def Let_def h len by (simp add: rec_size_def enc_record_def)
  show "parsed_len (enc_record ext r @ bs) = rec_size r"
    unfolding parsed_len_def h by (simp add: rec_size_def)
  show "\<not> tail_stops ext (enc_record ext r @ bs)"
    unfolding tail_stops_def k v enc_record_header fillHeader_crc by (simp add: rec_size_def)
  have uc: "ucast (word_of_nat (length (fst r)) :: u32) = (word_of_nat (length (fst r)) :: u64)"
    "ucast (word_of_nat (length (snd r)) :: u32) = (word_of_nat (length (snd r)) :: u64)"
    using assms by (simp_all add: unsigned_of_nat take_bit_nat_eq_self rec_size_def)
  have "ucast (word_of_nat (rec_size r) :: u64) = (word_of_nat (rec_size r) :: u32)"
    using assms by (simp add: unsigned_of_nat take_bit_nat_eq_self)
  then have "ucast (word_of_nat header_size + ucast (word_of_nat (length (fst r)) :: u32)
      + ucast (word_of_nat (length (snd r)) :: u32) :: u64) = (word_of_nat (rec_size r) :: u32)"
    unfolding uc by (simp add: rec_size_def)
  then show "parsed_inf off (enc_record ext r @ bs) = \<lparr>inf_size = word_of_nat (rec_size r),
      inf_keyOffset = word_of_nat (off + header_size),
      inf_valueOffset = word_of_nat (off + header_size + length (fst r))\<rparr>"
    unfolding parsed_inf_def Let_def h by (simp add: add.assoc)
qed

text \<open>
  The scan of a log followed by a tail at which it stops: the callback sees exactly the records of
  the log, in order, with the offsets of their keys and values.
\<close>

definition feed :: "'x callback \<Rightarrow> (key \<times> val \<times> RecordInf) list \<Rightarrow> 'x \<Rightarrow> 'x" where
  "feed cb es x = fold (\<lambda>(k, v, i). cb k v i) es x"

lemma feed_simps [simp]: "feed cb [] x = x" "feed cb ((k, v, i) # es) x = feed cb es (cb k v i x)"
  "feed cb (es @ fs) x = feed cb fs (feed cb es x)"
  by (simp_all add: feed_def)

lemma read_loop_log:
  assumes "ready p s" and "file_content F p = pre @ enc_log ext rs @ tail" and "st_pos s = length pre"
    and "length (file_content F p) < 2 ^ 32" and "tail_stops ext tail"
  obtains s' where "read_loop ext F cb s x = Some (s', feed cb (log_entries (length pre) rs) x)"
  using assms
proof (induction rs arbitrary: s x pre thesis)
  case Nil
  have dr: "drop (st_pos s) (file_content F p) = tail" using Nil.prems by simp
  obtain s' where "ReadRecord ext F s = (None, s')"
    by (rule ReadRecord_tail_stops [OF Nil.prems(2), where ext = ext and F = F])
      (use Nil.prems(5,6) dr in simp_all)
  then show thesis using Nil.prems(1) by (simp add: read_loop_stop)
next
  case (Cons r rs)
  let ?rest = "enc_log ext rs @ tail"
  have dr: "drop (st_pos s) (file_content F p) = enc_record ext r @ ?rest" using Cons.prems by simp
  have sz: "rec_size r < 2 ^ 32" and fits: "rec_size r \<le> length (enc_record ext r @ ?rest)"
    and hd: "header_size \<le> length (enc_record ext r @ ?rest)"
    using Cons.prems by (auto simp: rec_size_def)
  note parse = enc_record_parse [OF sz, where ext = ext and bs = ?rest]
  obtain s' where rr: "ReadRecord ext F s = (Some (fst r, snd r, parsed_inf (length pre) (enc_record ext r @ ?rest)), s')"
    and s': "ready p s'" "st_pos s' = length (pre @ enc_record ext r)"
    by (rule ReadRecord_header [OF Cons.prems(2) refl dr [symmetric] hd Cons.prems(5), where ext = ext])
      (use fits Cons.prems(4) parse in simp)
  obtain s2 where "read_loop ext F cb s' (cb (fst r) (snd r) (parsed_inf (length pre) (enc_record ext r @ ?rest)) x) =
      Some (s2, feed cb (log_entries (length (pre @ enc_record ext r)) rs)
        (cb (fst r) (snd r) (parsed_inf (length pre) (enc_record ext r @ ?rest)) x))"
    by (rule Cons.IH [OF _ s'(1) _ s'(2) Cons.prems(5,6)]) (use Cons.prems(3) in auto)
  then have "read_loop ext F cb s x = Some (s2, feed cb (log_entries (length pre) (r # rs)) x)"
    by (simp add: read_loop_step [OF rr] parse(5) del: of_nat_add)
  then show thesis by (rule Cons.prems(1))
qed

section \<open>Writing at the end of a log\<close>

lemma at_end_ready: "at_end F p s \<Longrightarrow> ready p s"
  by (simp add: at_end_def)

lemma header_bytes_nonempty [simp]: "header_bytes h \<noteq> []"
  by (simp add: header_bytes_def le32_def Let_def)

lemma WriteRecord_at_end:
  assumes "at_end F p s" and "is_regular F p"
  obtains F' s' where "WriteRecord ext F s k v = (\<lparr>inf_size = ucast (snd (fillHeader ext k v)),
        inf_keyOffset = word_of_nat (length (file_content F p) + header_size),
        inf_valueOffset = word_of_nat (length (file_content F p) + header_size + length k)\<rparr>, F', s')"
    and "at_end F' p s'" and "st_pos s' = length (file_content F' p)" and "is_regular F' p"
    and "file_content F' p = file_content F p @ enc_record ext (k, v)" and "same_but p F F'"
proof -
  let ?h = "fst (fillHeader ext k v)"
  obtain F1 s1 n1 where w1: "WriteFile F s (header_bytes ?h) = (n1, F1, s1)" "at_end F1 p s1" "is_regular F1 p"
    "file_content F1 p = file_content F p @ header_bytes ?h" "same_but p F F1"
    "st_pos s1 = length (file_content F1 p)"
    by (rule WriteFile_at_end [OF assms, of "header_bytes ?h"]) simp
  obtain F2 s2 n2 where w2: "WriteFile F1 s1 k = (n2, F2, s2)" "at_end F2 p s2" "is_regular F2 p"
    "file_content F2 p = file_content F1 p @ k" "same_but p F1 F2" "st_pos s2 = length (file_content F2 p)"
    by (rule WriteFile_at_end [OF w1(2,3), of k]) (use w1(6) in simp)
  obtain F3 s3 n3 where w3: "WriteFile F2 s2 v = (n3, F3, s3)" "at_end F3 p s3" "is_regular F3 p"
    "file_content F3 p = file_content F2 p @ v" "same_but p F2 F3" "st_pos s3 = length (file_content F3 p)"
    by (rule WriteFile_at_end [OF w2(2,3), of v]) (use w2(6) in simp)
  have t1: "st_tellp s1 = int (length (file_content F p) + header_size)"
    using tellp_ready [OF at_end_ready [OF w1(2)]] w1(4,6) by simp
  have t2: "st_tellp s2 = int (length (file_content F p) + header_size + length k)"
    using tellp_ready [OF at_end_ready [OF w2(2)]] w1(4) w2(4,6) by simp
  have "WriteRecord ext F s k v = (\<lparr>inf_size = ucast (snd (fillHeader ext k v)),
        inf_keyOffset = word_of_nat (length (file_content F p) + header_size),
        inf_valueOffset = word_of_nat (length (file_content F p) + header_size + length k)\<rparr>, F3, s3)"
    unfolding WriteRecord_def by (simp add: w1(1) w2(1) w3(1) t1 t2 case_prod_beta)
  moreover have "same_but p F F3" using w1(5) w2(5) w3(5) same_but_trans by blast
  ultimately show thesis using that w3 w2(4) w1(4) by (simp add: enc_record_def)
qed

text \<open>The value offset a scan or a write reports is where the value's bytes are.\<close>

lemma log_entries_slice:
  assumes "(k, v, i) \<in> set (log_entries off rs)" and "off + log_size rs < 2 ^ 32" and "length pre = off"
  shows "take (length v) (drop (unat (inf_valueOffset i)) (pre @ enc_log ext rs @ post)) = v"
    and "unat (inf_valueOffset i) + length v \<le> off + log_size rs"
  using assms
proof (induction rs arbitrary: off pre)
  case (Cons r rs)
  { case 1
    show ?case
    proof (cases "(k, v, i) \<in> set (log_entries (off + rec_size r) rs)")
      case True
      then show ?thesis using Cons.IH(1) [of "off + rec_size r" "pre @ enc_record ext r"] "1" by simp
    next
      case False
      then have e: "k = fst r" "v = snd r" "inf_valueOffset i = word_of_nat (off + header_size + length (fst r))"
        using "1" by auto
      have "unat (inf_valueOffset i) = off + header_size + length (fst r)"
        unfolding e by (rule unat_of_nat_u32) (use "1" in \<open>simp add: rec_size_def\<close>)
      then show ?thesis using "1" e by (simp add: enc_record_def)
    qed
  next
    case 2
    show ?case
    proof (cases "(k, v, i) \<in> set (log_entries (off + rec_size r) rs)")
      case True
      then show ?thesis using Cons.IH(2) [of "off + rec_size r" "pre @ enc_record ext r"] "2" by simp
    next
      case False
      then have e: "k = fst r" "v = snd r" "inf_valueOffset i = word_of_nat (off + header_size + length (fst r))"
        using "2" by auto
      have "unat (inf_valueOffset i) = off + header_size + length (fst r)"
        unfolding e by (rule unat_of_nat_u32) (use "2" in \<open>simp add: rec_size_def\<close>)
      then show ?thesis using "2" e by (simp add: rec_size_def)
    qed
  }
qed auto

section \<open>The log as an interface\<close>

text \<open>
  What the storage layer promises its client: a representation of a list of records, an append that
  extends the list while there is room, and a scan that gives the list back.
\<close>

locale record_log =
  fixes rep :: "'s \<Rightarrow> (key \<times> val) list \<Rightarrow> bool"
    and append_rec :: "key \<times> val \<Rightarrow> 's \<Rightarrow> 's"
    and scan :: "'s \<Rightarrow> (key \<times> val) list option"
    and room :: "(key \<times> val) list \<Rightarrow> bool"
  assumes append_rep: "rep s rs \<Longrightarrow> room (rs @ [r]) \<Longrightarrow> rep (append_rec r s) (rs @ [r])"
    and scan_rep: "rep s rs \<Longrightarrow> room rs \<Longrightarrow> scan s = Some rs"
    and room_prefix: "room (rs @ qs) \<Longrightarrow> room rs"
begin

lemma append_all_rep: "rep s rs \<Longrightarrow> room (rs @ qs) \<Longrightarrow> rep (fold append_rec qs s) (rs @ qs)"
proof (induction qs arbitrary: s rs)
  case (Cons q qs)
  have "rep (append_rec q s) (rs @ [q])"
    using Cons.prems room_prefix [of "rs @ [q]" qs] by (intro append_rep) auto
  then show ?case using Cons.IH [of "append_rec q s" "rs @ [q]"] Cons.prems(2) by simp
qed simp

lemma scan_append_all: "rep s rs \<Longrightarrow> room (rs @ qs) \<Longrightarrow> scan (fold append_rec qs s) = Some (rs @ qs)"
  using append_all_rep scan_rep by blast

end

text \<open>The code's log: a stream at the end of a file that holds the encoded records.\<close>

definition file_rep :: "crc_fn \<Rightarrow> string \<Rightarrow> fsys \<times> fstream \<Rightarrow> (key \<times> val) list \<Rightarrow> bool" where
  "file_rep ext p fs rs \<longleftrightarrow> at_end (fst fs) p (snd fs) \<and> is_regular (fst fs) p
     \<and> file_content (fst fs) p = enc_log ext rs"

definition file_append :: "crc_fn \<Rightarrow> key \<times> val \<Rightarrow> fsys \<times> fstream \<Rightarrow> fsys \<times> fstream" where
  "file_append ext r fs = snd (WriteRecord ext (fst fs) (snd fs) (fst r) (snd r))"

definition file_scan :: "crc_fn \<Rightarrow> fsys \<times> fstream \<Rightarrow> (key \<times> val) list option" where
  "file_scan ext fs = map_option snd
     (ReadAllRecordFromFile ext (fst fs) (\<lambda>k v i acc. acc @ [(k, v)]) (snd fs) [])"

definition fits_u32 :: "(key \<times> val) list \<Rightarrow> bool" where
  "fits_u32 rs \<longleftrightarrow> log_size rs < 2 ^ 32"

lemma tail_stops_Nil [simp]: "tail_stops ext []"
  by (simp add: tail_stops_def header_size_def)

lemma ReadAll_log:
  assumes "ready p s" and "file_content F p = enc_log ext rs @ tail"
    and "length (file_content F p) < 2 ^ 32" and "tail_stops ext tail"
  obtains s' where "ReadAllRecordFromFile ext F cb s x = Some (s', feed cb (log_entries 0 rs) x)"
proof -
  have seek: "st_seekg 0 s = s\<lparr>st_pos := 0\<rparr>"
    using assms(1) by (simp add: stream_simps)
  obtain s' where "read_loop ext F cb (s\<lparr>st_pos := 0\<rparr>) x = Some (s', feed cb (log_entries (length []) rs) x)"
    by (rule read_loop_log [where p = p and pre = "[]" and tail = tail and s = "s\<lparr>st_pos := 0\<rparr>"
          and F = F and rs = rs and ext = ext and cb = cb and x = x]) (use assms in auto)
  then show thesis using that by (simp add: ReadAllRecordFromFile_def seek)
qed

lemma feed_collect: "feed (\<lambda>k v i acc. acc @ [(k, v)]) (log_entries off rs) acc = acc @ rs"
  by (induction rs arbitrary: off acc) auto

interpretation disk_log: record_log "file_rep ext p" "file_append ext" "file_scan ext" fits_u32
  for ext p
proof unfold_locales
  fix s rs r
  assume "file_rep ext p s rs"
  then have pre: "at_end (fst s) p (snd s)" "is_regular (fst s) p" "file_content (fst s) p = enc_log ext rs"
    by (simp_all add: file_rep_def)
  show "file_rep ext p (file_append ext r s) (rs @ [r])"
    by (rule WriteRecord_at_end [OF pre(1,2), where ext = ext and k = "fst r" and v = "snd r"])
      (use pre(3) in \<open>simp add: file_rep_def file_append_def\<close>)
next
  fix s rs
  assume a: "file_rep ext p s rs" "fits_u32 rs"
  show "file_scan ext s = Some rs"
    by (rule ReadAll_log [where p = p and s = "snd s" and F = "fst s" and rs = rs and ext = ext
          and tail = "[]" and cb = "\<lambda>k v i acc. acc @ [(k, v)]" and x = "[]"])
      (use a in \<open>auto simp: file_rep_def fits_u32_def file_scan_def feed_collect at_end_ready\<close>)
next
  fix rs qs
  show "fits_u32 (rs @ qs) \<Longrightarrow> fits_u32 rs" by (simp add: fits_u32_def)
qed

section \<open>Properties of the record format\<close>

text \<open>C23. Round trip: records written one after the other at the end of a file that holds a log are read
  back, after the old ones and in order, by the scan the recovery uses.\<close>

theorem written_records_scan_back:
  assumes "file_rep ext p fs rs" and "fits_u32 (rs @ qs)"
  shows "file_scan ext (fold (file_append ext) qs fs) = Some (rs @ qs)"
  by (rule disk_log.scan_append_all [OF assms])

theorem written_records_scan_back_witness:
  "file_scan (\<lambda>c bs. c) (fold (file_append (\<lambda>c bs. c)) [(''k'', ''v''), (''k'', [])]
     (\<lparr>nodes = [(''f'', Regular [])], denied = []\<rparr>, st_opened ''f'' True new_fstream)) = Some [(''k'', ''v''), (''k'', [])]"
proof -
  let ?fs = "(\<lparr>nodes = [(''f'', Regular [])], denied = []\<rparr>, st_opened ''f'' True new_fstream)"
  have "file_rep (\<lambda>c bs. c) ''f'' ?fs []"
    by (auto simp: file_rep_def at_end_def ready_def st_opened_def st_good_def is_regular_def file_content_def
        new_fstream_def)
  from written_records_scan_back [OF this, of "[(''k'', ''v''), (''k'', [])]"] show ?thesis
    by (simp add: fits_u32_def rec_size_def header_size_def)
qed

text \<open>C26. \<open>WriteRecord\<close> on a stream at the end of its file appends exactly the encoded record, reports the
  offsets at which key and value start, and touches no other file.\<close>

theorem write_record_appends:
  assumes "at_end F p s" and "is_regular F p"
  shows "\<exists>F' s'. WriteRecord ext F s k v = (\<lparr>inf_size = ucast (snd (fillHeader ext k v)),
        inf_keyOffset = word_of_nat (length (file_content F p) + header_size),
        inf_valueOffset = word_of_nat (length (file_content F p) + header_size + length k)\<rparr>, F', s')
     \<and> at_end F' p s' \<and> file_content F' p = file_content F p @ enc_record ext (k, v) \<and> same_but p F F'"
  by (rule WriteRecord_at_end [OF assms, of ext k v]) blast

theorem write_record_appends_witness:
  "\<exists>r F' s'. WriteRecord (\<lambda>c bs. c) \<lparr>nodes = [(''f'', Regular [])], denied = []\<rparr> (st_opened ''f'' True new_fstream) ''k'' ''v''
     = (r, F', s') \<and> inf_valueOffset r = 13"
proof -
  have "at_end \<lparr>nodes = [(''f'', Regular [])], denied = []\<rparr> ''f'' (st_opened ''f'' True new_fstream)"
    by (auto simp: at_end_def ready_def st_opened_def st_good_def new_fstream_def)
  moreover have "is_regular \<lparr>nodes = [(''f'', Regular [])], denied = []\<rparr> ''f''"
    by (simp add: is_regular_def)
  ultimately show ?thesis
    using write_record_appends [of _ "''f''" _ "\<lambda>c bs. c" "''k''" "''v''"]
    by (fastforce simp: file_content_def header_size_def)
qed

text \<open>C24. \<open>ReadRecord\<close> on arbitrary bytes of a file below 4 GB: a record is reported exactly when a whole
  header is there and the checksum matches the key and value found by its sizes.\<close>

theorem read_record_accepts:
  assumes "ready p s" and "length (file_content F p) < 2 ^ 32" and "bs = drop (st_pos s) (file_content F p)"
  shows "fst (ReadRecord ext F s) = (if length bs < header_size \<or>
       h_crc32 (header_of_bytes bs) \<noteq> getCRC32 ext (header_of_bytes bs) (parsed_key bs) (parsed_value bs) then None
     else Some (parsed_key bs, parsed_value bs, parsed_inf (st_pos s) bs))"
proof (cases "tail_stops ext bs")
  case True
  obtain s' where "ReadRecord ext F s = (None, s')"
    by (rule ReadRecord_tail_stops [OF assms(1) _ assms(2), of ext]) (use True assms(3) in simp_all)
  with True show ?thesis by (simp add: tail_stops_def)
next
  case False
  then have "header_size \<le> length bs" by (simp add: tail_stops_def)
  then show ?thesis
    by (rule ReadRecord_header [OF assms(1) refl assms(3) _ assms(2), of ext])
      (use False in \<open>simp add: tail_stops_def\<close>)
qed

theorem read_record_accepts_witness:
  "fst (ReadRecord (\<lambda>c bs. c) \<lparr>nodes = [(''f'', Regular ''torn'')], denied = []\<rparr> (st_opened ''f'' False new_fstream)) = None"
proof -
  let ?F = "\<lparr>nodes = [(''f'', Regular ''torn'')], denied = []\<rparr>" and ?s = "st_opened ''f'' False new_fstream"
  have "ready ''f'' ?s" by (auto simp: ready_def st_opened_def st_good_def new_fstream_def)
  moreover have "length (file_content ?F ''f'') < 2 ^ 32" by (simp add: file_content_def)
  ultimately show ?thesis
    using read_record_accepts [of "''f''" ?s ?F "drop (st_pos ?s) (file_content ?F ''f'')" "\<lambda>c bs. c"]
    by (simp add: file_content_def header_size_def st_opened_def)
qed

text \<open>C25. The scan of \<open>ReadAllRecordFromFile\<close> returns on every file below 4 GB, whatever its bytes.\<close>

theorem scan_returns:
  assumes "ready p s" and "length (file_content F p) < 2 ^ 32"
  shows "\<exists>s' x'. ReadAllRecordFromFile ext F cb s x = Some (s', x')"
proof -
  have "st_seekg 0 s = s\<lparr>st_pos := 0\<rparr>"
    using assms(1) by (simp add: stream_simps)
  moreover have "ready p (s\<lparr>st_pos := 0\<rparr>)" using assms(1) by simp
  ultimately show ?thesis
    using read_loop_terminates [OF _ assms(2), of "s\<lparr>st_pos := 0\<rparr>" ext cb x]
    by (auto simp: ReadAllRecordFromFile_def)
qed

theorem scan_returns_witness:
  "\<exists>s' x'. ReadAllRecordFromFile (\<lambda>c bs. c) \<lparr>nodes = [(''f'', Regular ''any bytes, say'')], denied = []\<rparr>
     (\<lambda>k v i n. n + 1) (st_opened ''f'' False new_fstream) (0::nat) = Some (s', x')"
  by (rule scan_returns [of "''f''"])
    (auto simp: ready_def st_opened_def st_good_def new_fstream_def file_content_def)

end
