(* ===== verification/KeyMaps.thy ===== *)
theory KeyMaps
  imports DiskRecord
begin

text \<open>
  The in-memory maps: src/Hint.hpp, src/ActiveMap.cpp (key to value, for the keys of the active
  file) and src/RecordMap.cpp (key to the place of the value on disk). Both wrap a
  \<open>libcuckoo::cuckoohash_map\<close>, which is third-party code: its operations are a parameter of the
  model, the record \<open>cuckoo_ops\<close>, over an abstract type of table objects, and \<open>cuckoo_laws\<close> states
  what its documentation promises of them. The third-party parameters of the whole engine, the two
  instances of the table and the checksum function, are collected in \<open>libs\<close>.
\<close>

section \<open>Hints\<close>

record Hint =
  hint_fd :: u32
  hint_offset :: u32
  hint_size :: u32

definition default_Hint :: Hint where
  "default_Hint = \<lparr>hint_fd = 0, hint_offset = 0, hint_size = 0\<rparr>"

section \<open>The third-party table\<close>

record ('m, 'v) cuckoo_ops =
  cm_new :: 'm
  cm_find :: "'m \<Rightarrow> key \<Rightarrow> 'v option"
  cm_insert_or_assign :: "key \<Rightarrow> 'v \<Rightarrow> 'm \<Rightarrow> 'm"
  cm_erase :: "key \<Rightarrow> 'm \<Rightarrow> 'm"
  cm_clear :: "'m \<Rightarrow> 'm"

definition cuckoo_laws :: "('m, 'v) cuckoo_ops \<Rightarrow> bool" where
  "cuckoo_laws ops \<longleftrightarrow>
     (\<forall>k. cm_find ops (cm_new ops) k = None)
   \<and> (\<forall>m k v k'. cm_find ops (cm_insert_or_assign ops k v m) k' = (if k' = k then Some v else cm_find ops m k'))
   \<and> (\<forall>m k k'. cm_find ops (cm_erase ops k m) k' = (if k' = k then None else cm_find ops m k'))
   \<and> (\<forall>m k. cm_find ops (cm_clear ops m) k = None)"

record ('am, 'rm) libs =
  lib_crc :: crc_fn
  lib_amap :: "('am, val) cuckoo_ops"
  lib_rmap :: "('rm, Hint) cuckoo_ops"

definition libs_ok :: "('am, 'rm) libs \<Rightarrow> bool" where
  "libs_ok L \<longleftrightarrow> cuckoo_laws (lib_amap L) \<and> cuckoo_laws (lib_rmap L)"

section \<open>ActiveMap and RecordMap\<close>

definition ActiveMap_Get :: "('m, val) cuckoo_ops \<Rightarrow> 'm \<Rightarrow> key \<Rightarrow> val option" where
  "ActiveMap_Get ops m k = (case cm_find ops m k of Some v \<Rightarrow> Some v | None \<Rightarrow> None)"

definition ActiveMap_Put :: "('m, val) cuckoo_ops \<Rightarrow> key \<Rightarrow> val \<Rightarrow> 'm \<Rightarrow> 'm" where
  "ActiveMap_Put ops k v m = cm_insert_or_assign ops k v m"

definition ActiveMap_Delete :: "('m, val) cuckoo_ops \<Rightarrow> key \<Rightarrow> 'm \<Rightarrow> 'm" where
  "ActiveMap_Delete ops k m = cm_erase ops k m"

definition ActiveMap_Clear :: "('m, val) cuckoo_ops \<Rightarrow> 'm \<Rightarrow> 'm" where
  "ActiveMap_Clear ops m = cm_clear ops m"

definition RecordMap_Get :: "('m, Hint) cuckoo_ops \<Rightarrow> 'm \<Rightarrow> key \<Rightarrow> Hint option" where
  "RecordMap_Get ops m k = (case cm_find ops m k of Some h \<Rightarrow> Some h | None \<Rightarrow> None)"

definition RecordMap_Put :: "('m, Hint) cuckoo_ops \<Rightarrow> key \<Rightarrow> Hint \<Rightarrow> 'm \<Rightarrow> 'm" where
  "RecordMap_Put ops k h m = cm_insert_or_assign ops k h m"

definition RecordMap_Delete :: "('m, Hint) cuckoo_ops \<Rightarrow> key \<Rightarrow> 'm \<Rightarrow> 'm" where
  "RecordMap_Delete ops k m = cm_erase ops k m"

definition RecordMap_Clear :: "('m, Hint) cuckoo_ops \<Rightarrow> 'm \<Rightarrow> 'm" where
  "RecordMap_Clear ops m = cm_clear ops m"

section \<open>The contract the engine relies on\<close>

locale key_map =
  fixes ok :: bool
    and empty_map :: 'm
    and get :: "'m \<Rightarrow> key \<Rightarrow> 'v option"
    and put :: "key \<Rightarrow> 'v \<Rightarrow> 'm \<Rightarrow> 'm"
    and del :: "key \<Rightarrow> 'm \<Rightarrow> 'm"
    and clr :: "'m \<Rightarrow> 'm"
  assumes get_empty: "ok \<Longrightarrow> get empty_map = Map.empty"
    and get_put: "ok \<Longrightarrow> get (put k v m) = (get m)(k \<mapsto> v)"
    and get_del: "ok \<Longrightarrow> get (del k m) = (get m)(k := None)"
    and get_clr: "ok \<Longrightarrow> get (clr m) = Map.empty"
begin

lemmas map_laws = get_empty get_put get_del get_clr

text \<open>A sequence of puts leaves the last value of every key.\<close>

lemma get_fold_put: "ok \<Longrightarrow> get (fold (\<lambda>(k, v). put k v) kvs m) = get m ++ map_of (rev kvs)"
proof (induction kvs arbitrary: m)
  case (Cons kv kvs)
  then show ?case by (cases kv) (simp add: get_put map_add_upd_left)
qed simp

end

interpretation active: key_map "cuckoo_laws ops" "cm_new ops" "ActiveMap_Get ops" "ActiveMap_Put ops"
  "ActiveMap_Delete ops" "ActiveMap_Clear ops" for ops
  by unfold_locales
    (auto simp: cuckoo_laws_def ActiveMap_Get_def ActiveMap_Put_def ActiveMap_Delete_def
      ActiveMap_Clear_def fun_eq_iff split: option.splits)

interpretation index: key_map "cuckoo_laws ops" "cm_new ops" "RecordMap_Get ops" "RecordMap_Put ops"
  "RecordMap_Delete ops" "RecordMap_Clear ops" for ops
  by unfold_locales
    (auto simp: cuckoo_laws_def RecordMap_Get_def RecordMap_Put_def RecordMap_Delete_def
      RecordMap_Clear_def fun_eq_iff split: option.splits)

section \<open>A concrete library for the examples\<close>

text \<open>
  Tables as functions and a small additive checksum: an instance of the parameters at which the
  examples of the development evaluate.
\<close>

definition fun_ops :: "(key \<rightharpoonup> 'v, 'v) cuckoo_ops" where
  "fun_ops = \<lparr>cm_new = (\<lambda>_. None), cm_find = (\<lambda>m k. m k), cm_insert_or_assign = (\<lambda>k v m. m(k \<mapsto> v)),
     cm_erase = (\<lambda>k m. m(k := None)), cm_clear = (\<lambda>m _. None)\<rparr>"

definition sum_crc :: crc_fn where
  "sum_crc c bs = foldl (\<lambda>acc b. 31 * acc + ucast b + 7) c bs"

definition example_libs :: "(key \<rightharpoonup> val, key \<rightharpoonup> Hint) libs" where
  "example_libs = \<lparr>lib_crc = sum_crc, lib_amap = fun_ops, lib_rmap = fun_ops\<rparr>"

lemma cuckoo_laws_fun_ops: "cuckoo_laws fun_ops"
  by (simp add: cuckoo_laws_def fun_ops_def)

lemma libs_ok_example [simp]: "libs_ok example_libs"
  by (simp add: libs_ok_def example_libs_def cuckoo_laws_fun_ops)

end
