(* ===== verification/DataFiles.thy ===== *)
theory DataFiles
  imports KeyMaps
begin

text \<open>
  The two kinds of data file: src/ActiveFile.cpp (restored, created, written and rotated) and
  src/StableFile.cpp (restored and read at an offset). A file handler is a pointer to a stream, so
  it is an option and its use when null is the fault \<open>NullDeref\<close>.
\<close>

record active_file = af_file :: "fstream option"
record stable_file = sf_file :: "fstream option"

section \<open>ActiveFile\<close>

definition ActiveFile_Create :: "fstream option \<Rightarrow> active_file" where
  "ActiveFile_Create file = \<lparr>af_file = file\<rparr>"

text \<open>\<open>ActiveFile::Create(path)\<close>: a null \<open>shared_ptr\<close> when the file cannot be opened.\<close>

definition ActiveFile_Create_path :: "fsys \<Rightarrow> string \<Rightarrow> active_file option \<times> fsys" where
  "ActiveFile_Create_path F path =
     (let (ok, F, file) = OpenFile F new_fstream path {ios_binary, ios_in, ios_out, ios_trunc}
      in if \<not> ok then (None, F) else (Some (ActiveFile_Create (Some file)), F))"

text \<open>
  \<open>ActiveFile::Restore\<close>: the records are read through one stream and the file is reopened for
  appending through another; the handler is null when one of the two cannot be opened.
\<close>

definition ActiveFile_Restore ::
  "crc_fn \<Rightarrow> fsys \<Rightarrow> string \<Rightarrow> 'x callback \<Rightarrow> 'x \<Rightarrow> (fstream option \<times> fsys \<times> 'x) outcome" where
  "ActiveFile_Restore ext F filename callback x =
     (if \<not> Exist F filename then Inr (None, F, x)
      else
        let (ok, F, rd) = OpenFile F new_fstream filename {ios_binary, ios_in}
        in if \<not> ok then Inr (None, F, x)
           else case ReadAllRecordFromFile ext F callback rd x of
               None \<Rightarrow> Inl NonTermination
             | Some (_, x) \<Rightarrow>
                 let (ok, F, result) = OpenFile F new_fstream filename {ios_binary, ios_in, ios_out, ios_app}
                 in if \<not> ok then Inr (None, F, x) else Inr (Some result, F, x))"

definition ActiveFile_Write ::
  "crc_fn \<Rightarrow> fsys \<Rightarrow> active_file \<Rightarrow> key \<Rightarrow> val \<Rightarrow> (offset \<times> fsys \<times> active_file) outcome" where
  "ActiveFile_Write ext F af k v =
     (case af_file af of None \<Rightarrow> Inl NullDeref
      | Some file \<Rightarrow>
          let (info, F, file) = WriteRecord ext F file k v
          in Inr (inf_valueOffset info, F, af\<lparr>af_file := Some file\<rparr>))"

text \<open>\<open>Rotate\<close>: the stream is closed and handed out, a fresh one takes its place.\<close>

definition ActiveFile_Rotate :: "active_file \<Rightarrow> (fstream \<times> active_file) outcome" where
  "ActiveFile_Rotate af =
     (case af_file af of None \<Rightarrow> Inl NullDeref
      | Some file \<Rightarrow> Inr (st_close file, af\<lparr>af_file := Some new_fstream\<rparr>))"

text \<open>The destructor closes the stream and deletes it: what is left is its state when it is deleted.\<close>

definition ActiveFile_destroy :: "active_file \<Rightarrow> fstream option" where
  "ActiveFile_destroy af = (case af_file af of None \<Rightarrow> None | Some file \<Rightarrow> Some (st_close file))"

section \<open>StableFile\<close>

definition StableFile_Create :: "fstream option \<Rightarrow> stable_file" where
  "StableFile_Create file = \<lparr>sf_file = file\<rparr>"

definition StableFile_Restore ::
  "crc_fn \<Rightarrow> fsys \<Rightarrow> string \<Rightarrow> 'x callback \<Rightarrow> 'x \<Rightarrow> (fstream option \<times> fsys \<times> 'x) outcome" where
  "StableFile_Restore ext F filename callback x =
     (if \<not> Exist F filename then Inr (None, F, x)
      else
        let (ok, F, file) = OpenFile F new_fstream filename {ios_binary, ios_in}
        in if \<not> ok \<or> \<not> is_open file \<or> \<not> st_good file then Inr (None, F, x)
           else case ReadAllRecordFromFile ext F callback file x of
               None \<Rightarrow> Inl NonTermination
             | Some (file, x) \<Rightarrow> Inr (Some file, F, x))"

definition StableFile_Read :: "fsys \<Rightarrow> stable_file \<Rightarrow> offset \<Rightarrow> u32 \<Rightarrow> (val \<times> stable_file) outcome" where
  "StableFile_Read F sf off sz =
     (case sf_file sf of None \<Rightarrow> Inl NullDeref
      | Some file \<Rightarrow>
          let file = st_clear file;
              file = st_seekg (unat off) file;
              (value, file) = ReadValueFromFile F file (unat sz)
          in Inr (value, sf\<lparr>sf_file := Some file\<rparr>))"

definition StableFile_destroy :: "stable_file \<Rightarrow> fstream option" where
  "StableFile_destroy sf = (case sf_file sf of None \<Rightarrow> None | Some file \<Rightarrow> Some (st_close file))"

text \<open>No destroyed file keeps its path open. An object that is replaced after a rotation has a stream that
  was never opened, and closing that only sets its fail bit.\<close>

lemma destroyed_closed:
  "ActiveFile_destroy af = Some s \<Longrightarrow> \<not> is_open s" "StableFile_destroy sf = Some s \<Longrightarrow> \<not> is_open s"
  by (auto simp: ActiveFile_destroy_def StableFile_destroy_def st_close_def is_open_def split: option.splits)

lemma rotated_destroyed:
  assumes "ActiveFile_Rotate af = Inr (old, af')"
  shows "\<not> is_open old" and "ActiveFile_destroy af' = Some (new_fstream\<lparr>st_fail := True\<rparr>)"
  using assms by (auto simp: ActiveFile_Rotate_def ActiveFile_destroy_def st_close_def is_open_def new_fstream_def split: option.splits)

section \<open>Behaviour on a file that holds a log\<close>

text \<open>A stable file's handler can serve reads of \<open>p\<close>, whatever state bits a scan left on it.\<close>

definition sf_on :: "string \<Rightarrow> stable_file \<Rightarrow> bool" where
  "sf_on p sf \<longleftrightarrow> (\<exists>file. sf_file sf = Some file \<and> st_file file = Some p)"

definition af_on :: "fsys \<Rightarrow> string \<Rightarrow> active_file \<Rightarrow> bool" where
  "af_on F p af \<longleftrightarrow> (\<exists>file. af_file af = Some file \<and> at_end F p file)"

lemma st_file_seekg [simp]: "st_file (st_seekg n s) = st_file s"
  by (simp add: st_seekg_def Let_def)

lemma st_file_clear [simp]: "st_file (st_clear s) = st_file s"
  by (simp add: st_clear_def)

lemma st_file_read [simp]: "st_file (snd (st_read F n s)) = st_file s"
  by (simp add: st_read_def Let_def)

lemma st_file_ReadFile_buf: "ReadFile_buf F s n = (b, bs, s') \<Longrightarrow> st_file s' = st_file s"
  using st_file_read [of F n s] by (cases "st_read F n s") (simp add: ReadFile_buf_def)

lemma st_file_ReadFile_at: "ReadFile_at F s off n = (bs, s') \<Longrightarrow> st_file s' = st_file s"
  unfolding ReadFile_at_def ReadFile_size_def
  by (auto split: prod.splits if_splits dest: st_file_ReadFile_buf)

lemma st_file_ReadRecord: "ReadRecord ext F s = (r, s') \<Longrightarrow> st_file s' = st_file s"
  unfolding ReadRecord_def Let_def
  by (auto split: prod.splits if_splits dest!: st_file_ReadFile_at st_file_ReadFile_buf)

lemma StableFile_Read_slice:
  assumes "sf_on p sf" and "unat off + unat sz \<le> length (file_content F p)"
  obtains sf' where "StableFile_Read F sf off sz = Inr (take (unat sz) (drop (unat off) (file_content F p)), sf')"
    and "sf_on p sf'"
proof -
  obtain fh where f: "sf_file sf = Some fh" "st_file fh = Some p"
    using assms(1) by (auto simp: sf_on_def)
  let ?s = "st_seekg (unat off) (st_clear fh)"
  have s: "ready p ?s" "st_pos ?s = unat off"
    using f by (auto simp: st_seekg_def st_clear_def Let_def is_open_def)
  show thesis
    using that ReadFile_buf_full [OF s(1), of "unat sz" F] assms(2) s f
    by (simp add: StableFile_Read_def ReadValueFromFile_def sf_on_def Let_def)
qed

text \<open>Opening a regular file that is not denied, in the three modes the code uses.\<close>

lemma OpenFile_in:
  assumes "is_regular F p" and "p \<notin> set (denied F)"
  shows "OpenFile F new_fstream p {ios_binary, ios_in} = (True, F, st_opened p False new_fstream)"
  using assms by (auto simp: OpenFile_def open_stream_def new_fstream_def is_open_def st_opened_def is_regular_def)

lemma OpenFile_app:
  assumes "is_regular F p" and "p \<notin> set (denied F)" and "ios_app \<in> mode"
  shows "OpenFile F new_fstream p mode = (True, F, st_opened p True new_fstream)"
  using assms by (auto simp: OpenFile_def open_stream_def new_fstream_def is_open_def st_opened_def is_regular_def)

lemma OpenFile_trunc:
  assumes "map_of (nodes F) p \<noteq> Some NonRegular" and "p \<notin> set (denied F)"
    and "ios_trunc \<in> mode" and "ios_app \<notin> mode"
  shows "OpenFile F new_fstream p mode = (True, put_file p [] F, st_opened p False new_fstream)"
  using assms by (auto simp: OpenFile_def open_stream_def new_fstream_def is_open_def st_opened_def)

lemma ready_opened [simp]: "ready p (st_opened p app new_fstream)" "st_pos (st_opened p app s) = 0"
  "st_app (st_opened p app s) = app" "st_file (st_opened p app s) = Some p"
  by (auto simp: st_opened_def)

lemma Exist_regular: "is_regular F p \<Longrightarrow> Exist F p"
  by (auto simp: Exist_def is_regular_map_of)

text \<open>Files whose content is a log and a tail at which the scan stops are restored to the log.\<close>

lemma read_loop_st_file:
  assumes "read_loop ext F cb s x = Some (s', x')" shows "st_file s' = st_file s"
proof -
  have "st_file (fst (s', x')) = st_file s"
  proof (rule read_loop.raw_induct [where P = "\<lambda>ext F cb s x r. st_file (fst r) = st_file s"
        and xa = "((((ext, F), cb), s), x)" and y = "(s', x')", unfolded prod.case])
    show "read_loop ext F cb s x = Some (s', x')" by (rule assms)
  next
    fix loop :: "crc_fn \<Rightarrow> fsys \<Rightarrow> 'a callback \<Rightarrow> fstream \<Rightarrow> 'a \<Rightarrow> (fstream \<times> 'a) option"
      and ext F cb s x r
    assume "\<And>ext F cb s x y. loop ext F cb s x = Some y \<Longrightarrow> st_file (fst y) = st_file s"
      and "(case ReadRecord ext F s of (None, file') \<Rightarrow> Some (file', x)
        | (Some (k, v, info), file') \<Rightarrow> loop ext F cb file' (cb k v info x)) = Some r"
    then show "st_file (fst r) = st_file s"
      by (auto split: prod.splits option.splits dest: st_file_ReadRecord)
  qed
  then show ?thesis by simp
qed

definition log_file :: "crc_fn \<Rightarrow> fsys \<Rightarrow> string \<Rightarrow> (key \<times> val) list \<Rightarrow> char list \<Rightarrow> bool" where
  "log_file ext F p rs tail \<longleftrightarrow> is_regular F p \<and> p \<notin> set (denied F)
     \<and> file_content F p = enc_log ext rs @ tail \<and> length (file_content F p) < 2 ^ 32 \<and> tail_stops ext tail"

lemma StableFile_Restore_log:
  assumes "log_file ext F p rs tail"
  obtains fh where "StableFile_Restore ext F p cb x = Inr (Some fh, F, feed cb (log_entries 0 rs) x)"
    and "sf_on p (StableFile_Create (Some fh))"
proof -
  let ?s = "st_opened p False new_fstream"
  have log: "is_regular F p" "p \<notin> set (denied F)" "file_content F p = enc_log ext rs @ tail"
    "length (file_content F p) < 2 ^ 32" "tail_stops ext tail"
    using assms unfolding log_file_def by blast+
  obtain s' where r: "ReadAllRecordFromFile ext F cb ?s x = Some (s', feed cb (log_entries 0 rs) x)"
    by (rule ReadAll_log [OF ready_opened(1) log(3-5), where cb = cb and x = x])
  have "st_file s' = Some p"
    using read_loop_st_file [OF r [unfolded ReadAllRecordFromFile_def]] by simp
  moreover have "StableFile_Restore ext F p cb x = Inr (Some s', F, feed cb (log_entries 0 rs) x)"
    using log OpenFile_in [of F p] r
    by (simp add: StableFile_Restore_def Exist_regular is_open_def st_good_def st_opened_def new_fstream_def)
  ultimately show thesis using that by (simp add: sf_on_def StableFile_Create_def)
qed

lemma ActiveFile_Restore_log:
  assumes "log_file ext F p rs tail"
  obtains fh where "ActiveFile_Restore ext F p cb x = Inr (Some fh, F, feed cb (log_entries 0 rs) x)"
    and "at_end F p fh"
proof -
  let ?s = "st_opened p False new_fstream"
  have log: "is_regular F p" "p \<notin> set (denied F)" "file_content F p = enc_log ext rs @ tail"
    "length (file_content F p) < 2 ^ 32" "tail_stops ext tail"
    using assms unfolding log_file_def by blast+
  obtain s' where r: "ReadAllRecordFromFile ext F cb ?s x = Some (s', feed cb (log_entries 0 rs) x)"
    by (rule ReadAll_log [OF ready_opened(1) log(3-5), where cb = cb and x = x])
  have "ActiveFile_Restore ext F p cb x = Inr (Some (st_opened p True new_fstream), F, feed cb (log_entries 0 rs) x)"
    using log OpenFile_in [of F p] OpenFile_app [of F p "{ios_binary, ios_in, ios_out, ios_app}"] r
    by (simp add: ActiveFile_Restore_def Exist_regular)
  then show thesis using that by (simp add: at_end_def)
qed

text \<open>One write to the active file.\<close>

lemma ActiveFile_Write_at_end:
  assumes "af_on F p af" and "is_regular F p"
  obtains F' af' where "ActiveFile_Write ext F af k v =
      Inr (word_of_nat (length (file_content F p) + header_size + length k), F', af')"
    and "af_on F' p af'" and "is_regular F' p"
    and "file_content F' p = file_content F p @ enc_record ext (k, v)" and "same_but p F F'"
proof -
  obtain fh where f: "af_file af = Some fh" "at_end F p fh"
    using assms(1) by (auto simp: af_on_def)
  show thesis
    by (rule WriteRecord_at_end [OF f(2) assms(2), where ext = ext and k = k and v = v])
      (use that f in \<open>simp add: ActiveFile_Write_def af_on_def\<close>)
qed

text \<open>A new active file is empty and ready to be written.\<close>

lemma ActiveFile_Create_path_new:
  assumes "map_of (nodes F) p \<noteq> Some NonRegular" and "p \<notin> set (denied F)"
  obtains af where "ActiveFile_Create_path F p = (Some af, put_file p [] F)"
    and "af_on (put_file p [] F) p af"
  using that OpenFile_trunc [OF assms, of "{ios_binary, ios_in, ios_out, ios_trunc}"]
  by (simp add: ActiveFile_Create_path_def ActiveFile_Create_def af_on_def at_end_def)

section \<open>Properties of the data files\<close>

text \<open>A value of a stable file's log is read back from the offset that the scan reported for it.\<close>

lemma stable_read_value:
  assumes "sf_on p sf" and "file_content F p = enc_log ext rs @ tail" and "log_size rs < 2 ^ 32"
    and "(k, v, i) \<in> set (log_entries 0 rs)"
  shows "\<exists>sf'. StableFile_Read F sf (inf_valueOffset i) (word_of_nat (length v)) = Inr (v, sf') \<and> sf_on p sf'"
proof -
  have v: "unat (inf_valueOffset i) + length v \<le> log_size rs"
    using log_entries_slice(2) [OF assms(4), where pre = "[]"] assms(3) by simp
  then have u: "unat (word_of_nat (length v) :: u32) = length v" using assms(3) by (intro unat_of_nat_u32) simp
  have "take (length v) (drop (unat (inf_valueOffset i)) ([] @ enc_log ext rs @ tail)) = v"
    using log_entries_slice(1) [OF assms(4)] assms(3) by simp
  moreover have "unat (inf_valueOffset i) + unat (word_of_nat (length v) :: u32) \<le> length (file_content F p)"
    unfolding u assms(2) using v by simp
  ultimately show ?thesis
    using StableFile_Read_slice [OF assms(1), of "inf_valueOffset i" "word_of_nat (length v)" F] u assms(2) by auto
qed

lemma stable_read_value_example:
  "\<exists>sf'. StableFile_Read \<lparr>nodes = [(''f'', Regular (enc_log (\<lambda>c bs. c) [(''k'', ''v'')]))], denied = []\<rparr>
     (StableFile_Create (Some (st_opened ''f'' False new_fstream))) 13 1 = Inr (''v'', sf')"
proof -
  let ?F = "\<lparr>nodes = [(''f'', Regular (enc_log (\<lambda>c bs. c) [(''k'', ''v'')]))], denied = []\<rparr>"
  have "sf_on ''f'' (StableFile_Create (Some (st_opened ''f'' False new_fstream)))"
    by (simp add: sf_on_def StableFile_Create_def)
  from stable_read_value [OF this, of ?F "\<lambda>c bs. c" "[(''k'', ''v'')]" "[]" "''k''" "''v''"
      "\<lparr>inf_size = 14, inf_keyOffset = 12, inf_valueOffset = 13\<rparr>"]
  show ?thesis by (auto simp: file_content_def rec_size_def header_size_def)
qed

text \<open>C27. \<open>Restore\<close> neither truncates nor skips a torn record at the end of the active file: a record
  appended behind it is on disk, but the next \<open>Restore\<close> reports only what the first one did.\<close>

theorem append_after_torn_tail:
  assumes "log_file ext F p rs tail" and "length (file_content F p) + rec_size (k, v) < 2 ^ 32"
    and "tail_stops ext (tail @ enc_record ext (k, v))"
  shows "\<exists>fh off F' af fh'. ActiveFile_Restore ext F p cb x = Inr (Some fh, F, feed cb (log_entries 0 rs) x)
     \<and> ActiveFile_Write ext F (ActiveFile_Create (Some fh)) k v = Inr (off, F', af)
     \<and> file_content F' p = enc_log ext rs @ tail @ enc_record ext (k, v)
     \<and> ActiveFile_Restore ext F' p cb x = Inr (Some fh', F', feed cb (log_entries 0 rs) x)"
proof -
  obtain fh where fh: "ActiveFile_Restore ext F p cb x = Inr (Some fh, F, feed cb (log_entries 0 rs) x)" "at_end F p fh"
    by (rule ActiveFile_Restore_log [OF assms(1), of cb x])
  have reg: "is_regular F p" and c: "file_content F p = enc_log ext rs @ tail" and nd: "p \<notin> set (denied F)"
    using assms(1) by (auto simp: log_file_def)
  have "af_on F p (ActiveFile_Create (Some fh))" using fh(2) by (simp add: af_on_def ActiveFile_Create_def)
  from ActiveFile_Write_at_end [OF this reg, of ext k v] obtain off F' af
    where w: "ActiveFile_Write ext F (ActiveFile_Create (Some fh)) k v = Inr (off, F', af)" "is_regular F' p"
      "file_content F' p = file_content F p @ enc_record ext (k, v)" "same_but p F F'"
    by metis
  have "log_file ext F' p rs (tail @ enc_record ext (k, v))"
    using w(2-4) c nd assms(2,3) by (simp add: log_file_def same_but_def)
  from ActiveFile_Restore_log [OF this, of cb x] obtain fh'
    where "ActiveFile_Restore ext F' p cb x = Inr (Some fh', F', feed cb (log_entries 0 rs) x)" by blast
  with fh(1) w(1,3) c show ?thesis by auto
qed

theorem append_after_torn_tail_witness:
  "\<exists>fh off F' af fh'. ActiveFile_Restore (\<lambda>c bs. c + 1) \<lparr>nodes = [(''f'', Regular ''x'')], denied = []\<rparr> ''f'' (\<lambda>k v i n. n + 1) (0::nat)
       = Inr (Some fh, \<lparr>nodes = [(''f'', Regular ''x'')], denied = []\<rparr>, 0)
     \<and> ActiveFile_Write (\<lambda>c bs. c + 1) \<lparr>nodes = [(''f'', Regular ''x'')], denied = []\<rparr> (ActiveFile_Create (Some fh)) ''k'' ''v''
       = Inr (off, F', af)
     \<and> ActiveFile_Restore (\<lambda>c bs. c + 1) F' ''f'' (\<lambda>k v i n. n + 1) (0::nat) = Inr (Some fh', F', 0)"
proof -
  let ?F = "\<lparr>nodes = [(''f'', Regular ''x'')], denied = []\<rparr>"
  have "log_file (\<lambda>c bs. c + 1) ?F ''f'' [] ''x''"
    by (simp add: log_file_def is_regular_def file_content_def tail_stops_def header_size_def)
  moreover have "length (file_content ?F ''f'') + rec_size (''k'', ''v'') < 2 ^ 32"
    by (simp add: file_content_def rec_size_def header_size_def)
  moreover have "tail_stops (\<lambda>c bs. c + 1) (''x'' @ enc_record (\<lambda>c bs. c + 1) (''k'', ''v''))"
    by (simp add: tail_stops_def enc_record_def header_bytes_def header_of_bytes_def le32_def fillHeader_def
        getCRC32_def crc32_data_def crc32_string_def Let_def)
  ultimately show ?thesis
    using append_after_torn_tail [of "\<lambda>c bs. c + 1" ?F "''f''" "[]" "''x''" "''k''" "''v''" "\<lambda>k v i n. n + 1" "0::nat"]
    by fastforce
qed

end
