(* ===== verification/Setting.thy ===== *)
theory Setting
  imports Prelude
begin

text \<open>
  The database settings: include/bitcask/Setting.hpp and src/Setting.cpp. The compaction percentage
  is a \<open>double\<close> that the code only stores, so it is kept as its 64 bits.
\<close>

record Setting =
  set_dbPath :: string
  set_maxFileSize :: u64
  set_deadKeyCompactionPercentage :: u64
  set_deadKeyCompactionSize :: u64

text \<open>\<open>Setting{}\<close>: the defaulted constructor is not user-provided, so the fields are zeroed.\<close>

definition Setting_zero :: Setting where
  "Setting_zero = \<lparr>set_dbPath = [], set_maxFileSize = 0, set_deadKeyCompactionPercentage = 0,
     set_deadKeyCompactionSize = 0\<rparr>"

text \<open>The other constructor, and its default arguments (1 GB, 0.6 and 512 MB).\<close>

definition Setting_new :: "string \<Rightarrow> u64 \<Rightarrow> u64 \<Rightarrow> u64 \<Rightarrow> Setting" where
  "Setting_new path fileSize percentage sz = \<lparr>set_dbPath = path, set_maxFileSize = fileSize,
     set_deadKeyCompactionPercentage = percentage, set_deadKeyCompactionSize = sz\<rparr>"

definition Setting_of_path :: "string \<Rightarrow> Setting" where
  "Setting_of_path path = Setting_new path (1024 * 1024 * 1024) 0x3FE3333333333333 (512 * 1024 * 1024)"

definition ensureEndingSlash :: "string \<Rightarrow> string" where
  "ensureEndingSlash path = (if path = [] \<or> last path = CHR ''/'' then path else path @ ''/'')"

definition GetDbPath :: "Setting \<Rightarrow> string" where
  "GetDbPath s = set_dbPath s"

definition GetMaxFileSize :: "Setting \<Rightarrow> u64" where
  "GetMaxFileSize s = set_maxFileSize s"

definition GetDeadKeyCompactionPercentage :: "Setting \<Rightarrow> u64" where
  "GetDeadKeyCompactionPercentage s = set_deadKeyCompactionPercentage s"

definition GetDeadKeyCompactionSize :: "Setting \<Rightarrow> u64" where
  "GetDeadKeyCompactionSize s = set_deadKeyCompactionSize s"

definition SetDbPath :: "string \<Rightarrow> Setting \<Rightarrow> Setting" where
  "SetDbPath path s = s\<lparr>set_dbPath := ensureEndingSlash path\<rparr>"

definition SetMaxFileSize :: "u64 \<Rightarrow> Setting \<Rightarrow> Setting" where
  "SetMaxFileSize sz s = s\<lparr>set_maxFileSize := sz\<rparr>"

definition SetDeadKeyCompactionPercentage :: "u64 \<Rightarrow> Setting \<Rightarrow> Setting" where
  "SetDeadKeyCompactionPercentage percentage s = s\<lparr>set_deadKeyCompactionPercentage := percentage\<rparr>"

definition SetDeadKeyCompactionSize :: "u64 \<Rightarrow> Setting \<Rightarrow> Setting" where
  "SetDeadKeyCompactionSize sz s = s\<lparr>set_deadKeyCompactionSize := sz\<rparr>"

lemma ensureEndingSlash_last: "path \<noteq> [] \<Longrightarrow> last (ensureEndingSlash path) = CHR ''/''"
  by (simp add: ensureEndingSlash_def)

lemma ensureEndingSlash_idem [simp]: "ensureEndingSlash (ensureEndingSlash path) = ensureEndingSlash path"
  by (simp add: ensureEndingSlash_def)

text \<open>The setters make the path a directory prefix and leave the other fields alone; the constructor
  takes the path as it is given.\<close>

lemma setters_and_getters:
  "GetDbPath (SetDbPath path s) = ensureEndingSlash path
   \<and> GetMaxFileSize (SetDbPath path s) = GetMaxFileSize s
   \<and> GetMaxFileSize (SetMaxFileSize n s) = n \<and> GetDbPath (SetMaxFileSize n s) = GetDbPath s
   \<and> GetDeadKeyCompactionPercentage (SetDeadKeyCompactionPercentage p s) = p
   \<and> GetDeadKeyCompactionSize (SetDeadKeyCompactionSize n s) = n
   \<and> GetDbPath (Setting_of_path path) = path"
  by (simp add: GetDbPath_def GetMaxFileSize_def GetDeadKeyCompactionPercentage_def GetDeadKeyCompactionSize_def
      SetDbPath_def SetMaxFileSize_def SetDeadKeyCompactionPercentage_def SetDeadKeyCompactionSize_def
      Setting_of_path_def Setting_new_def)

end
