(* ===== verification/Engine.thy ===== *)
theory Engine
  imports DataFiles Setting
begin

text \<open>
  The storage engine: src/BitcaskImpl.hpp, src/BitcaskImpl.cpp and the public wrapper
  src/Bitcask.cpp. The state record is the object with the file system it works on; every member
  function takes it and returns it updated. Promises are numbered: a queued write carries its
  number, and \<open>fulfilled\<close> lists the numbers whose \<open>set_value\<close> has been called. Third-party code is
  the parameter \<open>L\<close>.
\<close>

definition TOMBSTONE :: val where  \<comment> \<open>\<open>BITCASK_TOMBSTONE_VALUE\<close>\<close>
  "TOMBSTONE = ''__BITCASK_TOMBSTONE__''"

record Write =
  w_key :: key
  w_value :: val
  w_promise :: nat

record ('am, 'rm) BitcaskImpl =
  disk :: fsys
  running :: bool
  setting :: Setting
  activeMap :: 'am
  recordMap :: 'rm
  pending :: "Write list"  \<comment> \<open>\<open>_writes\<close>\<close>
  stableFiles :: "(u32 \<times> stable_file) list"
  activeFile :: "active_file option"
  next_promise :: nat
  fulfilled :: "nat list"

section \<open>The database directory\<close>

text \<open>
  \<open>fs::directory_iterator(d, ec)\<close>: names of the entries and whether they are regular files; an
  empty path gives the end iterator. \<open>entry_path\<close> is the entry's full path.
\<close>

definition dir_prefix :: "string \<Rightarrow> string" where
  "dir_prefix d = (if d = [] \<or> last d = CHR ''/'' then d else d @ ''/'')"

definition entry_path :: "string \<Rightarrow> string \<Rightarrow> string" where
  "entry_path d name = dir_prefix d @ name"

definition dir_entries :: "fsys \<Rightarrow> string \<Rightarrow> (string \<times> bool) list" where
  "dir_entries F d =
     (if d = [] then []
      else concat (map (\<lambda>(p, nd).
        let pre = dir_prefix d; name = drop (length pre) p
        in if take (length pre) p = pre \<and> name \<noteq> [] \<and> CHR ''/'' \<notin> set name
           then [(name, nd \<noteq> NonRegular)] else []) (nodes F)))"

definition regular_names :: "fsys \<Rightarrow> string \<Rightarrow> string list" where
  "regular_names F d = map fst (filter snd (dir_entries F d))"

text \<open>\<open>fs::path(p).filename()\<close>\<close>

definition path_filename :: "string \<Rightarrow> string" where
  "path_filename p = rev (takeWhile (\<lambda>c. c \<noteq> CHR ''/'') (rev p))"

text \<open>One turn of the loop of \<open>getActivePathInDir\<close>: \<open>int fd = std::stoul(name)\<close> narrows to 32 bits.\<close>

definition max_fd_step :: "string \<Rightarrow> int \<Rightarrow> int" where
  "max_fd_step name maxFD =
     (case stoul name of
        Inl _ \<Rightarrow> maxFD
      | Inr n \<Rightarrow> let fd = sint (ucast n :: u32) in if fd > maxFD then fd else maxFD)"

definition max_fd :: "fsys \<Rightarrow> string \<Rightarrow> int" where
  "max_fd F dbDir = fold max_fd_step (regular_names F dbDir) 0"

definition db_file :: "string \<Rightarrow> nat \<Rightarrow> string" where
  "db_file dbDir n = dbDir @ to_string n @ ''.db''"

definition getActivePathInDir :: "fsys \<Rightarrow> string \<Rightarrow> string" where
  "getActivePathInDir F dbDir = db_file dbDir (nat (max_fd F dbDir))"

section \<open>Recovery\<close>

definition getActiveFD :: "('am, 'rm) BitcaskImpl \<Rightarrow> u32" where
  "getActiveFD db = word_of_nat (length (stableFiles db))"

definition value_hint :: "u32 \<Rightarrow> RecordInf \<Rightarrow> val \<Rightarrow> Hint" where
  "value_hint fd info v = \<lparr>hint_fd = fd, hint_offset = inf_valueOffset info, hint_size = word_of_nat (length v)\<rparr>"

text \<open>
  The loop of \<open>RestoreStableMap\<close> over the sorted entries. Here \<open>std::stoul\<close> is not guarded: its
  exception leaves the constructor.
\<close>

fun restore_stable_loop ::
  "('am, 'rm) libs \<Rightarrow> string \<Rightarrow> string list \<Rightarrow> ('am, 'rm) BitcaskImpl \<Rightarrow> ('am, 'rm) BitcaskImpl outcome" where
  "restore_stable_loop L dbPath [] db = Inr db"
| "restore_stable_loop L dbPath (name # names) db =
     (case stoul name of
        Inl e \<Rightarrow> Inl e
      | Inr n \<Rightarrow>
          let fileID = ucast n :: u32;
              callback = (\<lambda>k v info. RecordMap_Put (lib_rmap L) k (value_hint fileID info v))
          in case StableFile_Restore (lib_crc L) (disk db) (entry_path dbPath name) callback (recordMap db) of
               Inl e \<Rightarrow> Inl e
             | Inr (file, F, rm) \<Rightarrow>
                 restore_stable_loop L dbPath names
                   (db\<lparr>disk := F, recordMap := rm,
                       stableFiles := AList.update fileID (StableFile_Create file) (stableFiles db)\<rparr>))"

definition RestoreStableMap :: "('am, 'rm) libs \<Rightarrow> ('am, 'rm) BitcaskImpl \<Rightarrow> ('am, 'rm) BitcaskImpl outcome" where
  "RestoreStableMap L db =
     (let dbPath = GetDbPath (setting db);
          activeFileName = path_filename (getActivePathInDir (disk db) dbPath);
          entries = filter (\<lambda>name. name \<noteq> activeFileName) (regular_names (disk db) dbPath)
      in restore_stable_loop L dbPath (sort entries) db)"

text \<open>The files \<open>RestoreActiveMap\<close> counts to predict the active file's number.\<close>

definition stable_count :: "fsys \<Rightarrow> string \<Rightarrow> string \<Rightarrow> nat" where
  "stable_count F dbPath activeFileName =
     length (filter (\<lambda>name. name \<noteq> activeFileName \<and> (case stoul name of Inl _ \<Rightarrow> False | Inr _ \<Rightarrow> True))
       (regular_names F dbPath))"

definition RestoreActiveMap ::
  "('am, 'rm) libs \<Rightarrow> ('am, 'rm) BitcaskImpl \<Rightarrow> (bool \<times> ('am, 'rm) BitcaskImpl) outcome" where
  "RestoreActiveMap L db =
     (let dbPath = GetDbPath (setting db);
          activePath = getActivePathInDir (disk db) dbPath;
          stableCount = word_of_nat (stable_count (disk db) dbPath (path_filename activePath)) :: u32
      in if Exist (disk db) activePath
         then
           let callback = (\<lambda>k v info (rm, am).
                 (RecordMap_Put (lib_rmap L) k (value_hint stableCount info v) rm,
                  ActiveMap_Put (lib_amap L) k v am))
           in case ActiveFile_Restore (lib_crc L) (disk db) activePath callback (recordMap db, activeMap db) of
                Inl e \<Rightarrow> Inl e
              | Inr (file, F, rm, am) \<Rightarrow>
                  Inr (True, db\<lparr>disk := F, recordMap := rm, activeMap := am,
                                activeFile := Some (ActiveFile_Create file)\<rparr>)
         else
           let (af, F) = ActiveFile_Create_path (disk db) activePath
           in Inr (af \<noteq> None, db\<lparr>disk := F, activeFile := af\<rparr>))"

text \<open>The constructor: both restores, their results ignored, and the start of the worker.\<close>

definition BitcaskImpl_init :: "('am, 'rm) libs \<Rightarrow> Setting \<Rightarrow> fsys \<Rightarrow> ('am, 'rm) BitcaskImpl" where
  "BitcaskImpl_init L s F =
     \<lparr>disk = F, running = True, setting = s, activeMap = cm_new (lib_amap L), recordMap = cm_new (lib_rmap L),
      pending = [], stableFiles = [], activeFile = None, next_promise = 0, fulfilled = []\<rparr>"

definition BitcaskImpl_new :: "('am, 'rm) libs \<Rightarrow> Setting \<Rightarrow> fsys \<Rightarrow> ('am, 'rm) BitcaskImpl outcome" where
  "BitcaskImpl_new L s F =
     (case RestoreStableMap L (BitcaskImpl_init L s F) of
        Inl e \<Rightarrow> Inl e
      | Inr db \<Rightarrow> (case RestoreActiveMap L db of Inl e \<Rightarrow> Inl e | Inr (_, db) \<Rightarrow> Inr db))"

section \<open>Put, Get and Delete\<close>

text \<open>\<open>Put\<close> queues the write and returns the number of the future.\<close>

definition Put :: "key \<Rightarrow> val \<Rightarrow> ('am, 'rm) BitcaskImpl \<Rightarrow> nat \<times> ('am, 'rm) BitcaskImpl" where
  "Put k v db =
     (next_promise db,
      db\<lparr>pending := pending db @ [\<lparr>w_key = k, w_value = v, w_promise = next_promise db\<rparr>],
         next_promise := Suc (next_promise db)\<rparr>)"

definition Get :: "('am, 'rm) libs \<Rightarrow> key \<Rightarrow> ('am, 'rm) BitcaskImpl \<Rightarrow> (val option \<times> ('am, 'rm) BitcaskImpl) outcome" where
  "Get L k db =
     (case RecordMap_Get (lib_rmap L) (recordMap db) k of
        None \<Rightarrow> Inr (None, db)
      | Some record \<Rightarrow>
          if hint_fd record = getActiveFD db
          then let v = ActiveMap_Get (lib_amap L) (activeMap db) k
               in if v = Some TOMBSTONE then Inr (None, db) else Inr (v, db)
          else case map_of (stableFiles db) (hint_fd record) of
              None \<Rightarrow> Inr (None, db)
            | Some sf \<Rightarrow>
                (case StableFile_Read (disk db) sf (hint_offset record) (hint_size record) of
                   Inl e \<Rightarrow> Inl e
                 | Inr (v, sf) \<Rightarrow>
                     let db = db\<lparr>stableFiles := AList.update (hint_fd record) sf (stableFiles db)\<rparr>
                     in if v = TOMBSTONE then Inr (None, db) else Inr (Some v, db)))"

text \<open>
  \<open>Delete\<close> up to the point where it blocks on the future: \<open>None\<close> when the key is not in the index
  (the call returns \<open>false\<close>), otherwise the number of the queued tombstone's future.
\<close>

definition Delete_enqueue ::
  "('am, 'rm) libs \<Rightarrow> key \<Rightarrow> ('am, 'rm) BitcaskImpl \<Rightarrow> nat option \<times> ('am, 'rm) BitcaskImpl" where
  "Delete_enqueue L k db =
     (case RecordMap_Get (lib_rmap L) (recordMap db) k of
        None \<Rightarrow> (None, db)
      | Some _ \<Rightarrow> let (p, db) = Put k TOMBSTONE db in (Some p, db))"

section \<open>The commit worker\<close>

text \<open>
  The first loop of \<open>CommitWrite\<close>: every write is appended to the active file; when its value starts
  at or beyond the limit the file is rotated. \<open>cs_new\<close> is \<open>newStableFiles\<close>, which the members see
  only after the loop, so \<open>getActiveFD()\<close> does not change while the loop runs.
\<close>

record commit_state =
  cs_disk :: fsys
  cs_active :: "active_file option"
  cs_records :: "Hint list"
  cs_new :: "(u32 \<times> stable_file) list"
  cs_idx :: nat
  cs_last :: nat

definition rotate_files :: "string \<Rightarrow> u32 \<Rightarrow> active_file \<Rightarrow> commit_state \<Rightarrow> commit_state outcome" where
  "rotate_files dbPath activeFD af cs =
     (case ActiveFile_Rotate af of
        Inl e \<Rightarrow> Inl e
      | Inr (_, af) \<Rightarrow>
          let fd = ucast activeFD + word_of_nat (length (cs_new cs)) :: u64;
              (_, F, handler) = OpenFile (cs_disk cs) new_fstream (db_file dbPath (unat fd))
                                  {ios_binary, ios_in, ios_app};
              newStable = AList.update (ucast fd) (StableFile_Create (Some handler)) (cs_new cs);
              (active, F) = ActiveFile_Create_path F (db_file dbPath (unat (fd + 1)))
          in Inr (cs\<lparr>cs_disk := F, cs_active := active, cs_new := newStable, cs_last := cs_idx cs\<rparr>))"

definition commit_one ::
  "crc_fn \<Rightarrow> string \<Rightarrow> u64 \<Rightarrow> u32 \<Rightarrow> Write \<Rightarrow> commit_state \<Rightarrow> commit_state outcome" where
  "commit_one ext dbPath maxFileSize activeFD w cs =
     (case cs_active cs of None \<Rightarrow> Inl NullDeref
      | Some af \<Rightarrow>
          (case ActiveFile_Write ext (cs_disk cs) af (w_key w) (w_value w) of
             Inl e \<Rightarrow> Inl e
           | Inr (valueOffset, F, af) \<Rightarrow>
               let record = \<lparr>hint_fd = activeFD, hint_offset = valueOffset,
                             hint_size = word_of_nat (length (w_value w))\<rparr>;
                   cs = cs\<lparr>cs_disk := F, cs_active := Some af, cs_records := cs_records cs @ [record],
                           cs_idx := cs_idx cs + 1\<rparr>
               in if (ucast valueOffset :: u64) < maxFileSize then Inr cs
                  else rotate_files dbPath activeFD af cs))"

fun commit_loop ::
  "crc_fn \<Rightarrow> string \<Rightarrow> u64 \<Rightarrow> u32 \<Rightarrow> Write list \<Rightarrow> commit_state \<Rightarrow> commit_state outcome" where
  "commit_loop ext dbPath maxFileSize activeFD [] cs = Inr cs"
| "commit_loop ext dbPath maxFileSize activeFD (w # ws) cs =
     (case commit_one ext dbPath maxFileSize activeFD w cs of
        Inl e \<Rightarrow> Inl e
      | Inr cs \<Rightarrow> commit_loop ext dbPath maxFileSize activeFD ws cs)"

text \<open>\<open>std::map::insert\<close> of a range: a key that is there keeps its value.\<close>

definition insert_new :: "u32 \<times> stable_file \<Rightarrow> (u32 \<times> stable_file) list \<Rightarrow> (u32 \<times> stable_file) list" where
  "insert_new e m = (if map_of m (fst e) = None then m @ [e] else m)"

definition insert_stable :: "(u32 \<times> stable_file) list \<Rightarrow> ('am, 'rm) BitcaskImpl \<Rightarrow> ('am, 'rm) BitcaskImpl" where
  "insert_stable new db = db\<lparr>stableFiles := fold insert_new new (stableFiles db)\<rparr>"

definition clear_active :: "('am, 'rm) libs \<Rightarrow> (u32 \<times> stable_file) list \<Rightarrow> ('am, 'rm) BitcaskImpl \<Rightarrow> ('am, 'rm) BitcaskImpl" where
  "clear_active L new db =
     (if new \<noteq> [] then db\<lparr>activeMap := ActiveMap_Clear (lib_amap L) (activeMap db)\<rparr> else db)"

text \<open>One turn of the last loop of \<open>CommitWrite\<close>: index, write and its hint.\<close>

definition publish_one ::
  "('am, 'rm) libs \<Rightarrow> nat \<Rightarrow> nat \<times> Write \<times> Hint \<Rightarrow> ('am, 'rm) BitcaskImpl \<Rightarrow> ('am, 'rm) BitcaskImpl" where
  "publish_one L lastActiveWrite e db =
     (let (i, w, record) = e;
          db = (if i \<ge> lastActiveWrite
                then db\<lparr>activeMap := ActiveMap_Put (lib_amap L) (w_key w) (w_value w) (activeMap db)\<rparr> else db);
          db = db\<lparr>recordMap := RecordMap_Put (lib_rmap L) (w_key w) record (recordMap db)\<rparr>
      in db\<lparr>fulfilled := fulfilled db @ [w_promise w]\<rparr>)"

definition publish :: "('am, 'rm) libs \<Rightarrow> nat \<Rightarrow> Write list \<Rightarrow> Hint list \<Rightarrow> ('am, 'rm) BitcaskImpl \<Rightarrow> ('am, 'rm) BitcaskImpl" where
  "publish L lastActiveWrite ws records db =
     fold (publish_one L lastActiveWrite) (zip [0..<length ws] (zip ws records)) db"

definition commit_start :: "('am, 'rm) BitcaskImpl \<Rightarrow> commit_state" where
  "commit_start db = \<lparr>cs_disk = disk db, cs_active = activeFile db, cs_records = [], cs_new = [],
     cs_idx = 0, cs_last = 0\<rparr>"

definition commit_files :: "('am, 'rm) libs \<Rightarrow> Write list \<Rightarrow> ('am, 'rm) BitcaskImpl \<Rightarrow> commit_state outcome" where
  "commit_files L ws db =
     commit_loop (lib_crc L) (GetDbPath (setting db)) (GetMaxFileSize (setting db)) (getActiveFD db) ws (commit_start db)"

definition CommitWrite :: "('am, 'rm) libs \<Rightarrow> Write list \<Rightarrow> ('am, 'rm) BitcaskImpl \<Rightarrow> ('am, 'rm) BitcaskImpl outcome" where
  "CommitWrite L ws db =
     (case commit_files L ws db of
        Inl e \<Rightarrow> Inl e
      | Inr cs \<Rightarrow>
          let db = db\<lparr>disk := cs_disk cs, activeFile := cs_active cs\<rparr>;
              db = insert_stable (cs_new cs) db;
              db = clear_active L (cs_new cs) db
          in Inr (publish L (cs_last cs) ws (cs_records cs) db))"

text \<open>One turn of \<open>CommitWorker\<close>: swap the queue out, commit the batch.\<close>

definition worker_turn :: "('am, 'rm) libs \<Rightarrow> ('am, 'rm) BitcaskImpl \<Rightarrow> ('am, 'rm) BitcaskImpl outcome" where
  "worker_turn L db = CommitWrite L (pending db) (db\<lparr>pending := []\<rparr>)"

section \<open>The public interface\<close>

text \<open>
  src/Bitcask.cpp. A blocking call queues its write and returns after the turn of the worker that
  commits it; \<open>future.get()\<close> returns when the number is among the fulfilled.
\<close>

definition Bitcask_Create :: "('am, 'rm) libs \<Rightarrow> Setting \<Rightarrow> fsys \<Rightarrow> ('am, 'rm) BitcaskImpl outcome" where
  "Bitcask_Create L s F = BitcaskImpl_new L s F"

definition Bitcask_PutAsync :: "key \<Rightarrow> val \<Rightarrow> ('am, 'rm) BitcaskImpl \<Rightarrow> nat \<times> ('am, 'rm) BitcaskImpl" where
  "Bitcask_PutAsync k v db = Put k v db"

definition Bitcask_Put :: "('am, 'rm) libs \<Rightarrow> key \<Rightarrow> val \<Rightarrow> ('am, 'rm) BitcaskImpl \<Rightarrow> ('am, 'rm) BitcaskImpl outcome" where
  "Bitcask_Put L k v db = worker_turn L (snd (Put k v db))"

definition Bitcask_Get :: "('am, 'rm) libs \<Rightarrow> key \<Rightarrow> ('am, 'rm) BitcaskImpl \<Rightarrow> (val option \<times> ('am, 'rm) BitcaskImpl) outcome" where
  "Bitcask_Get L k db = Get L k db"

definition Bitcask_Delete :: "('am, 'rm) libs \<Rightarrow> key \<Rightarrow> ('am, 'rm) BitcaskImpl \<Rightarrow> (bool \<times> ('am, 'rm) BitcaskImpl) outcome" where
  "Bitcask_Delete L k db =
     (case Delete_enqueue L k db of
        (None, db) \<Rightarrow> Inr (False, db)
      | (Some p, db) \<Rightarrow> (case worker_turn L db of Inl e \<Rightarrow> Inl e | Inr db \<Rightarrow> Inr (True, db)))"

end
