(* ===== verification/EngineInv.thy ===== *)
theory EngineInv
  imports Engine
begin

text \<open>
  The abstract view of the engine. The data files hold a list of logs, one per stable file, and the
  log of the active file; \<open>ord\<close> is the order in which the stable files entered the index (their
  numbers in creation order, or the order the recovery scanned them in). The view of a client is
  the map that the concatenated logs leave. \<open>store_ok\<close> ties a state of the engine to such a view,
  and the lemmas show that a commit extends it, that \<open>Get\<close> reads it and that recovery rebuilds it.
\<close>

section \<open>The abstract store\<close>

type_synonym kvs = "(key \<times> val) list"

definition visible :: "val option \<Rightarrow> val option" where
  "visible r = (case r of None \<Rightarrow> None | Some v \<Rightarrow> if v = TOMBSTONE then None else Some v)"

definition abs_log :: "kvs list \<Rightarrow> kvs \<Rightarrow> nat list \<Rightarrow> kvs" where
  "abs_log ls la ord = concat (map ((!) ls) ord) @ la"

definition last_write :: "kvs \<Rightarrow> key \<Rightarrow> val option" where
  "last_write kvs = map_of (rev kvs)"

definition abs_get :: "kvs \<Rightarrow> key \<Rightarrow> val option" where
  "abs_get kvs k = visible (last_write kvs k)"

text \<open>The writes of a batch as key-value pairs, and how they fill files under the size limit.\<close>

definition batch :: "Write list \<Rightarrow> kvs" where
  "batch ws = map (\<lambda>w. (w_key w, w_value w)) ws"

definition value_offset :: "kvs \<Rightarrow> key \<times> val \<Rightarrow> nat" where
  "value_offset la r = log_size la + header_size + length (fst r)"

definition fill_one :: "nat \<Rightarrow> key \<times> val \<Rightarrow> kvs list \<times> kvs \<Rightarrow> kvs list \<times> kvs" where
  "fill_one limit r files = (case files of (ls, la) \<Rightarrow>
     if value_offset la r < limit then (ls, la @ [r]) else (ls @ [la @ [r]], []))"

fun fill :: "nat \<Rightarrow> kvs \<Rightarrow> kvs list \<times> kvs \<Rightarrow> kvs list \<times> kvs" where
  "fill limit [] files = files"
| "fill limit (r # rs) files = fill limit rs (fill_one limit r files)"

text \<open>The offsets at which the values of a batch land.\<close>

fun fill_offsets :: "nat \<Rightarrow> kvs \<Rightarrow> kvs list \<times> kvs \<Rightarrow> nat list" where
  "fill_offsets limit [] files = []"
| "fill_offsets limit (r # rs) files = value_offset (snd files) r # fill_offsets limit rs (fill_one limit r files)"

text \<open>No write of the batch but the last reaches the limit.\<close>

definition rotates_only_last :: "nat \<Rightarrow> kvs \<Rightarrow> kvs \<Rightarrow> bool" where
  "rotates_only_last limit rs la \<longleftrightarrow>
     (\<forall>i < length rs - 1. value_offset (la @ take i rs) (rs ! i) < limit)"

lemma fill_append: "fill limit (rs @ qs) files = fill limit qs (fill limit rs files)"
  by (induction rs arbitrary: files) auto

lemma fill_concat: "fill limit rs (ls, la) = (ls', la') \<Longrightarrow> concat ls' @ la' = concat ls @ la @ rs"
  by (induction rs arbitrary: ls la) (auto simp: fill_one_def split: if_splits)

lemma fill_length: "fill limit rs (ls, la) = (ls', la') \<Longrightarrow> length ls \<le> length ls' \<and> length ls' \<le> length ls + length rs"
  by (induction rs arbitrary: ls la) (fastforce simp: fill_one_def split: if_splits)+

lemma fill_prefix: "fill limit rs (ls, la) = (ls', la') \<Longrightarrow> take (length ls) ls' = ls"
proof (induction rs arbitrary: ls la)
  case (Cons r rs)
  then show ?case
    by (auto simp: fill_one_def split: if_splits) (metis Cons.IH append_eq_conv_conj take_take
        min.absorb1 le_add1 length_append take_append)
qed simp

lemma length_fill_offsets [simp]: "length (fill_offsets limit rs files) = length rs"
  by (induction rs arbitrary: files) auto

lemma rotates_only_last_Nil [simp]: "rotates_only_last limit [] la" "rotates_only_last limit [r] la"
  by (simp_all add: rotates_only_last_def)

lemma rotates_only_last_Cons:
  "rs \<noteq> [] \<Longrightarrow> rotates_only_last limit (r # rs) la \<longleftrightarrow>
     value_offset la r < limit \<and> rotates_only_last limit rs (la @ [r])"
proof
  assume ne: "rs \<noteq> []" and a: "rotates_only_last limit (r # rs) la"
  have "value_offset la r < limit"
    using a [unfolded rotates_only_last_def, rule_format, of 0] ne by simp
  moreover have "value_offset (la @ [r] @ take i rs) (rs ! i) < limit" if "i < length rs - 1" for i
    using a [unfolded rotates_only_last_def, rule_format, of "Suc i"] that by simp
  ultimately show "value_offset la r < limit \<and> rotates_only_last limit rs (la @ [r])"
    by (simp add: rotates_only_last_def)
next
  assume ne: "rs \<noteq> []" and a: "value_offset la r < limit \<and> rotates_only_last limit rs (la @ [r])"
  have "value_offset (la @ take i (r # rs)) ((r # rs) ! i) < limit" if "i < length (r # rs) - 1" for i
    using a that by (cases i) (auto simp: rotates_only_last_def)
  then show "rotates_only_last limit (r # rs) la" by (simp add: rotates_only_last_def)
qed

text \<open>Then the batch is appended to the active log, which becomes a stable one if the last write rotates.\<close>

lemma fill_only_last:
  "rotates_only_last limit rs la \<Longrightarrow> fill limit rs (ls, la) = (ls, la @ rs)
     \<or> (rs \<noteq> [] \<and> fill limit rs (ls, la) = (ls @ [la @ rs], []))"
proof (induction rs arbitrary: la)
  case (Cons r rs)
  show ?case
  proof (cases "rs = []")
    case True
    then show ?thesis by (simp add: fill_one_def)
  next
    case False
    with Cons.prems have "value_offset la r < limit" "rotates_only_last limit rs (la @ [r])"
      by (simp_all add: rotates_only_last_Cons)
    with Cons.IH [of "la @ [r]"] show ?thesis by (auto simp: fill_one_def)
  qed
qed simp

section \<open>Files, handles and the index\<close>

lemma db_file_inject [simp]: "db_file d i = db_file d j \<longleftrightarrow> i = j"
  by (simp add: db_file_def)

text \<open>The system lets the engine open and create every file of the directory.\<close>

definition usable_dir :: "fsys \<Rightarrow> string \<Rightarrow> bool" where
  "usable_dir F d \<longleftrightarrow> (\<forall>p \<in> set (denied F). take (length d) p \<noteq> d)
     \<and> (\<forall>p. map_of (nodes F) p = Some NonRegular \<longrightarrow> take (length d) p \<noteq> d)"

lemma usable_dir_file:
  assumes "usable_dir F d"
  shows "db_file d i \<notin> set (denied F)" and "map_of (nodes F) (db_file d i) \<noteq> Some NonRegular"
  using assms by (auto simp: usable_dir_def db_file_def)

lemma usable_dir_same_but:
  "usable_dir F d \<Longrightarrow> same_but p F F' \<Longrightarrow> is_regular F' p \<Longrightarrow> usable_dir F' d"
  unfolding usable_dir_def same_but_def is_regular_map_of by (metis node.distinct(1) option.inject)

text \<open>\<open>p\<close> holds exactly the log \<open>rs\<close>.\<close>

definition holds_log :: "crc_fn \<Rightarrow> fsys \<Rightarrow> string \<Rightarrow> kvs \<Rightarrow> bool" where
  "holds_log ext F p rs \<longleftrightarrow> is_regular F p \<and> file_content F p = enc_log ext rs \<and> log_size rs < 2 ^ 32"

definition files_ok :: "crc_fn \<Rightarrow> fsys \<Rightarrow> string \<Rightarrow> kvs list \<Rightarrow> kvs \<Rightarrow> bool" where
  "files_ok ext F d ls la \<longleftrightarrow> usable_dir F d
     \<and> (\<forall>i < length ls. holds_log ext F (db_file d i) (ls ! i)) \<and> holds_log ext F (db_file d (length ls)) la"

text \<open>The handlers of the stable files \<open>js\<close>, in the order of the map.\<close>

definition stable_handles :: "string \<Rightarrow> nat list \<Rightarrow> (u32 \<times> stable_file) list \<Rightarrow> bool" where
  "stable_handles d js m \<longleftrightarrow> list_all2 (\<lambda>j e. fst e = word_of_nat j \<and> sf_on (db_file d j) (snd e)) js m"

lemma stable_handles_length: "stable_handles d js m \<Longrightarrow> length m = length js"
  by (simp add: stable_handles_def list_all2_lengthD)

lemma stable_handles_append:
  "stable_handles d is m \<Longrightarrow> stable_handles d js n \<Longrightarrow> stable_handles d (is @ js) (m @ n)"
  by (simp add: stable_handles_def list_all2_appendI)

lemma of_nat_u32_eq: "i < 2 ^ 32 \<Longrightarrow> j < 2 ^ 32 \<Longrightarrow> (word_of_nat i :: u32) = word_of_nat j \<longleftrightarrow> i = j"
  by (metis unat_of_nat_u32)

lemma stable_handles_dom:
  "stable_handles d js m \<Longrightarrow> fst ` set m = word_of_nat ` set js"
  unfolding stable_handles_def by (induction rule: list_all2_induct) auto

lemma stable_handles_lookup:
  assumes "stable_handles d js m" and "\<forall>j \<in> set js. j < 2 ^ 32" and "j \<in> set js"
  obtains sf where "map_of m (word_of_nat j) = Some sf" and "sf_on (db_file d j) sf"
proof -
  have "\<exists>sf. map_of m (word_of_nat j) = Some sf \<and> sf_on (db_file d j) sf"
    using assms unfolding stable_handles_def
    by (induction rule: list_all2_induct) (auto simp: of_nat_u32_eq)
  then show thesis using that by blast
qed

lemma stable_handles_update:
  assumes "stable_handles d js m" and "\<forall>j \<in> set js. j < 2 ^ 32" and "j \<in> set js" and "sf_on (db_file d j) sf"
  shows "stable_handles d js (AList.update (word_of_nat j) sf m)"
  using assms unfolding stable_handles_def
  by (induction rule: list_all2_induct) (auto simp: of_nat_u32_eq)

lemma update_snoc: "k \<notin> fst ` set m \<Longrightarrow> AList.update k v m = m @ [(k, v)]"
  by (induction m) auto

lemma insert_new_fold:
  assumes "distinct (map fst new)" and "fst ` set new \<inter> fst ` set m = {}"
  shows "fold insert_new new m = m @ new"
  using assms
proof (induction new arbitrary: m)
  case (Cons e new)
  then have "insert_new e m = m @ [e]" by (auto simp: insert_new_def map_of_eq_None_iff)
  moreover have "fold insert_new new (m @ [e]) = (m @ [e]) @ new"
    using Cons.prems by (intro Cons.IH) auto
  ultimately show ?case by simp
qed simp

text \<open>The hints that the index holds for a file's log, and the whole index.\<close>

definition file_hints :: "nat \<Rightarrow> kvs \<Rightarrow> (key \<times> Hint) list" where
  "file_hints fd rs = map (\<lambda>(k, v, i). (k, value_hint (word_of_nat fd) i v)) (log_entries 0 rs)"

definition index_log :: "kvs list \<Rightarrow> kvs \<Rightarrow> nat list \<Rightarrow> (key \<times> Hint) list" where
  "index_log ls la ord = concat (map (\<lambda>j. file_hints j (ls ! j)) ord) @ file_hints (length ls) la"

definition index_ok :: "('am, 'rm) libs \<Rightarrow> ('am, 'rm) BitcaskImpl \<Rightarrow> kvs list \<Rightarrow> kvs \<Rightarrow> nat list \<Rightarrow> bool" where
  "index_ok L db ls la ord \<longleftrightarrow>
     RecordMap_Get (lib_rmap L) (recordMap db) = map_of (rev (index_log ls la ord))
   \<and> ActiveMap_Get (lib_amap L) (activeMap db) = map_of (rev la)"

definition handles_ok :: "('am, 'rm) BitcaskImpl \<Rightarrow> nat \<Rightarrow> nat list \<Rightarrow> bool" where
  "handles_ok db n ord \<longleftrightarrow> n < 2 ^ 32 \<and> distinct ord \<and> set ord = {..<n}
     \<and> stable_handles (GetDbPath (setting db)) ord (stableFiles db)
     \<and> (\<exists>af. activeFile db = Some af \<and> af_on (disk db) (db_file (GetDbPath (setting db)) n) af)"

definition disk_ok :: "('am, 'rm) libs \<Rightarrow> ('am, 'rm) BitcaskImpl \<Rightarrow> kvs list \<Rightarrow> kvs \<Rightarrow> nat list \<Rightarrow> bool" where
  "disk_ok L db ls la ord \<longleftrightarrow>
     files_ok (lib_crc L) (disk db) (GetDbPath (setting db)) ls la \<and> handles_ok db (length ls) ord"

definition store_ok :: "('am, 'rm) libs \<Rightarrow> ('am, 'rm) BitcaskImpl \<Rightarrow> kvs list \<Rightarrow> kvs \<Rightarrow> nat list \<Rightarrow> bool" where
  "store_ok L db ls la ord \<longleftrightarrow>
     files_ok (lib_crc L) (disk db) (GetDbPath (setting db)) ls la \<and> handles_ok db (length ls) ord
   \<and> index_ok L db ls la ord"

lemma store_ok_disk_ok: "store_ok L db ls la ord \<longleftrightarrow> disk_ok L db ls la ord \<and> index_ok L db ls la ord"
  by (auto simp: store_ok_def disk_ok_def)

lemma handles_ok_length: "handles_ok db n ord \<Longrightarrow> length (stableFiles db) = n"
  by (metis handles_ok_def stable_handles_length distinct_card card_lessThan)

lemma handles_ok_fd: "handles_ok db n ord \<Longrightarrow> getActiveFD db = word_of_nat n"
  by (simp add: getActiveFD_def handles_ok_length)

lemma file_hints_snoc:
  "file_hints fd (rs @ [r]) = file_hints fd rs @
     [(fst r, \<lparr>hint_fd = word_of_nat fd, hint_offset = word_of_nat (value_offset rs r),
               hint_size = word_of_nat (length (snd r))\<rparr>)]"
  by (simp add: file_hints_def log_entries_append value_hint_def value_offset_def)

lemma file_hints_Nil [simp]: "file_hints fd [] = []"
  by (simp add: file_hints_def)

section \<open>Get reads the abstract store\<close>

text \<open>A hint of a file's log leads to the value it was made for.\<close>

definition leads_to :: "crc_fn \<Rightarrow> kvs list \<Rightarrow> kvs \<Rightarrow> nat list \<Rightarrow> Hint \<Rightarrow> val \<Rightarrow> bool" where
  "leads_to ext ls la js h v \<longleftrightarrow> (\<exists>j \<in> set js. hint_fd h = word_of_nat j \<and>
     (let c = enc_log ext ((ls @ [la]) ! j) in unat (hint_offset h) + unat (hint_size h) \<le> length c
        \<and> take (unat (hint_size h)) (drop (unat (hint_offset h)) c) = v))"

lemma file_hints_lead:
  assumes "log_size rs < 2 ^ 32"
  shows "list_all2 (\<lambda>(k, h) (k', v). k = k' \<and> hint_fd h = word_of_nat fd
      \<and> unat (hint_offset h) + unat (hint_size h) \<le> log_size rs
      \<and> take (unat (hint_size h)) (drop (unat (hint_offset h)) (enc_log ext rs)) = v) (file_hints fd rs) rs"
proof -
  have kv: "map (\<lambda>(k, v, i). (k, v)) (log_entries off rs) = rs" for off
    by (induction rs arbitrary: off) auto
  have "list_all2 (\<lambda>(k, h) (k', v). k = k' \<and> hint_fd h = word_of_nat fd
      \<and> unat (hint_offset h) + unat (hint_size h) \<le> log_size rs
      \<and> take (unat (hint_size h)) (drop (unat (hint_offset h)) (enc_log ext rs)) = v)
      (file_hints fd rs) (map (\<lambda>(k, v, i). (k, v)) (log_entries 0 rs))"
    unfolding file_hints_def list_all2_map1 list_all2_map2
  proof (rule list.rel_refl_strong, clarify)
    fix k v i
    assume e: "(k, v, i) \<in> set (log_entries 0 rs)"
    then have "(k, v) \<in> set (map (\<lambda>(k, v, i). (k, v)) (log_entries 0 rs))" by force
    then have "(k, v) \<in> set rs" unfolding kv .
    then have "length v < 2 ^ 32"
      using assms by (induction rs) (auto simp: rec_size_def)
    then have "unat (hint_size (value_hint (word_of_nat fd) i v)) = length v"
      by (simp add: value_hint_def unat_of_nat_u32)
    then show "k = k \<and> hint_fd (value_hint (word_of_nat fd) i v) = word_of_nat fd
      \<and> unat (hint_offset (value_hint (word_of_nat fd) i v)) + unat (hint_size (value_hint (word_of_nat fd) i v)) \<le> log_size rs
      \<and> take (unat (hint_size (value_hint (word_of_nat fd) i v)))
          (drop (unat (hint_offset (value_hint (word_of_nat fd) i v))) (enc_log ext rs)) = v"
      using log_entries_slice(1) [OF e, where pre = "[]" and post = "[]" and ext = ext]
        log_entries_slice(2) [OF e, where pre = "[]"] assms by (simp add: value_hint_def)
  qed
  then show ?thesis unfolding kv .
qed

text \<open>The index and the log agree position by position, and lookups in them are related.\<close>

lemma index_log_rel:
  assumes "\<forall>j \<in> set ord. j < length ls" and "\<forall>rs \<in> set (ls @ [la]). log_size rs < 2 ^ 32"
  shows "list_all2 (\<lambda>(k, h) (k', v). k = k' \<and> leads_to ext ls la (ord @ [length ls]) h v)
      (index_log ls la ord) (abs_log ls la ord)"
proof -
  let ?P = "\<lambda>(k, h) (k', v). k = k' \<and> leads_to ext ls la (ord @ [length ls]) h v"
  have one: "list_all2 ?P (file_hints j ((ls @ [la]) ! j)) ((ls @ [la]) ! j)"
    if "j \<in> set (ord @ [length ls])" for j
  proof -
    have "(ls @ [la]) ! j \<in> set (ls @ [la])" using that assms(1) by (auto simp: nth_append)
    then have "log_size ((ls @ [la]) ! j) < 2 ^ 32" using assms(2) by blast
    from file_hints_lead [OF this, of j ext] show ?thesis
      by (rule list_all2_mono) (use that in \<open>auto simp: leads_to_def Let_def\<close>)
  qed
  have many: "list_all2 ?P (concat (map (\<lambda>j. file_hints j (ls ! j)) js)) (concat (map ((!) ls) js))"
    if "set js \<subseteq> set ord" for js
    using that
  proof (induction js)
    case (Cons j js)
    then have "list_all2 ?P (file_hints j (ls ! j)) (ls ! j)"
      using one [of j] assms(1) by (auto simp: nth_append)
    with Cons show ?case by (simp add: list_all2_appendI)
  qed simp
  show ?thesis
    unfolding index_log_def abs_log_def using many [OF subset_refl] one [of "length ls"]
    by (simp add: list_all2_appendI)
qed

lemma lookup_rel:
  assumes "\<forall>j \<in> set ord. j < length ls" and "\<forall>rs \<in> set (ls @ [la]). log_size rs < 2 ^ 32"
  shows "rel_option (leads_to ext ls la (ord @ [length ls]))
      (map_of (rev (index_log ls la ord)) k) (last_write (abs_log ls la ord) k)"
proof -
  have "list_all2 (\<lambda>(k, h) (k', v). k = k' \<and> leads_to ext ls la (ord @ [length ls]) h v)
      (rev (index_log ls la ord)) (rev (abs_log ls la ord))"
    unfolding list_all2_rev by (rule index_log_rel [OF assms])
  from map_of_rel [where P = "\<lambda>_. leads_to ext ls la (ord @ [length ls])", OF this]
  show ?thesis by (simp add: last_write_def)
qed

text \<open>A hint of the active file belongs to a key of the active log, with the value of its last write.\<close>

lemma file_hints_fd: "(k, h) \<in> set (file_hints fd rs) \<Longrightarrow> hint_fd h = word_of_nat fd"
  by (auto simp: file_hints_def value_hint_def)

lemma map_of_index_active:
  assumes "map_of (rev (index_log ls la ord)) k = Some h"
    and "\<forall>j \<in> set ord. j < length ls" and "length ls < 2 ^ 32"
  shows "if hint_fd h = word_of_nat (length ls) then map_of (rev (file_hints (length ls) la)) k = Some h
     else map_of (rev (file_hints (length ls) la)) k = None"
proof (cases "map_of (rev (file_hints (length ls) la)) k")
  case None
  then have "map_of (rev (concat (map (\<lambda>j. file_hints j (ls ! j)) ord))) k = Some h"
    using assms(1) by (simp only: index_log_def map_of_rev_append option.case)
  then have "(k, h) \<in> set (concat (map (\<lambda>j. file_hints j (ls ! j)) ord))"
    by (metis map_of_SomeD set_rev)
  then obtain j where "j \<in> set ord" "(k, h) \<in> set (file_hints j (ls ! j))" by auto
  then have "hint_fd h = word_of_nat j" "j < length ls" using assms(2) by (auto dest: file_hints_fd)
  then show ?thesis using None assms(3) of_nat_u32_eq [of j "length ls"] by simp
next
  case (Some h')
  then have "h' = h" using assms(1)
    by (simp only: index_log_def map_of_rev_append option.case option.inject)
  moreover have "hint_fd h' = word_of_nat (length ls)"
    using Some by (metis file_hints_fd map_of_SomeD set_rev)
  ultimately show ?thesis using Some by simp
qed

lemma map_fst_file_hints: "map fst (file_hints fd rs) = map fst rs"
proof -
  have "map fst (map (\<lambda>(k, v, i). (k, value_hint fd' i v)) (log_entries off rs)) = map fst rs" for off fd'
    by (induction rs arbitrary: off) auto
  then show ?thesis by (simp add: file_hints_def)
qed

lemma map_of_hints_dom:
  "map_of (rev (file_hints fd rs)) k = None \<longleftrightarrow> map_of (rev rs) k = None"
  unfolding map_of_eq_None_iff set_rev by (metis list.set_map map_fst_file_hints)

lemma last_write_snoc: "last_write (rs @ [r]) = (last_write rs)(fst r \<mapsto> snd r)"
  by (cases r) (simp add: last_write_def fun_eq_iff)

lemma last_write_append:
  "last_write (xs @ ys) k = (case last_write ys k of None \<Rightarrow> last_write xs k | Some v \<Rightarrow> Some v)"
  unfolding last_write_def by (rule map_of_rev_append)

text \<open>
  Reading needs less than the invariant: every file begins with its log, whatever follows. A
  database recovered after a crash satisfies this with a torn record at the end of a file.
\<close>

definition begins_with_log :: "crc_fn \<Rightarrow> fsys \<Rightarrow> string \<Rightarrow> kvs \<Rightarrow> bool" where
  "begins_with_log ext F p rs \<longleftrightarrow>
     take (log_size rs) (file_content F p) = enc_log ext rs \<and> log_size rs < 2 ^ 32"

definition readable_ok :: "('am, 'rm) libs \<Rightarrow> ('am, 'rm) BitcaskImpl \<Rightarrow> kvs list \<Rightarrow> kvs \<Rightarrow> nat list \<Rightarrow> bool" where
  "readable_ok L db ls la ord \<longleftrightarrow>
     (\<forall>i \<le> length ls. begins_with_log (lib_crc L) (disk db) (db_file (GetDbPath (setting db)) i) ((ls @ [la]) ! i))
   \<and> handles_ok db (length ls) ord \<and> index_ok L db ls la ord"

lemma store_ok_readable:
  assumes "store_ok L db ls la ord" shows "readable_ok L db ls la ord"
proof -
  have f: "files_ok (lib_crc L) (disk db) (GetDbPath (setting db)) ls la" using assms by (simp add: store_ok_def)
  have "begins_with_log (lib_crc L) (disk db) (db_file (GetDbPath (setting db)) i) ((ls @ [la]) ! i)"
    if "i \<le> length ls" for i
    using f that by (cases "i = length ls") (auto simp: files_ok_def holds_log_def begins_with_log_def nth_append)
  then show ?thesis using assms by (simp add: store_ok_def readable_ok_def)
qed

lemma readable_ok_ord:
  assumes "readable_ok L db ls la ord"
  shows "\<forall>j \<in> set ord. j < length ls" and "\<forall>j \<in> set ord. j < 2 ^ 32" and "length ls < 2 ^ 32"
    and "\<forall>rs \<in> set (ls @ [la]). log_size rs < 2 ^ 32"
    and "getActiveFD db = word_of_nat (length ls)"
proof -
  have h: "handles_ok db (length ls) ord" using assms by (simp add: readable_ok_def)
  show "length ls < 2 ^ 32" and "getActiveFD db = word_of_nat (length ls)"
    using h handles_ok_fd by (auto simp: handles_ok_def)
  show "\<forall>j \<in> set ord. j < length ls" using h by (simp add: handles_ok_def)
  then show "\<forall>j \<in> set ord. j < 2 ^ 32" using \<open>length ls < 2 ^ 32\<close> by fastforce
  show "\<forall>rs \<in> set (ls @ [la]). log_size rs < 2 ^ 32"
  proof
    fix rs assume "rs \<in> set (ls @ [la])"
    then obtain i where "i < length (ls @ [la])" "(ls @ [la]) ! i = rs" by (metis in_set_conv_nth)
    then show "log_size rs < 2 ^ 32" using assms by (auto simp: readable_ok_def begins_with_log_def)
  qed
qed

lemmas store_ok_ord = readable_ok_ord [OF store_ok_readable]

text \<open>A read moves a stable file's stream, which changes nothing that matters.\<close>

lemma stable_update_ok:
  assumes "handles_ok db n ord" and "j \<in> set ord" and "sf_on (db_file (GetDbPath (setting db)) j) sf"
  shows "handles_ok (db\<lparr>stableFiles := AList.update (word_of_nat j) sf (stableFiles db)\<rparr>) n ord"
proof -
  have h: "stable_handles (GetDbPath (setting db)) ord (stableFiles db)" and lt: "\<forall>j \<in> set ord. j < 2 ^ 32"
    using assms(1) unfolding handles_ok_def by fastforce+
  have "stable_handles (GetDbPath (setting db)) ord (AList.update (word_of_nat j) sf (stableFiles db))"
    by (rule stable_handles_update [OF h lt assms(2,3)])
  then show ?thesis using assms(1) by (simp add: handles_ok_def)
qed

lemma index_ok_lookup:
  assumes "index_ok L db ls la ord"
  shows "RecordMap_Get (lib_rmap L) (recordMap db) k = map_of (rev (index_log ls la ord)) k"
    and "ActiveMap_Get (lib_amap L) (activeMap db) k = map_of (rev la) k"
  using assms by (simp_all add: index_ok_def)

text \<open>A key indexed in the active file is served from the map of the active file.\<close>

lemma active_lookup:
  assumes "map_of (rev (index_log ls la ord)) k = Some h" and "\<forall>j \<in> set ord. j < length ls"
    and "length ls < 2 ^ 32" and "hint_fd h = word_of_nat (length ls)"
  shows "map_of (rev la) k = last_write (abs_log ls la ord) k" and "map_of (rev la) k \<noteq> None"
proof -
  have "map_of (rev (file_hints (length ls) la)) k = Some h"
    using map_of_index_active [OF assms(1-3)] assms(4) by simp
  then show ne: "map_of (rev la) k \<noteq> None"
    using map_of_hints_dom [of "length ls" la k] by simp
  then show "map_of (rev la) k = last_write (abs_log ls la ord) k"
    unfolding abs_log_def last_write_append by (auto simp: last_write_def split: option.splits)
qed

lemma slice_of_prefix: "m + n \<le> l \<Longrightarrow> take n (drop m (take l c)) = take n (drop m c)"
  by (simp add: drop_take min_def)

text \<open>A hint of a stable file leads to the bytes of the last write in that file.\<close>

lemma stable_lookup:
  assumes "\<forall>j \<in> set ord. j < length ls" and "\<forall>rs \<in> set (ls @ [la]). log_size rs < 2 ^ 32"
    and files: "\<forall>i < length ls. begins_with_log ext F (db_file d i) (ls ! i)"
    and "map_of (rev (index_log ls la ord)) k = Some h" and "hint_fd h \<noteq> word_of_nat (length ls)"
  obtains j v where "j \<in> set ord" and "hint_fd h = word_of_nat j"
    and "last_write (abs_log ls la ord) k = Some v"
    and "unat (hint_offset h) + unat (hint_size h) \<le> length (file_content F (db_file d j))"
    and "take (unat (hint_size h)) (drop (unat (hint_offset h)) (file_content F (db_file d j))) = v"
proof -
  let ?enc = "enc_log ext"
  obtain v where v: "last_write (abs_log ls la ord) k = Some v"
    and lead: "leads_to ext ls la (ord @ [length ls]) h v"
    using lookup_rel [OF assms(1,2), of ext k] assms(4) by (auto simp: option_rel_Some1)
  obtain j where j: "j \<in> set ord" "hint_fd h = word_of_nat j"
    and c: "unat (hint_offset h) + unat (hint_size h) \<le> log_size (ls ! j)"
      "take (unat (hint_size h)) (drop (unat (hint_offset h)) (?enc (ls ! j))) = v"
    using lead assms(1,5) by (auto simp: leads_to_def Let_def nth_append)
  have fc: "take (log_size (ls ! j)) (file_content F (db_file d j)) = ?enc (ls ! j)"
    using files j(1) assms(1) by (simp add: begins_with_log_def)
  then have "log_size (ls ! j) \<le> length (file_content F (db_file d j))"
    by (metis length_enc_log length_take min.absorb_iff2 min.commute)
  then have bound: "unat (hint_offset h) + unat (hint_size h) \<le> length (file_content F (db_file d j))"
    using c(1) by linarith
  have "take (unat (hint_size h)) (drop (unat (hint_offset h)) (file_content F (db_file d j))) = v"
    using c(2) slice_of_prefix [OF c(1), of "file_content F (db_file d j)"] fc by simp
  with j v bound show thesis by (rule that)
qed

text \<open>
  \<open>Get\<close> returns the visible last write of the key. The state keeps everything but the positions of
  the stable files' streams.
\<close>

definition only_streams :: "string \<Rightarrow> nat list \<Rightarrow> ('am, 'rm) BitcaskImpl \<Rightarrow> ('am, 'rm) BitcaskImpl \<Rightarrow> bool" where
  "only_streams d ord db db' \<longleftrightarrow> db' = db \<or>
     (\<exists>j \<in> set ord. \<exists>sf. sf_on (db_file d j) sf \<and>
        db' = db\<lparr>stableFiles := AList.update (word_of_nat j) sf (stableFiles db)\<rparr>)"

lemma only_streams_store_ok:
  "store_ok L db ls la ord \<Longrightarrow> only_streams (GetDbPath (setting db)) ord db db' \<Longrightarrow> store_ok L db' ls la ord"
  using stable_update_ok [of db "length ls" ord] by (auto simp: only_streams_def store_ok_def index_ok_def)

lemma Get_readable:
  assumes "readable_ok L db ls la ord"
  obtains db' where "Get L k db = Inr (abs_get (abs_log ls la ord) k, db')"
    and "only_streams (GetDbPath (setting db)) ord db db'"
proof (cases "map_of (rev (index_log ls la ord)) k")
  case None
  have "last_write (abs_log ls la ord) k = None"
    using lookup_rel [OF readable_ok_ord(1,4) [OF assms], of undefined k] None by (simp add: option.rel_sel)
  moreover have "RecordMap_Get (lib_rmap L) (recordMap db) k = None"
    using index_ok_lookup(1) [of L db ls la ord k] assms None by (simp add: readable_ok_def)
  ultimately show thesis
    using that [of db] by (simp add: Get_def abs_get_def visible_def only_streams_def)
next
  case (Some h)
  have ix: "index_ok L db ls la ord" using assms by (simp add: readable_ok_def)
  note rm = index_ok_lookup(1) [OF ix, of k, unfolded Some]
  show thesis
  proof (cases "hint_fd h = word_of_nat (length ls)")
    case True
    note act = active_lookup [OF Some readable_ok_ord(1,3) [OF assms] True]
    then obtain v where "last_write (abs_log ls la ord) k = Some v"
        "ActiveMap_Get (lib_amap L) (activeMap db) k = Some v"
      using index_ok_lookup(2) [OF ix] by auto
    with True rm show thesis
      using that [of db] by (auto simp: Get_def readable_ok_ord(5) [OF assms] abs_get_def visible_def only_streams_def)
  next
    case False
    let ?d = "GetDbPath (setting db)"
    have "begins_with_log (lib_crc L) (disk db) (db_file ?d i) (ls ! i)" if "i < length ls" for i
    proof -
      have "begins_with_log (lib_crc L) (disk db) (db_file ?d i) ((ls @ [la]) ! i)"
        using assms less_imp_le [OF that] unfolding readable_ok_def by blast
      then show ?thesis using that by (simp add: nth_append)
    qed
    then obtain j v where j: "j \<in> set ord" "hint_fd h = word_of_nat j" "last_write (abs_log ls la ord) k = Some v"
      and bound: "unat (hint_offset h) + unat (hint_size h) \<le> length (file_content (disk db) (db_file ?d j))"
      and slice: "take (unat (hint_size h)) (drop (unat (hint_offset h)) (file_content (disk db) (db_file ?d j))) = v"
      using stable_lookup [OF readable_ok_ord(1,4) [OF assms] _ Some False] by blast
    have "stable_handles ?d ord (stableFiles db)" using assms by (simp add: readable_ok_def handles_ok_def)
    then obtain sf where sf: "map_of (stableFiles db) (word_of_nat j) = Some sf" "sf_on (db_file ?d j) sf"
      using stable_handles_lookup readable_ok_ord(2) [OF assms] j(1) by blast
    obtain sf' where rd: "StableFile_Read (disk db) sf (hint_offset h) (hint_size h) = Inr (v, sf')"
      and sf': "sf_on (db_file ?d j) sf'"
      using StableFile_Read_slice [OF sf(2) bound] slice by auto
    let ?db = "db\<lparr>stableFiles := AList.update (word_of_nat j) sf' (stableFiles db)\<rparr>"
    have "Get L k db = Inr (abs_get (abs_log ls la ord) k, ?db)"
      using rm False j(2,3) sf(1) rd
      by (simp add: Get_def readable_ok_ord(5) [OF assms] abs_get_def visible_def)
    moreover have "only_streams ?d ord db ?db" using j(1) sf' unfolding only_streams_def by blast
    ultimately show thesis by (rule that)
  qed
qed

end
