(* ===== verification/Commit.thy ===== *)
theory Commit
  imports EngineInv
begin

text \<open>
  What a commit does to the store: the file phase (\<open>commit_loop\<close>) fills the data files as the
  function \<open>fill\<close> says, the publishing phase updates the two maps, and a batch in which only the
  last write rotates keeps the store consistent.
\<close>

section \<open>The file phase of a commit\<close>

lemma holds_log_same_but:
  "holds_log ext F q rs \<Longrightarrow> same_but p F F' \<Longrightarrow> q \<noteq> p \<Longrightarrow> holds_log ext F' q rs"
  by (simp add: holds_log_def same_but_content)

definition loop_inv :: "crc_fn \<Rightarrow> string \<Rightarrow> nat \<Rightarrow> commit_state \<Rightarrow> kvs list \<Rightarrow> kvs \<Rightarrow> bool" where
  "loop_inv ext d n0 cs ls la \<longleftrightarrow>
     files_ok ext (cs_disk cs) d ls la \<and> length ls = n0 + length (cs_new cs)
   \<and> stable_handles d [n0..<length ls] (cs_new cs)
   \<and> (\<exists>af. cs_active cs = Some af \<and> af_on (cs_disk cs) (db_file d (length ls)) af)"

definition place_hint :: "nat \<Rightarrow> nat \<Rightarrow> key \<times> val \<Rightarrow> Hint" where
  "place_hint fd off r = \<lparr>hint_fd = word_of_nat fd, hint_offset = word_of_nat off,
     hint_size = word_of_nat (length (snd r))\<rparr>"

text \<open>The only files that come into being are the active files after the first.\<close>

definition grows :: "string \<Rightarrow> nat \<Rightarrow> nat \<Rightarrow> fsys \<Rightarrow> fsys \<Rightarrow> bool" where
  "grows d n n' F F' \<longleftrightarrow>
     (\<forall>q. is_regular F' q \<longleftrightarrow> is_regular F q \<or> (\<exists>i. n < i \<and> i \<le> n' \<and> q = db_file d i))
   \<and> (distinct (map fst (nodes F)) \<longrightarrow> distinct (map fst (nodes F')))"

lemma grows_refl [simp]: "grows d n n F F"
  by (auto simp: grows_def)

lemma grows_trans:
  assumes "grows d n m F G" and "grows d m k G H" and "n \<le> m" and "m \<le> k"
  shows "grows d n k F H"
proof -
  have "(\<exists>i. n < i \<and> i \<le> k \<and> q = db_file d i) \<longleftrightarrow>
      (\<exists>i. n < i \<and> i \<le> m \<and> q = db_file d i) \<or> (\<exists>i. m < i \<and> i \<le> k \<and> q = db_file d i)" for q
    using assms(3,4) by (auto simp: not_le intro: less_le_trans)
  then show ?thesis using assms(1,2) by (auto simp: grows_def)
qed

lemma grows_same_but:
  assumes "same_but p F F'" and "is_regular F p" and "is_regular F' p"
  shows "grows d n n F F'"
proof -
  have "is_regular F' q \<longleftrightarrow> is_regular F q" for q
    using assms same_but_content(2) [OF assms(1)] by (cases "q = p") auto
  then show ?thesis using assms(1) by (auto simp: grows_def same_but_def)
qed

lemma grows_put: "grows d n (Suc n) F (put_file (db_file d (Suc n)) bs F)"
proof -
  have "(\<exists>i. n < i \<and> i \<le> Suc n \<and> q = db_file d i) \<longleftrightarrow> q = db_file d (Suc n)" for q
    by (auto simp: le_Suc_eq)
  then show ?thesis by (auto simp: grows_def)
qed

text \<open>Appending one record to the active log.\<close>

lemma write_active:
  assumes "files_ok ext F d ls la" and "af_on F (db_file d (length ls)) af"
    and "log_size la + rec_size (k, v) < 2 ^ 32"
  obtains F' af' where "ActiveFile_Write ext F af k v = Inr (word_of_nat (value_offset la (k, v)), F', af')"
    and "files_ok ext F' d ls (la @ [(k, v)])" and "af_on F' (db_file d (length ls)) af'"
    and "grows d (length ls) (length ls) F F'"
proof -
  let ?p = "db_file d (length ls)"
  have la: "holds_log ext F ?p la" and ls: "\<forall>i < length ls. holds_log ext F (db_file d i) (ls ! i)"
    and u: "usable_dir F d"
    using assms(1) by (auto simp: files_ok_def)
  have reg: "is_regular F ?p" and c: "file_content F ?p = enc_log ext la"
    using la by (auto simp: holds_log_def)
  obtain F' af' where w: "ActiveFile_Write ext F af k v =
      Inr (word_of_nat (length (file_content F ?p) + header_size + length k), F', af')"
    "af_on F' ?p af'" "is_regular F' ?p" "file_content F' ?p = file_content F ?p @ enc_record ext (k, v)"
    "same_but ?p F F'"
    by (rule ActiveFile_Write_at_end [OF assms(2) reg, where ext = ext and k = k and v = v])
  have "holds_log ext F' (db_file d i) (ls ! i)" if "i < length ls" for i
    using ls that holds_log_same_but [OF _ w(5)] by auto
  moreover have "holds_log ext F' ?p (la @ [(k, v)])"
    using w(3,4) c assms(3) by (simp add: holds_log_def)
  ultimately have "files_ok ext F' d ls (la @ [(k, v)])"
    using usable_dir_same_but [OF u w(5,3)] by (simp add: files_ok_def)
  with w(1,2) c grows_same_but [OF w(5) reg w(3)] show thesis using that by (simp add: value_offset_def)
qed

text \<open>The number of the rotated file.\<close>

lemma rotation_number:
  assumes "length ls = n0 + length new" and "Suc (length ls) < 2 ^ 32"
  defines "fd \<equiv> ucast (word_of_nat n0 :: u32) + word_of_nat (length new) :: u64"
  shows "unat fd = length ls" and "unat (fd + 1) = Suc (length ls)" and "(ucast fd :: u32) = word_of_nat (length ls)"
proof -
  have "fd = word_of_nat (length ls)"
    using assms(1,2) by (simp add: fd_def unsigned_of_nat take_bit_nat_eq_self)
  then show "unat fd = length ls" "unat (fd + 1) = Suc (length ls)" "(ucast fd :: u32) = word_of_nat (length ls)"
    using assms(2) by (simp_all add: unsigned_of_nat take_bit_nat_eq_self unat_word_ariths)
qed

text \<open>Rotating: the full log becomes a stable file and an empty active file follows it.\<close>

lemma rotate_ok:
  assumes "loop_inv ext d n0 cs ls la" and "Suc (length ls) < 2 ^ 32"
    and "cs_active cs = Some af" and "af_on (cs_disk cs) (db_file d (length ls)) af"
  obtains cs' where "rotate_files d (word_of_nat n0) af cs = Inr cs'"
    and "loop_inv ext d n0 cs' (ls @ [la]) []" and "cs_records cs' = cs_records cs"
    and "cs_idx cs' = cs_idx cs" and "cs_last cs' = cs_idx cs"
    and "grows d (length ls) (Suc (length ls)) (cs_disk cs) (cs_disk cs')"
proof -
  let ?p = "db_file d (length ls)" and ?q = "db_file d (Suc (length ls))" and ?F = "cs_disk cs"
  have f: "files_ok ext ?F d ls la" and len: "length ls = n0 + length (cs_new cs)"
    and sh: "stable_handles d [n0..<length ls] (cs_new cs)"
    using assms(1) by (auto simp: loop_inv_def)
  have u: "usable_dir ?F d" and la: "holds_log ext ?F ?p la"
    and ls: "\<forall>i < length ls. holds_log ext ?F (db_file d i) (ls ! i)"
    using f by (auto simp: files_ok_def)
  obtain fh where fh: "af_file af = Some fh" using assms(4) by (auto simp: af_on_def)
  define fd where "fd = (ucast (word_of_nat n0 :: u32) + word_of_nat (length (cs_new cs)) :: u64)"
  note fd = rotation_number [OF len assms(2), folded fd_def]
  let ?h = "st_opened ?p True new_fstream"
  have o: "OpenFile ?F new_fstream ?p {ios_binary, ios_in, ios_app} = (True, ?F, ?h)"
    using OpenFile_app usable_dir_file(1) [OF u] la by (auto simp: holds_log_def)
  obtain af' where c: "ActiveFile_Create_path ?F ?q = (Some af', put_file ?q [] ?F)" "af_on (put_file ?q [] ?F) ?q af'"
    by (rule ActiveFile_Create_path_new [OF usable_dir_file(2,1) [OF u], of "Suc (length ls)"])
  have nin: "(word_of_nat (length ls) :: u32) \<notin> fst ` set (cs_new cs)"
    unfolding stable_handles_dom [OF sh] using assms(2) of_nat_u32_eq by auto
  define cs' where "cs' = cs\<lparr>cs_disk := put_file ?q [] ?F, cs_active := Some af',
      cs_new := cs_new cs @ [(word_of_nat (length ls), StableFile_Create (Some ?h))], cs_last := cs_idx cs\<rparr>"
  have "rotate_files d (word_of_nat n0) af cs = Inr cs'"
    by (simp add: rotate_files_def ActiveFile_Rotate_def fh fd_def [symmetric] fd o c(1) update_snoc nin cs'_def Let_def)
  moreover have "files_ok ext (put_file ?q [] ?F) d (ls @ [la]) []"
    using ls la usable_dir_same_but [OF u same_but_put, of ?q "[]"]
    by (auto simp: files_ok_def holds_log_def nth_append less_Suc_eq)
  moreover have "stable_handles d [n0..<Suc (length ls)] (cs_new cs @ [(word_of_nat (length ls), StableFile_Create (Some ?h))])"
    using stable_handles_append [OF sh, of "[length ls]"] len
    by (simp add: stable_handles_def sf_on_def StableFile_Create_def)
  ultimately show thesis using that c(2) len grows_put [of d "length ls" ?F "[]"]
    by (simp add: cs'_def loop_inv_def)
qed

lemma commit_one_ok:
  assumes "loop_inv ext d n0 cs ls la" and "log_size la + rec_size r < 2 ^ 32" and "Suc (length ls) < 2 ^ 32"
    and "r = (w_key w, w_value w)" and "fill_one (unat limit) r (ls, la) = (ls', la')"
  obtains cs' where "commit_one ext d limit (word_of_nat n0) w cs = Inr cs'"
    and "loop_inv ext d n0 cs' ls' la'"
    and "cs_records cs' = cs_records cs @ [place_hint n0 (value_offset la r) r]"
    and "cs_idx cs' = Suc (cs_idx cs)"
    and "cs_last cs' = (if length ls' = length ls then cs_last cs else Suc (cs_idx cs))"
    and "grows d (length ls) (length ls') (cs_disk cs) (cs_disk cs')"
proof -
  have f: "files_ok ext (cs_disk cs) d ls la" using assms(1) by (simp add: loop_inv_def)
  obtain af where af: "cs_active cs = Some af" "af_on (cs_disk cs) (db_file d (length ls)) af"
    using assms(1) by (auto simp: loop_inv_def)
  obtain F' af' where w: "ActiveFile_Write ext (cs_disk cs) af (w_key w) (w_value w) =
      Inr (word_of_nat (value_offset la r), F', af')"
    "files_ok ext F' d ls (la @ [r])" "af_on F' (db_file d (length ls)) af'"
    "grows d (length ls) (length ls) (cs_disk cs) F'"
    using write_active [OF f af(2), of "w_key w" "w_value w"] assms(2,4) by blast
  define cs1 where "cs1 = cs\<lparr>cs_disk := F', cs_active := Some af',
      cs_records := cs_records cs @ [place_hint n0 (value_offset la r) r], cs_idx := cs_idx cs + 1\<rparr>"
  have inv1: "loop_inv ext d n0 cs1 ls (la @ [r])"
    using assms(1) w(2,3) by (auto simp: loop_inv_def cs1_def)
  have sr: "snd r = w_value w" using assms(4) by simp
  have vo: "value_offset la r < 2 ^ 32" using assms(2) by (simp add: value_offset_def rec_size_def)
  have cmp: "((ucast (word_of_nat (value_offset la r) :: u32) :: u64) < limit) \<longleftrightarrow> value_offset la r < unat limit"
    using vo by (simp add: word_less_nat_alt unsigned_of_nat take_bit_nat_eq_self)
  have step: "commit_one ext d limit (word_of_nat n0) w cs =
      (if value_offset la r < unat limit then Inr cs1 else rotate_files d (word_of_nat n0) af' cs1)"
    using af(1) w(1) sr by (simp add: commit_one_def cmp cs1_def place_hint_def Let_def)
  show thesis
  proof (cases "value_offset la r < unat limit")
    case True
    then show thesis using that [of cs1] step inv1 assms(5) w(4) by (auto simp: fill_one_def cs1_def)
  next
    case False
    have a1: "cs_active cs1 = Some af'" "af_on (cs_disk cs1) (db_file d (length ls)) af'"
      using w(3) by (simp_all add: cs1_def)
    obtain cs' where "rotate_files d (word_of_nat n0) af' cs1 = Inr cs'"
      "loop_inv ext d n0 cs' (ls @ [la @ [r]]) []" "cs_records cs' = cs_records cs1"
      "cs_idx cs' = cs_idx cs1" "cs_last cs' = cs_idx cs1"
      "grows d (length ls) (Suc (length ls)) (cs_disk cs1) (cs_disk cs')"
      by (rule rotate_ok [OF inv1 assms(3) a1])
    moreover from this(6) w(4) have "grows d (length ls) (Suc (length ls)) (cs_disk cs) (cs_disk cs')"
      using grows_trans [of d "length ls" "length ls" "cs_disk cs" F' "Suc (length ls)"] by (simp add: cs1_def)
    ultimately show thesis using False that [of cs'] step assms(5) by (auto simp: fill_one_def cs1_def)
  qed
qed

text \<open>
  The whole loop: the files hold what \<open>fill\<close> says, every hint carries the number of the file that
  was active when the commit began, and the writes from \<open>cs_last\<close> on are those of the new active log.
\<close>

definition place_hints :: "nat \<Rightarrow> kvs \<Rightarrow> nat list \<Rightarrow> Hint list" where
  "place_hints fd rs offs = map2 (\<lambda>r off. place_hint fd off r) rs offs"

lemma fill_one_size: "fill_one limit r (ls, la) = (ls', la') \<Longrightarrow> log_size la' \<le> log_size la + rec_size r
    \<and> length ls' \<le> Suc (length ls)"
  by (auto simp: fill_one_def split: if_splits)

lemma commit_loop_ok:
  assumes "loop_inv ext d n0 cs ls la" and "log_size la + log_size (batch ws) < 2 ^ 32"
    and "length ls + length ws < 2 ^ 32" and "fill (unat limit) (batch ws) (ls, la) = (ls', la')"
  obtains cs' where "commit_loop ext d limit (word_of_nat n0) ws cs = Inr cs'"
    and "loop_inv ext d n0 cs' ls' la'"
    and "cs_records cs' = cs_records cs @ place_hints n0 (batch ws) (fill_offsets (unat limit) (batch ws) (ls, la))"
    and "cs_idx cs' = cs_idx cs + length ws"
    and "if length ls' = length ls then cs_last cs' = cs_last cs \<and> la' = la @ batch ws
      else cs_idx cs < cs_last cs' \<and> cs_last cs' \<le> cs_idx cs' \<and> la' = drop (cs_last cs' - cs_idx cs) (batch ws)"
    and "grows d (length ls) (length ls') (cs_disk cs) (cs_disk cs')"
  using assms
proof (induction ws arbitrary: cs ls la thesis)
  case Nil
  show thesis
    by (rule Nil.prems(1) [of cs]) (use Nil.prems(2-) in \<open>auto simp: batch_def place_hints_def\<close>)
next
  case (Cons w ws)
  let ?r = "(w_key w, w_value w)"
  have bt: "batch (w # ws) = ?r # batch ws" by (simp add: batch_def)
  obtain ls1 la1 where f1: "fill_one (unat limit) ?r (ls, la) = (ls1, la1)" by fastforce
  have f2: "fill (unat limit) (batch ws) (ls1, la1) = (ls', la')" using Cons.prems(5) by (simp add: bt f1)
  note sz = fill_one_size [OF f1]
  have pre: "log_size la + rec_size ?r < 2 ^ 32" "Suc (length ls) < 2 ^ 32"
    using Cons.prems(3,4) by (simp_all add: bt)
  obtain cs1 where c1: "commit_one ext d limit (word_of_nat n0) w cs = Inr cs1" "loop_inv ext d n0 cs1 ls1 la1"
    "cs_records cs1 = cs_records cs @ [place_hint n0 (value_offset la ?r) ?r]" "cs_idx cs1 = Suc (cs_idx cs)"
    "cs_last cs1 = (if length ls1 = length ls then cs_last cs else Suc (cs_idx cs))"
    "grows d (length ls) (length ls1) (cs_disk cs) (cs_disk cs1)"
    by (rule commit_one_ok [OF Cons.prems(2) pre refl f1])
  have pre2: "log_size la1 + log_size (batch ws) < 2 ^ 32" "length ls1 + length ws < 2 ^ 32"
    using Cons.prems(3,4) sz by (simp_all add: bt)
  obtain cs' where c2: "commit_loop ext d limit (word_of_nat n0) ws cs1 = Inr cs'" "loop_inv ext d n0 cs' ls' la'"
    "cs_records cs' = cs_records cs1 @ place_hints n0 (batch ws) (fill_offsets (unat limit) (batch ws) (ls1, la1))"
    "cs_idx cs' = cs_idx cs1 + length ws"
    "if length ls' = length ls1 then cs_last cs' = cs_last cs1 \<and> la' = la1 @ batch ws
      else cs_idx cs1 < cs_last cs' \<and> cs_last cs' \<le> cs_idx cs' \<and> la' = drop (cs_last cs' - cs_idx cs1) (batch ws)"
    "grows d (length ls1) (length ls') (cs_disk cs1) (cs_disk cs')"
    by (rule Cons.IH [OF _ c1(2) pre2 f2])
  have le: "length ls \<le> length ls1" "length ls1 \<le> length ls'"
    using f1 fill_length [OF f2] by (auto simp: fill_one_def split: if_splits)
  have last: "if length ls' = length ls then cs_last cs' = cs_last cs \<and> la' = la @ batch (w # ws)
      else cs_idx cs < cs_last cs' \<and> cs_last cs' \<le> cs_idx cs' \<and> la' = drop (cs_last cs' - cs_idx cs) (batch (w # ws))"
  proof (cases "length ls' = length ls1")
    case True
    then have l: "cs_last cs' = cs_last cs1" "la' = la1 @ batch ws" using c2(5) by simp_all
    show ?thesis
    proof (cases "value_offset la ?r < unat limit")
      case True
      then have "ls1 = ls" "la1 = la @ [?r]" using f1 by (simp_all add: fill_one_def)
      then show ?thesis using l c1(5) \<open>length ls' = length ls1\<close> by (simp add: bt)
    next
      case False
      then have "ls1 = ls @ [la @ [?r]]" "la1 = []" using f1 by (simp_all add: fill_one_def)
      then show ?thesis using l c1(4,5) c2(4) \<open>length ls' = length ls1\<close> by (simp add: bt)
    qed
  next
    case False
    then have "cs_last cs' - cs_idx cs = Suc (cs_last cs' - cs_idx cs1)" using c2(5) c1(4) by auto
    then show ?thesis using False c2(4,5) c1(4) le by (auto simp: bt)
  qed
  have run: "commit_loop ext d limit (word_of_nat n0) (w # ws) cs = Inr cs'"
    by (simp add: c1(1) c2(1))
  have recs: "cs_records cs' = cs_records cs @
      place_hints n0 (batch (w # ws)) (fill_offsets (unat limit) (batch (w # ws)) (ls, la))"
    by (simp add: c2(3) c1(3) bt place_hints_def f1)
  have idx: "cs_idx cs' = cs_idx cs + length (w # ws)"
    by (simp add: c2(4) c1(4))
  show thesis
    by (rule Cons.prems(1) [OF run c2(2) recs idx last grows_trans [OF c1(6) c2(6) le]])
qed

section \<open>The publishing phase\<close>

lemma publish_one_fields:
  fixes db :: "('am, 'rm) BitcaskImpl"
  assumes "libs_ok L"
  obtains am rm where "publish_one L lw (i, w, h) db = db\<lparr>activeMap := am, recordMap := rm,
      fulfilled := fulfilled db @ [w_promise w]\<rparr>"
    and "ActiveMap_Get (lib_amap L) am = ActiveMap_Get (lib_amap L) (activeMap db) ++
      map_of (rev (drop (lw - i) [(w_key w, w_value w)]))"
    and "RecordMap_Get (lib_rmap L) rm = (RecordMap_Get (lib_rmap L) (recordMap db))(w_key w \<mapsto> h)"
proof (cases "lw \<le> i")
  case True
  show thesis
    by (rule that [where am = "ActiveMap_Put (lib_amap L) (w_key w) (w_value w) (activeMap db)"
          and rm = "RecordMap_Put (lib_rmap L) (w_key w) h (recordMap db)"])
      (use True assms in \<open>simp_all add: publish_one_def libs_ok_def active.get_put index.get_put\<close>)
next
  case False
  then have "lw - i = Suc (lw - i - 1)" by simp
  then have dr: "drop (lw - i) [(w_key w, w_value w)] = []" by (metis drop_Nil drop_Suc_Cons)
  show thesis
    by (rule that [where am = "activeMap db" and rm = "RecordMap_Put (lib_rmap L) (w_key w) h (recordMap db)"])
      (use False assms in \<open>simp_all add: publish_one_def libs_ok_def index.get_put dr\<close>)
qed

lemma publish_from:
  fixes db :: "('am, 'rm) BitcaskImpl"
  assumes "libs_ok L" and "length hs = length ws"
  shows "\<exists>am rm. fold (publish_one L lw) (zip [i..<i + length ws] (zip ws hs)) db =
      db\<lparr>activeMap := am, recordMap := rm, fulfilled := fulfilled db @ map w_promise ws\<rparr>
    \<and> ActiveMap_Get (lib_amap L) am = ActiveMap_Get (lib_amap L) (activeMap db) ++ map_of (rev (drop (lw - i) (batch ws)))
    \<and> RecordMap_Get (lib_rmap L) rm = RecordMap_Get (lib_rmap L) (recordMap db) ++ map_of (rev (zip (map w_key ws) hs))"
  using assms(2)
proof (induction ws hs arbitrary: i db rule: list_induct2')
  case 1
  show ?case by (intro exI [of _ "activeMap db"] exI [of _ "recordMap db"]) (simp add: batch_def)
next
  case (4 w ws h hs)
  obtain am rm where s: "publish_one L lw (i, w, h) db = db\<lparr>activeMap := am, recordMap := rm,
      fulfilled := fulfilled db @ [w_promise w]\<rparr>"
    "ActiveMap_Get (lib_amap L) am = ActiveMap_Get (lib_amap L) (activeMap db) ++
      map_of (rev (drop (lw - i) [(w_key w, w_value w)]))"
    "RecordMap_Get (lib_rmap L) rm = (RecordMap_Get (lib_rmap L) (recordMap db))(w_key w \<mapsto> h)"
    by (rule publish_one_fields [OF assms(1)])
  have up: "[i..<i + length (w # ws)] = i # [Suc i..<Suc i + length ws]"
    using upt_conv_Cons [of i "i + length (w # ws)"] by (simp del: upt_Suc)
  have dr: "drop (lw - i) (batch (w # ws)) =
      drop (lw - i) [(w_key w, w_value w)] @ drop (lw - Suc i) (batch ws)"
  proof (cases "lw \<le> i")
    case False
    then have "lw - i = Suc (lw - Suc i)" by simp
    then show ?thesis by (simp add: batch_def)
  qed (simp add: batch_def)
  let ?db = "db\<lparr>activeMap := am, recordMap := rm, fulfilled := fulfilled db @ [w_promise w]\<rparr>"
  obtain am' rm' where t: "fold (publish_one L lw) (zip [Suc i..<Suc i + length ws] (zip ws hs)) ?db =
      ?db\<lparr>activeMap := am', recordMap := rm', fulfilled := fulfilled ?db @ map w_promise ws\<rparr>"
    "ActiveMap_Get (lib_amap L) am' = ActiveMap_Get (lib_amap L) (activeMap ?db) ++ map_of (rev (drop (lw - Suc i) (batch ws)))"
    "RecordMap_Get (lib_rmap L) rm' = RecordMap_Get (lib_rmap L) (recordMap ?db) ++ map_of (rev (zip (map w_key ws) hs))"
    using "4.IH" [of "Suc i" ?db] "4.prems" by auto
  have "fold (publish_one L lw) (zip [i..<i + length (w # ws)] (zip (w # ws) (h # hs))) db =
      db\<lparr>activeMap := am', recordMap := rm', fulfilled := fulfilled db @ map w_promise (w # ws)\<rparr>"
    unfolding up using t(1) by (simp add: s(1))
  moreover have "ActiveMap_Get (lib_amap L) am' = ActiveMap_Get (lib_amap L) (activeMap db) ++
      map_of (rev (drop (lw - i) (batch (w # ws))))"
    using t(2) s(2) by (simp add: dr)
  moreover have "RecordMap_Get (lib_rmap L) rm' = RecordMap_Get (lib_rmap L) (recordMap db) ++
      map_of (rev (zip (map w_key (w # ws)) (h # hs)))"
    using t(3) s(3) by (simp add: map_add_upd_left)
  ultimately show ?case by blast
qed simp_all

lemma publish_fields:
  fixes db :: "('am, 'rm) BitcaskImpl"
  assumes "libs_ok L" and "length hs = length ws"
  obtains am rm where "publish L lw ws hs db =
      db\<lparr>activeMap := am, recordMap := rm, fulfilled := fulfilled db @ map w_promise ws\<rparr>"
    and "ActiveMap_Get (lib_amap L) am = ActiveMap_Get (lib_amap L) (activeMap db) ++ map_of (rev (drop lw (batch ws)))"
    and "RecordMap_Get (lib_rmap L) rm = RecordMap_Get (lib_rmap L) (recordMap db) ++ map_of (rev (zip (map w_key ws) hs))"
  using publish_from [OF assms, of lw 0 db] by (auto simp: publish_def)

section \<open>A commit extends the store\<close>

text \<open>What an engine state keeps through a commit.\<close>

definition same_client :: "('am, 'rm) BitcaskImpl \<Rightarrow> ('am, 'rm) BitcaskImpl \<Rightarrow> bool" where
  "same_client db db' \<longleftrightarrow> running db' = running db \<and> setting db' = setting db
     \<and> pending db' = pending db \<and> next_promise db' = next_promise db"

definition limit_of :: "('am, 'rm) BitcaskImpl \<Rightarrow> nat" where
  "limit_of db = unat (GetMaxFileSize (setting db))"

text \<open>
  Any batch that fits: the call returns, files and handlers are those of the filled logs, the active
  map follows the active log, and the index gets one hint per write, all with the number of the file
  that was active at the start.
\<close>

definition room_for :: "kvs list \<Rightarrow> kvs \<Rightarrow> kvs \<Rightarrow> bool" where
  "room_for ls la rs \<longleftrightarrow> log_size la + log_size rs < 2 ^ 32 \<and> length ls + length rs < 2 ^ 32"

lemma length_batch [simp]: "length (batch ws) = length ws"
  by (simp add: batch_def)

lemma map_fst_batch: "map fst (batch ws) = map w_key ws"
  by (simp add: batch_def)

lemma length_place_hints [simp]: "length (place_hints fd rs offs) = min (length rs) (length offs)"
  by (simp add: place_hints_def)

lemma fill_last_map:
  assumes "if length ls' = length ls then lw = 0 \<and> la' = la @ rs else la' = drop lw rs"
    and "m = (if length ls' = length ls then map_of (rev la) else Map.empty)"
  shows "m ++ map_of (rev (drop lw rs)) = map_of (rev la')"
  using assms by (auto split: if_splits)

lemma commit_files_ok:
  assumes "disk_ok L db ls la ord" and "room_for ls la (batch ws)"
    and "fill (limit_of db) (batch ws) (ls, la) = (ls', la')"
  obtains cs where "commit_files L ws db = Inr cs"
    and "loop_inv (lib_crc L) (GetDbPath (setting db)) (length ls) cs ls' la'"
    and "cs_records cs = place_hints (length ls) (batch ws) (fill_offsets (limit_of db) (batch ws) (ls, la))"
    and "if length ls' = length ls then cs_last cs = 0 \<and> la' = la @ batch ws else la' = drop (cs_last cs) (batch ws)"
    and "grows (GetDbPath (setting db)) (length ls) (length ls') (disk db) (cs_disk cs)"
proof -
  have start: "loop_inv (lib_crc L) (GetDbPath (setting db)) (length ls) (commit_start db) ls la"
    using assms(1) by (auto simp: loop_inv_def commit_start_def disk_ok_def handles_ok_def stable_handles_def)
  have sz: "log_size la + log_size (batch ws) < 2 ^ 32" "length ls + length ws < 2 ^ 32"
    using assms(2) by (simp_all add: room_for_def)
  obtain cs where cs: "commit_loop (lib_crc L) (GetDbPath (setting db)) (GetMaxFileSize (setting db))
        (word_of_nat (length ls)) ws (commit_start db) = Inr cs"
    "loop_inv (lib_crc L) (GetDbPath (setting db)) (length ls) cs ls' la'"
    "cs_records cs = cs_records (commit_start db) @
      place_hints (length ls) (batch ws) (fill_offsets (limit_of db) (batch ws) (ls, la))"
    "if length ls' = length ls then cs_last cs = cs_last (commit_start db) \<and> la' = la @ batch ws
      else cs_idx (commit_start db) < cs_last cs \<and> cs_last cs \<le> cs_idx cs
        \<and> la' = drop (cs_last cs - cs_idx (commit_start db)) (batch ws)"
    "grows (GetDbPath (setting db)) (length ls) (length ls') (cs_disk (commit_start db)) (cs_disk cs)"
    by (rule commit_loop_ok [OF start sz assms(3) [unfolded limit_of_def]]) (simp add: limit_of_def)
  have fd: "getActiveFD db = word_of_nat (length ls)"
    using assms(1) handles_ok_fd by (auto simp: disk_ok_def)
  show thesis
    by (rule that [of cs])
      (use cs fd in \<open>simp_all add: commit_files_def commit_start_def split: if_splits\<close>)
qed

lemma stable_insert:
  assumes "n < 2 ^ 32" and "distinct ord" and "set ord = {..<n}" and "stable_handles d ord m"
    and "loop_inv ext d n cs ls' la'" and "length ls' < 2 ^ 32"
  shows "fold insert_new (cs_new cs) m = m @ cs_new cs"
    and "stable_handles d (ord @ [n..<length ls']) (m @ cs_new cs)"
proof -
  have h2: "stable_handles d [n..<length ls'] (cs_new cs)" using assms(5) unfolding loop_inv_def by blast
  have "map fst (cs_new cs) = map word_of_nat [n..<length ls']"
    using h2 unfolding stable_handles_def by (induction rule: list_all2_induct) auto
  then have dist: "distinct (map fst (cs_new cs))"
    using assms(6) by (auto simp: distinct_map inj_on_def of_nat_u32_eq)
  have "fst ` set (cs_new cs) \<inter> fst ` set m = {}"
  proof (rule ccontr)
    assume "fst ` set (cs_new cs) \<inter> fst ` set m \<noteq> {}"
    then obtain i j where ij: "(word_of_nat i :: u32) = word_of_nat j" "n \<le> i" "i < length ls'" "j < n"
      unfolding stable_handles_dom [OF assms(4)] stable_handles_dom [OF h2] using assms(3) by auto
    have "i = j" using ij(1) by (rule of_nat_u32_eq [THEN iffD1, rotated -1]) (use ij assms(1,6) in linarith)+
    with ij(2,4) show False by simp
  qed
  from insert_new_fold [OF dist this]
  show "fold insert_new (cs_new cs) m = m @ cs_new cs" .
  show "stable_handles d (ord @ [n..<length ls']) (m @ cs_new cs)"
    by (rule stable_handles_append [OF assms(4) h2])
qed

lemma handles_ok_insert:
  assumes "handles_ok db n ord" and "loop_inv ext (GetDbPath (setting db)) n cs ls' la'" and "length ls' < 2 ^ 32"
  shows "fold insert_new (cs_new cs) (stableFiles db) = stableFiles db @ cs_new cs"
    and "stable_handles (GetDbPath (setting db)) (ord @ [n..<length ls']) (stableFiles db @ cs_new cs)"
proof -
  have "n < 2 ^ 32" "distinct ord" "set ord = {..<n}" "stable_handles (GetDbPath (setting db)) ord (stableFiles db)"
    using assms(1) unfolding handles_ok_def by blast+
  from stable_insert [OF this assms(2,3)]
  show "fold insert_new (cs_new cs) (stableFiles db) = stableFiles db @ cs_new cs"
    and "stable_handles (GetDbPath (setting db)) (ord @ [n..<length ls']) (stableFiles db @ cs_new cs)" .
qed

lemma CommitWrite_general:
  fixes L :: "('am, 'rm) libs"
  assumes "libs_ok L" and "disk_ok L db ls la ord" and "room_for ls la (batch ws)"
    and "fill (limit_of db) (batch ws) (ls, la) = (ls', la')"
  obtains db' where "CommitWrite L ws db = Inr db'" and "same_client db db'"
    and "fulfilled db' = fulfilled db @ map w_promise ws"
    and "files_ok (lib_crc L) (disk db') (GetDbPath (setting db')) ls' la'"
    and "handles_ok db' (length ls') (ord @ [length ls..<length ls'])"
    and "ActiveMap_Get (lib_amap L) (activeMap db) = map_of (rev la) \<longrightarrow>
      ActiveMap_Get (lib_amap L) (activeMap db') = map_of (rev la')"
    and "RecordMap_Get (lib_rmap L) (recordMap db') = RecordMap_Get (lib_rmap L) (recordMap db) ++ map_of (rev (
      zip (map fst (batch ws)) (place_hints (length ls) (batch ws) (fill_offsets (limit_of db) (batch ws) (ls, la)))))"
    and "grows (GetDbPath (setting db)) (length ls) (length ls') (disk db) (disk db')"
proof -
  obtain cs where cs: "commit_files L ws db = Inr cs"
    "loop_inv (lib_crc L) (GetDbPath (setting db)) (length ls) cs ls' la'"
    "cs_records cs = place_hints (length ls) (batch ws) (fill_offsets (limit_of db) (batch ws) (ls, la))"
    "if length ls' = length ls then cs_last cs = 0 \<and> la' = la @ batch ws else la' = drop (cs_last cs) (batch ws)"
    "grows (GetDbPath (setting db)) (length ls) (length ls') (disk db) (cs_disk cs)"
    by (rule commit_files_ok [OF assms(2-4)])
  have len': "length ls' < 2 ^ 32" "length ls \<le> length ls'"
    using fill_length [OF assms(4)] assms(3) by (auto simp: room_for_def)
  have new: "cs_new cs = [] \<longleftrightarrow> length ls' = length ls" using cs(2) by (auto simp: loop_inv_def)
  have h: "handles_ok db (length ls) ord" using assms(2) by (simp add: disk_ok_def)
  note ins = handles_ok_insert [OF h cs(2) len'(1)]
  define db1 where "db1 = clear_active L (cs_new cs) (insert_stable (cs_new cs)
      (db\<lparr>disk := cs_disk cs, activeFile := cs_active cs\<rparr>))"
  have len: "length (cs_records cs) = length ws" by (simp add: cs(3))
  obtain am rm where p: "publish L (cs_last cs) ws (cs_records cs) db1 =
      db1\<lparr>activeMap := am, recordMap := rm, fulfilled := fulfilled db1 @ map w_promise ws\<rparr>"
    "ActiveMap_Get (lib_amap L) am = ActiveMap_Get (lib_amap L) (activeMap db1) ++ map_of (rev (drop (cs_last cs) (batch ws)))"
    "RecordMap_Get (lib_rmap L) rm = RecordMap_Get (lib_rmap L) (recordMap db1) ++ map_of (rev (zip (map w_key ws) (cs_records cs)))"
    by (rule publish_fields [OF assms(1) len])
  have d1: "disk db1 = cs_disk cs" "activeFile db1 = cs_active cs" "setting db1 = setting db"
    "stableFiles db1 = stableFiles db @ cs_new cs" "recordMap db1 = recordMap db" "fulfilled db1 = fulfilled db"
    "running db1 = running db" "pending db1 = pending db" "next_promise db1 = next_promise db"
    by (simp_all add: db1_def clear_active_def insert_stable_def ins(1))
  have am1: "ActiveMap_Get (lib_amap L) (activeMap db1) = (if length ls' = length ls then map_of (rev la) else Map.empty)"
    if "ActiveMap_Get (lib_amap L) (activeMap db) = map_of (rev la)"
    using assms(1) that new
    by (simp add: db1_def clear_active_def insert_stable_def libs_ok_def active.get_clr)
  define db' where "db' = db1\<lparr>activeMap := am, recordMap := rm, fulfilled := fulfilled db1 @ map w_promise ws\<rparr>"
  have "ActiveMap_Get (lib_amap L) (activeMap db) = map_of (rev la) \<longrightarrow>
      ActiveMap_Get (lib_amap L) (activeMap db') = map_of (rev la')"
    unfolding db'_def using p(2) fill_last_map [OF cs(4) am1] by simp
  moreover have "RecordMap_Get (lib_rmap L) (recordMap db') = RecordMap_Get (lib_rmap L) (recordMap db) ++ map_of (rev (
      zip (map fst (batch ws)) (place_hints (length ls) (batch ws) (fill_offsets (limit_of db) (batch ws) (ls, la)))))"
    using p(3) by (simp add: db'_def d1 cs(3) map_fst_batch)
  moreover have "handles_ok db' (length ls') (ord @ [length ls..<length ls'])"
    unfolding handles_ok_def
  proof (intro conjI)
    have ord: "distinct ord" "set ord = {..<length ls}" using h unfolding handles_ok_def by blast+
    show "distinct (ord @ [length ls..<length ls'])"
      unfolding distinct_append ord(2) using ord(1) by auto
    show "set (ord @ [length ls..<length ls']) = {..<length ls'}"
      unfolding set_append ord(2) using len'(2) by auto
    show "stable_handles (GetDbPath (setting db')) (ord @ [length ls..<length ls']) (stableFiles db')"
      using ins(2) by (simp add: db'_def d1)
    show "\<exists>af. activeFile db' = Some af \<and> af_on (disk db') (db_file (GetDbPath (setting db')) (length ls')) af"
      using cs(2) unfolding loop_inv_def by (auto simp: db'_def d1)
  qed (rule len'(1))
  moreover have "CommitWrite L ws db = Inr db'"
    using cs(1) p(1) by (simp add: CommitWrite_def db1_def [symmetric] db'_def Let_def)
  moreover have "files_ok (lib_crc L) (disk db') (GetDbPath (setting db')) ls' la'"
    using cs(2) by (simp add: db'_def d1 loop_inv_def)
  ultimately show thesis using that [of db'] cs(5) by (simp add: same_client_def db'_def d1)
qed

text \<open>
  The hints a batch adds are those of its records in the file that was active at the start, provided
  only the last write rotates.
\<close>

lemma file_hints_append:
  "rotates_only_last limit rs la \<Longrightarrow>
   file_hints fd (la @ rs) = file_hints fd la @ zip (map fst rs) (place_hints fd rs (fill_offsets limit rs (ls, la)))"
proof (induction rs arbitrary: la)
  case (Cons r rs)
  have one: "file_hints fd (la @ [r]) = file_hints fd la @ [(fst r, place_hint fd (value_offset la r) r)]"
    by (simp add: file_hints_snoc place_hint_def)
  show ?case
  proof (cases "rs = []")
    case True
    then show ?thesis by (simp add: one place_hints_def)
  next
    case False
    with Cons.prems have r: "value_offset la r < limit" "rotates_only_last limit rs (la @ [r])"
      by (simp_all add: rotates_only_last_Cons)
    from Cons.IH [OF r(2)] r(1) show ?thesis by (simp add: one place_hints_def fill_one_def)
  qed
qed (simp add: place_hints_def)

lemma index_log_append:
  assumes "\<forall>j \<in> set ord. j < length ls" and "rotates_only_last limit rs la" and "fill limit rs (ls, la) = (ls', la')"
  shows "index_log ls' la' (ord @ [length ls..<length ls']) = index_log ls la ord @
    zip (map fst rs) (place_hints (length ls) rs (fill_offsets limit rs (ls, la)))"
proof -
  have same: "concat (map (\<lambda>j. file_hints j ((ls @ xs) ! j)) ord) = concat (map (\<lambda>j. file_hints j (ls ! j)) ord)" for xs
    by (rule arg_cong [of _ _ concat], rule map_cong [OF refl]) (use assms(1) in \<open>simp add: nth_append\<close>)
  show ?thesis
    using fill_only_last [OF assms(2), of ls] assms(3) file_hints_append [OF assms(2), of "length ls" ls]
    by (auto simp: index_log_def same [of "[]", simplified] same)
qed

lemma abs_log_append:
  assumes "\<forall>j \<in> set ord. j < length ls" and "fill limit rs (ls, la) = (ls', la')"
  shows "abs_log ls' la' (ord @ [length ls..<length ls']) = abs_log ls la ord @ rs"
proof -
  have pre: "take (length ls) ls' = ls" and le: "length ls \<le> length ls'"
    using fill_prefix [OF assms(2)] fill_length [OF assms(2)] by auto
  then have ls': "ls' = ls @ drop (length ls) ls'" by (metis append_take_drop_id)
  have old: "map ((!) ls') ord = map ((!) ls) ord"
  proof (rule map_cong [OF refl])
    fix j assume "j \<in> set ord"
    then show "ls' ! j = ls ! j" using assms(1) by (subst ls') (simp add: nth_append)
  qed
  have new: "map ((!) ls') [length ls..<length ls'] = drop (length ls) ls'"
    by (rule nth_equalityI) simp_all
  have "concat ls @ concat (drop (length ls) ls') @ la' = concat ls @ la @ rs"
    using fill_concat [OF assms(2)] by (subst (asm) ls') simp
  then show ?thesis unfolding abs_log_def map_append old new by simp
qed

text \<open>The commit of a batch in which only the last write may rotate keeps the store consistent.\<close>

lemma CommitWrite_store_ok:
  fixes L :: "('am, 'rm) libs"
  assumes "libs_ok L" and "store_ok L db ls la ord" and "room_for ls la (batch ws)"
    and "rotates_only_last (limit_of db) (batch ws) la" and "fill (limit_of db) (batch ws) (ls, la) = (ls', la')"
  obtains db' where "CommitWrite L ws db = Inr db'" and "same_client db db'"
    and "fulfilled db' = fulfilled db @ map w_promise ws"
    and "store_ok L db' ls' la' (ord @ [length ls..<length ls'])"
    and "grows (GetDbPath (setting db)) (length ls) (length ls') (disk db) (disk db')"
proof -
  have d: "disk_ok L db ls la ord" and ix: "index_ok L db ls la ord"
    using assms(2) by (simp_all add: store_ok_disk_ok)
  obtain db' where c: "CommitWrite L ws db = Inr db'" "same_client db db'"
    "fulfilled db' = fulfilled db @ map w_promise ws"
    "files_ok (lib_crc L) (disk db') (GetDbPath (setting db')) ls' la'"
    "handles_ok db' (length ls') (ord @ [length ls..<length ls'])"
    "ActiveMap_Get (lib_amap L) (activeMap db) = map_of (rev la) \<longrightarrow> ActiveMap_Get (lib_amap L) (activeMap db') = map_of (rev la')"
    "RecordMap_Get (lib_rmap L) (recordMap db') = RecordMap_Get (lib_rmap L) (recordMap db) ++ map_of (rev (
      zip (map fst (batch ws)) (place_hints (length ls) (batch ws) (fill_offsets (limit_of db) (batch ws) (ls, la)))))"
    "grows (GetDbPath (setting db)) (length ls) (length ls') (disk db) (disk db')"
    by (rule CommitWrite_general [OF assms(1) d assms(3,5)])
  have "store_ok L db' ls' la' (ord @ [length ls..<length ls'])"
    unfolding store_ok_def index_ok_def index_log_append [OF store_ok_ord(1) [OF assms(2)] assms(4,5)]
    using c(4-7) ix by (simp add: index_ok_def)
  from c(1-3) this c(8) show thesis by (rule that)
qed

end
