(* ===== verification/Recovery.thy ===== *)
theory Recovery
  imports Commit
begin

text \<open>
  Start-up of the engine (\<open>getActivePathInDir\<close>, \<open>RestoreStableMap\<close>, \<open>RestoreActiveMap\<close> and the
  constructor of src/BitcaskImpl.cpp) on a directory that holds the files of an earlier run: which
  files are found, the order in which they are scanned, and the view that the rebuilt index gives.
  Files may end in bytes that are not a record, as a crash leaves them.
\<close>

section \<open>The names in the database directory\<close>

definition db_name :: "nat \<Rightarrow> string" where
  "db_name i = to_string i @ ''.db''"

lemma db_file_name: "db_file d i = d @ db_name i"
  by (simp add: db_file_def db_name_def)

lemma db_name_inject [simp]: "db_name i = db_name j \<longleftrightarrow> i = j"
  by (simp add: db_name_def)

lemma inj_db_name [simp]: "inj_on db_name S"
  by (simp add: inj_on_def)

lemma digit_not_slash: "is_digit c \<Longrightarrow> c \<noteq> CHR ''/''"
  by (auto simp: is_digit_def)

lemma db_name_plain [simp]: "db_name i \<noteq> []" "CHR ''/'' \<notin> set (db_name i)"
  using to_string_digits [of i] digit_not_slash by (auto simp: db_name_def)

lemma stoul_db_name: "i < 2 ^ 64 \<Longrightarrow> stoul (db_name i) = Inr (word_of_nat i)"
  unfolding db_name_def by (rule stoul_to_string) (auto simp: is_digit_def)

text \<open>The directory of a database with the stable files \<open>0\<close> to \<open>n - 1\<close> and the active file \<open>n\<close>.\<close>

definition is_dir :: "string \<Rightarrow> bool" where
  "is_dir d \<longleftrightarrow> d \<noteq> [] \<and> last d = CHR ''/''"

definition dir_ok :: "fsys \<Rightarrow> string \<Rightarrow> nat \<Rightarrow> bool" where
  "dir_ok F d n \<longleftrightarrow> is_dir d \<and> distinct (map fst (nodes F))
     \<and> (\<forall>name. name \<noteq> [] \<longrightarrow> CHR ''/'' \<notin> set name \<longrightarrow>
          (is_regular F (d @ name) \<longleftrightarrow> (\<exists>i \<le> n. name = db_name i)))"

lemma dir_prefix_is_dir [simp]: "is_dir d \<Longrightarrow> dir_prefix d = d"
  by (simp add: is_dir_def dir_prefix_def)

lemma entry_path_db [simp]: "is_dir d \<Longrightarrow> entry_path d (db_name i) = db_file d i"
  by (simp add: entry_path_def db_file_name)

lemma path_filename_db [simp]: "is_dir d \<Longrightarrow> path_filename (db_file d i) = db_name i"
proof -
  assume "is_dir d"
  then obtain d' where d: "rev d = CHR ''/'' # d'"
    by (metis is_dir_def append_butlast_last_id rev.simps(2) rev_append rev_rev_ident append_Cons append_Nil)
  have "takeWhile (\<lambda>c. c \<noteq> CHR ''/'') (rev (db_name i) @ rev d) = rev (db_name i)"
    using db_name_plain(2) [of i] d by (subst takeWhile_append2) auto
  then show ?thesis by (simp add: path_filename_def db_file_name)
qed

text \<open>The entry that a node of the file system gives in the directory, if it gives one.\<close>

definition entry_of :: "string \<Rightarrow> string \<times> node \<Rightarrow> string list" where
  "entry_of d e = (if take (length d) (fst e) = d \<and> drop (length d) (fst e) \<noteq> []
     \<and> CHR ''/'' \<notin> set (drop (length d) (fst e)) \<and> snd e \<noteq> NonRegular then [drop (length d) (fst e)] else [])"

lemma map_filter_concat: "map f (filter P (concat xs)) = concat (map (\<lambda>x. map f (filter P x)) xs)"
  by (induction xs) auto

lemma regular_names_conv: "is_dir d \<Longrightarrow> regular_names F d = concat (map (entry_of d) (nodes F))"
proof -
  assume d: "is_dir d"
  show ?thesis
    unfolding regular_names_def dir_entries_def dir_prefix_is_dir [OF d] if_not_P [OF is_dir_def [THEN iffD1, OF d, THEN conjunct1]]
      map_filter_concat map_map
    by (rule arg_cong [of _ _ concat], rule map_cong [OF refl]) (simp add: entry_of_def Let_def split: prod.split)
qed

lemma in_entry_of:
  "name \<in> set (entry_of d e) \<longleftrightarrow> fst e = d @ name \<and> name \<noteq> [] \<and> CHR ''/'' \<notin> set name \<and> snd e \<noteq> NonRegular"
proof -
  have "fst e = d @ name \<longleftrightarrow> take (length d) (fst e) = d \<and> drop (length d) (fst e) = name"
    by (metis append_eq_conv_conj)
  then show ?thesis unfolding entry_of_def by auto
qed

lemma distinct_entry_of [simp]: "distinct (entry_of d e)"
  by (simp add: entry_of_def)

lemma distinct_entries: "distinct (map fst xs) \<Longrightarrow> distinct (concat (map (entry_of d) xs))"
proof (induction xs)
  case (Cons x xs)
  have "name \<notin> set (concat (map (entry_of d) xs))" if "name \<in> set (entry_of d x)" for name
  proof
    assume "name \<in> set (concat (map (entry_of d) xs))"
    then obtain y where "y \<in> set xs" "fst y = d @ name" by (auto simp: in_entry_of)
    moreover have "fst x = d @ name" using that by (simp add: in_entry_of)
    ultimately show False using Cons.prems by (metis distinct.simps(2) image_eqI list.map(2) list.set_map)
  qed
  then show ?case using Cons by auto
qed simp

lemma regular_names_distinct: "is_dir d \<Longrightarrow> distinct (map fst (nodes F)) \<Longrightarrow> distinct (regular_names F d)"
  by (simp only: regular_names_conv distinct_entries)

lemma in_regular_names:
  assumes "is_dir d" and "distinct (map fst (nodes F))"
  shows "name \<in> set (regular_names F d) \<longleftrightarrow> name \<noteq> [] \<and> CHR ''/'' \<notin> set name \<and> is_regular F (d @ name)"
proof -
  have mem: "(d @ name, nd) \<in> set (nodes F) \<longleftrightarrow> map_of (nodes F) (d @ name) = Some nd" for nd
    using map_of_eq_Some_iff [OF assms(2)] by blast
  have "name \<in> set (regular_names F d) \<longleftrightarrow>
      name \<noteq> [] \<and> CHR ''/'' \<notin> set name \<and> (\<exists>nd. (d @ name, nd) \<in> set (nodes F) \<and> nd \<noteq> NonRegular)"
    unfolding regular_names_conv [OF assms(1)] set_concat set_map
    by (auto simp: in_entry_of) (metis fst_conv snd_conv)
  also have "\<dots> \<longleftrightarrow> name \<noteq> [] \<and> CHR ''/'' \<notin> set name \<and> is_regular F (d @ name)"
    unfolding mem is_regular_def by (auto split: option.splits node.splits)
  finally show ?thesis .
qed

lemma regular_names_ok:
  assumes "dir_ok F d n"
  shows "distinct (regular_names F d)" and "set (regular_names F d) = db_name ` {..n}"
proof -
  show "distinct (regular_names F d)"
    using assms unfolding dir_ok_def by (blast intro: regular_names_distinct)
  have d: "is_dir d" "distinct (map fst (nodes F))" using assms unfolding dir_ok_def by blast+
  have "name \<in> set (regular_names F d) \<longleftrightarrow> name \<in> db_name ` {..n}" for name
    unfolding in_regular_names [OF d]
    using assms db_name_plain unfolding dir_ok_def by (metis atMost_iff imageE imageI)
  then show "set (regular_names F d) = db_name ` {..n}" by blast
qed

text \<open>The active file is the one with the highest number.\<close>

lemma max_fd_step_db:
  assumes "i < 2 ^ 31" shows "max_fd_step (db_name i) (int m) = int (max i m)"
proof -
  have "sint (ucast (word_of_nat i :: u64) :: u32) = int i"
    using assms by (simp add: unsigned_of_nat signed_of_nat take_bit_nat_eq_self signed_take_bit_int_eq_self)
  then show ?thesis using assms by (simp add: max_fd_step_def stoul_db_name Let_def)
qed

lemma fold_max_fd: "\<forall>i \<in> set is. i < 2 ^ 31 \<Longrightarrow> fold max_fd_step (map db_name is) (int m) = int (fold max is m)"
  by (induction "is" arbitrary: m) (simp_all add: max_fd_step_db)

lemma names_of_indices:
  assumes "set names = db_name ` S" and "distinct names"
  obtains js where "names = map db_name js" and "set js = S" and "distinct js"
proof -
  have "\<forall>name \<in> set names. \<exists>i. name = db_name i" using assms(1) by auto
  then obtain f where f: "\<forall>name \<in> set names. name = db_name (f name)" by metis
  then have m: "names = map db_name (map f names)" by (simp add: map_idI)
  moreover have "set (map f names) = S"
    using assms(1) m by (metis inj_image_eq_iff inj_db_name set_map)
  moreover have "distinct (map f names)" using assms(2) m by (metis distinct_map)
  ultimately show thesis by (rule that)
qed

lemma max_fd_ok:
  assumes "dir_ok F d n" and "n < 2 ^ 31" shows "max_fd F d = int n"
proof -
  obtain js where js: "regular_names F d = map db_name js" "set js = {..n}"
    by (rule names_of_indices [OF regular_names_ok(2,1) [OF assms(1)]])
  have "fold max js 0 = n"
  proof -
    have "fold max js 0 = Max (set (0 # js))" by (simp only: Max.set_eq_fold)
    also have "\<dots> = n" using js(2) by (intro Max_eqI) auto
    finally show ?thesis .
  qed
  then show ?thesis using fold_max_fd [of js 0] js assms(2) by (simp add: max_fd_def)
qed

lemma getActivePathInDir_ok:
  "dir_ok F d n \<Longrightarrow> n < 2 ^ 31 \<Longrightarrow> getActivePathInDir F d = db_file d n"
  by (simp add: getActivePathInDir_def max_fd_ok)

text \<open>The stable files are scanned in the order of their names as strings.\<close>

definition lex_order :: "nat \<Rightarrow> nat list" where
  "lex_order n = sort_key db_name [0..<n]"

lemma lex_order_set [simp]: "set (lex_order n) = {..<n}" "distinct (lex_order n)"
  by (auto simp: lex_order_def)

lemma scan_order:
  assumes "dir_ok F d n"
  shows "sort (filter (\<lambda>name. name \<noteq> db_name n) (regular_names F d)) = map db_name (lex_order n)"
proof (rule sorted_distinct_set_unique)
  show "sorted (map db_name (lex_order n))" by (simp add: lex_order_def)
  show "distinct (map db_name (lex_order n))" by (simp add: distinct_map)
  show "distinct (sort (filter (\<lambda>name. name \<noteq> db_name n) (regular_names F d)))"
    using regular_names_ok(1) [OF assms] by simp
  show "set (sort (filter (\<lambda>name. name \<noteq> db_name n) (regular_names F d))) = set (map db_name (lex_order n))"
    using regular_names_ok(2) [OF assms] by (auto simp: less_le)
qed simp

lemma stable_count_ok:
  assumes "dir_ok F d n" and "n < 2 ^ 64" shows "stable_count F d (db_name n) = n"
proof -
  let ?P = "\<lambda>name. name \<noteq> db_name n \<and> (case stoul name of Inl _ \<Rightarrow> False | Inr _ \<Rightarrow> True)"
  have "set (filter ?P (regular_names F d)) = db_name ` {..<n}"
    using regular_names_ok(2) [OF assms(1)] assms(2) by (auto simp: stoul_db_name less_le)
  moreover have "distinct (filter ?P (regular_names F d))" using regular_names_ok(1) [OF assms(1)] by simp
  ultimately show ?thesis
    using distinct_card [of "filter ?P (regular_names F d)"] card_image [OF inj_db_name, of "{..<n}"]
    by (simp add: stable_count_def)
qed

text \<open>A commit keeps the directory in shape.\<close>

lemma dir_ok_grows:
  assumes "dir_ok F d n" and "grows d n n' F F'" and "n \<le> n'"
  shows "dir_ok F' d n'"
proof -
  have "is_regular F' (d @ name) \<longleftrightarrow> (\<exists>i \<le> n'. name = db_name i)" if "name \<noteq> []" "CHR ''/'' \<notin> set name" for name
  proof -
    have "is_regular F' (d @ name) \<longleftrightarrow> (\<exists>i \<le> n. name = db_name i) \<or> (\<exists>i. n < i \<and> i \<le> n' \<and> name = db_name i)"
    proof -
      have "is_regular F' (d @ name) \<longleftrightarrow> is_regular F (d @ name) \<or> (\<exists>i. n < i \<and> i \<le> n' \<and> d @ name = db_file d i)"
        using assms(2) unfolding grows_def by blast
      moreover have "is_regular F (d @ name) \<longleftrightarrow> (\<exists>i \<le> n. name = db_name i)"
        using assms(1) that unfolding dir_ok_def by blast
      ultimately show ?thesis by (simp add: db_file_name)
    qed
    moreover have "i \<le> n' \<longleftrightarrow> i \<le> n \<or> n < i \<and> i \<le> n'" for i using assms(3) by auto
    ultimately show ?thesis by blast
  qed
  moreover have "is_dir d" "distinct (map fst (nodes F'))"
    using assms(1,2) unfolding dir_ok_def grows_def by blast+
  ultimately show ?thesis unfolding dir_ok_def by blast
qed

section \<open>Scanning the files\<close>

lemma feed_index:
  "feed (\<lambda>k v info. RecordMap_Put ops k (value_hint (word_of_nat j) info v)) (log_entries 0 rs) rm
     = fold (\<lambda>(k, h). RecordMap_Put ops k h) (file_hints j rs) rm"
proof -
  have "feed (\<lambda>k v info. RecordMap_Put ops k (value_hint fd info v)) (log_entries off rs) rm
     = fold (\<lambda>(k, h). RecordMap_Put ops k h) (map (\<lambda>(k, v, i). (k, value_hint fd i v)) (log_entries off rs)) rm" for off fd
    by (induction rs arbitrary: off rm) auto
  then show ?thesis by (simp add: file_hints_def)
qed

lemma feed_active:
  "feed (\<lambda>k v info (rm, am). (RecordMap_Put ops k (value_hint (word_of_nat j) info v) rm, ActiveMap_Put aops k v am))
     (log_entries 0 rs) (rm, am)
   = (fold (\<lambda>(k, h). RecordMap_Put ops k h) (file_hints j rs) rm, fold (\<lambda>(k, v). ActiveMap_Put aops k v) rs am)"
proof -
  have "feed (\<lambda>k v info (rm, am). (RecordMap_Put ops k (value_hint fd info v) rm, ActiveMap_Put aops k v am))
     (log_entries off rs) (rm, am)
   = (fold (\<lambda>(k, h). RecordMap_Put ops k h) (map (\<lambda>(k, v, i). (k, value_hint fd i v)) (log_entries off rs)) rm,
      fold (\<lambda>(k, v). ActiveMap_Put aops k v) rs am)" for off fd
    by (induction rs arbitrary: off rm am) (auto simp: case_prod_beta)
  then show ?thesis by (simp add: file_hints_def)
qed

text \<open>The loop over the stable files \<open>js\<close>, each of which holds its log and a tail.\<close>

definition scan_ok :: "crc_fn \<Rightarrow> fsys \<Rightarrow> string \<Rightarrow> kvs list \<Rightarrow> string list \<Rightarrow> nat list \<Rightarrow> bool" where
  "scan_ok ext F d ls tails js \<longleftrightarrow> (\<forall>j \<in> set js. log_file ext F (db_file d j) (ls ! j) (tails ! j) \<and> j < 2 ^ 32)"

lemma restore_stable_loop_ok:
  fixes L :: "('am, 'rm) libs"
  assumes "libs_ok L" and "is_dir d" and "scan_ok (lib_crc L) (disk db) d ls tails js"
    and "stable_handles d is (stableFiles db)" and "distinct (is @ js)" and "\<forall>i \<in> set is. i < 2 ^ 32"
  obtains rm sf where "restore_stable_loop L d (map db_name js) db = Inr (db\<lparr>recordMap := rm, stableFiles := sf\<rparr>)"
    and "stable_handles d (is @ js) sf"
    and "RecordMap_Get (lib_rmap L) rm = RecordMap_Get (lib_rmap L) (recordMap db)
      ++ map_of (rev (concat (map (\<lambda>j. file_hints j (ls ! j)) js)))"
  using assms(3-6)
proof (induction js arbitrary: "is" db thesis)
  case Nil
  show thesis
    by (rule Nil.prems(1) [where rm = "recordMap db" and sf = "stableFiles db"]) (use Nil.prems(3) in auto)
next
  case (Cons j js)
  have lf: "log_file (lib_crc L) (disk db) (db_file d j) (ls ! j) (tails ! j)" and j: "j < 2 ^ 32"
    using Cons.prems(2) by (auto simp: scan_ok_def)
  let ?rm = "fold (\<lambda>(k, h). RecordMap_Put (lib_rmap L) k h) (file_hints j (ls ! j)) (recordMap db)"
  obtain fh where fh: "StableFile_Restore (lib_crc L) (disk db) (db_file d j)
      (\<lambda>k v info. RecordMap_Put (lib_rmap L) k (value_hint (word_of_nat j) info v)) (recordMap db) = Inr (Some fh, disk db, ?rm)"
    and sf: "sf_on (db_file d j) (StableFile_Create (Some fh))"
    by (rule StableFile_Restore_log [OF lf, where x = "recordMap db" and cb =
          "\<lambda>k v info. RecordMap_Put (lib_rmap L) k (value_hint (word_of_nat j) info v)", unfolded feed_index])
  have st: "stoul (db_name j) = Inr (word_of_nat j)" using j by (simp add: stoul_db_name)
  have uc: "(ucast (word_of_nat j :: u64) :: u32) = word_of_nat j"
    using j by (simp add: unsigned_of_nat take_bit_nat_eq_self)
  have "(word_of_nat j :: u32) \<notin> fst ` set (stableFiles db)"
  proof
    assume "(word_of_nat j :: u32) \<in> fst ` set (stableFiles db)"
    then obtain i where i: "i \<in> set is" "(word_of_nat j :: u32) = word_of_nat i"
      unfolding stable_handles_dom [OF Cons.prems(3)] by blast
    then have "j = i" using Cons.prems(5) j of_nat_u32_eq by blast
    then show False using i Cons.prems(4) by simp
  qed
  then have up: "AList.update (word_of_nat j) (StableFile_Create (Some fh)) (stableFiles db)
      = stableFiles db @ [(word_of_nat j, StableFile_Create (Some fh))]"
    by (rule update_snoc)
  define db1 where "db1 = db\<lparr>recordMap := ?rm,
      stableFiles := stableFiles db @ [(word_of_nat j, StableFile_Create (Some fh))]\<rparr>"
  have h1: "stable_handles d (is @ [j]) (stableFiles db1)"
    using stable_handles_append [OF Cons.prems(3), of "[j]"] sf by (simp add: db1_def stable_handles_def)
  have sc1: "scan_ok (lib_crc L) (disk db1) d ls tails js" using Cons.prems(2) by (simp add: scan_ok_def db1_def)
  have dist1: "distinct ((is @ [j]) @ js)" and lt1: "\<forall>i \<in> set (is @ [j]). i < 2 ^ 32"
    using Cons.prems(4,5) j by auto
  obtain rm sfs where r: "restore_stable_loop L d (map db_name js) db1 = Inr (db1\<lparr>recordMap := rm, stableFiles := sfs\<rparr>)"
    "stable_handles d ((is @ [j]) @ js) sfs"
    "RecordMap_Get (lib_rmap L) rm = RecordMap_Get (lib_rmap L) (recordMap db1)
      ++ map_of (rev (concat (map (\<lambda>j. file_hints j (ls ! j)) js)))"
    by (rule Cons.IH [OF _ sc1 h1 dist1 lt1])
  have run: "restore_stable_loop L d (map db_name (j # js)) db = restore_stable_loop L d (map db_name js) db1"
    by (simp add: st uc entry_path_db [OF assms(2)] fh up Let_def db1_def)
  have maps: "RecordMap_Get (lib_rmap L) rm = RecordMap_Get (lib_rmap L) (recordMap db)
      ++ map_of (rev (concat (map (\<lambda>j. file_hints j (ls ! j)) (j # js))))"
    using r(3) index.get_fold_put [of "lib_rmap L" "file_hints j (ls ! j)" "recordMap db"] assms(1)
    by (simp add: db1_def libs_ok_def)
  show thesis
    by (rule Cons.prems(1) [where rm = rm and sf = sfs]) (use run r(1,2) maps in \<open>simp_all add: db1_def\<close>)
qed

section \<open>The constructor\<close>

text \<open>The files of a database of \<open>length ls\<close> stable logs and one active log, each with a tail.\<close>

definition dir_holds :: "crc_fn \<Rightarrow> fsys \<Rightarrow> string \<Rightarrow> kvs list \<Rightarrow> kvs \<Rightarrow> string list \<Rightarrow> string \<Rightarrow> bool" where
  "dir_holds ext F d ls la tails tail \<longleftrightarrow> dir_ok F d (length ls) \<and> length ls < 2 ^ 31
     \<and> scan_ok ext F d ls tails [0..<length ls] \<and> log_file ext F (db_file d (length ls)) la tail"

lemma log_file_begins: "log_file ext F p rs tail \<Longrightarrow> begins_with_log ext F p rs"
  by (auto simp: log_file_def begins_with_log_def)

lemma BitcaskImpl_init_simps [simp]:
  "disk (BitcaskImpl_init L s F) = F" "setting (BitcaskImpl_init L s F) = s"
  "stableFiles (BitcaskImpl_init L s F) = []" "recordMap (BitcaskImpl_init L s F) = cm_new (lib_rmap L)"
  "activeMap (BitcaskImpl_init L s F) = cm_new (lib_amap L)" "pending (BitcaskImpl_init L s F) = []"
  "fulfilled (BitcaskImpl_init L s F) = []" "next_promise (BitcaskImpl_init L s F) = 0"
  "running (BitcaskImpl_init L s F)"
  by (simp_all add: BitcaskImpl_init_def)

lemma RestoreStableMap_ok:
  fixes L :: "('am, 'rm) libs"
  assumes "libs_ok L" and "dir_holds (lib_crc L) F (GetDbPath s) ls la tails tail"
  obtains rm sf where "RestoreStableMap L (BitcaskImpl_init L s F) = Inr ((BitcaskImpl_init L s F)\<lparr>recordMap := rm, stableFiles := sf\<rparr>)"
    and "stable_handles (GetDbPath s) (lex_order (length ls)) sf"
    and "RecordMap_Get (lib_rmap L) rm = map_of (rev (concat (map (\<lambda>j. file_hints j (ls ! j)) (lex_order (length ls)))))"
proof -
  let ?d = "GetDbPath s" and ?n = "length ls" and ?db = "BitcaskImpl_init L s F"
  have d: "dir_ok F ?d ?n" "is_dir ?d" "?n < 2 ^ 31" and sc: "scan_ok (lib_crc L) F ?d ls tails [0..<?n]"
    using assms(2) unfolding dir_holds_def dir_ok_def by blast+
  have sc': "scan_ok (lib_crc L) (disk ?db) ?d ls tails (lex_order ?n)" using sc by (simp add: scan_ok_def)
  have "stable_handles ?d [] (stableFiles ?db)" by (simp add: stable_handles_def)
  then obtain rm sf where r:
    "restore_stable_loop L ?d (map db_name (lex_order ?n)) ?db = Inr (?db\<lparr>recordMap := rm, stableFiles := sf\<rparr>)"
    "stable_handles ?d ([] @ lex_order ?n) sf"
    "RecordMap_Get (lib_rmap L) rm = RecordMap_Get (lib_rmap L) (recordMap ?db)
      ++ map_of (rev (concat (map (\<lambda>j. file_hints j (ls ! j)) (lex_order ?n))))"
    by (rule restore_stable_loop_ok [OF assms(1) d(2) sc', of "[]"]) simp_all
  have "RestoreStableMap L ?db = restore_stable_loop L ?d (map db_name (lex_order ?n)) ?db"
    using d by (simp add: RestoreStableMap_def getActivePathInDir_ok scan_order Let_def)
  moreover have "RecordMap_Get (lib_rmap L) (recordMap ?db) = Map.empty"
    using assms(1) by (simp add: libs_ok_def index.get_empty)
  ultimately show thesis using that r by simp
qed

text \<open>The active file of a directory, as \<open>RestoreActiveMap\<close> finds and numbers it.\<close>

lemma RestoreActiveMap_at:
  fixes L :: "('am, 'rm) libs" and db :: "('am, 'rm) BitcaskImpl"
  defines "d \<equiv> GetDbPath (setting db)"
  assumes "libs_ok L" and "getActivePathInDir (disk db) d = db_file d n"
    and "stable_count (disk db) d (path_filename (db_file d n)) = n" and "log_file (lib_crc L) (disk db) (db_file d n) la tail"
  obtains rm am af where "RestoreActiveMap L db = Inr (True, db\<lparr>recordMap := rm, activeMap := am, activeFile := Some af\<rparr>)"
    and "af_on (disk db) (db_file d n) af"
    and "RecordMap_Get (lib_rmap L) rm = RecordMap_Get (lib_rmap L) (recordMap db) ++ map_of (rev (file_hints n la))"
    and "ActiveMap_Get (lib_amap L) am = ActiveMap_Get (lib_amap L) (activeMap db) ++ map_of (rev la)"
proof -
  let ?F = "disk db"
  let ?rm = "fold (\<lambda>(k, h). RecordMap_Put (lib_rmap L) k h) (file_hints n la) (recordMap db)"
  let ?am = "fold (\<lambda>(k, v). ActiveMap_Put (lib_amap L) k v) la (activeMap db)"
  obtain fh where fh: "ActiveFile_Restore (lib_crc L) ?F (db_file d n)
      (\<lambda>k v info (rm, am). (RecordMap_Put (lib_rmap L) k (value_hint (word_of_nat n) info v) rm,
          ActiveMap_Put (lib_amap L) k v am)) (recordMap db, activeMap db) = Inr (Some fh, ?F, ?rm, ?am)"
    and at: "at_end ?F (db_file d n) fh"
    by (rule ActiveFile_Restore_log [OF assms(5), where x = "(recordMap db, activeMap db)" and cb =
      "\<lambda>k v info (rm, am). (RecordMap_Put (lib_rmap L) k (value_hint (word_of_nat n) info v) rm,
          ActiveMap_Put (lib_amap L) k v am)", unfolded feed_active])
  have "Exist ?F (db_file d n)" using assms(5) by (simp add: log_file_def Exist_regular)
  then have "RestoreActiveMap L db = Inr (True, db\<lparr>recordMap := ?rm, activeMap := ?am,
      activeFile := Some (ActiveFile_Create (Some fh))\<rparr>)"
    using assms(3,4) fh unfolding d_def by (simp add: RestoreActiveMap_def Let_def)
  moreover have "af_on ?F (db_file d n) (ActiveFile_Create (Some fh))"
    using at by (simp add: af_on_def ActiveFile_Create_def)
  ultimately show thesis
    using that assms(2) index.get_fold_put [of "lib_rmap L"] active.get_fold_put [of "lib_amap L"]
    by (simp add: libs_ok_def)
qed

lemma RestoreActiveMap_ok:
  fixes L :: "('am, 'rm) libs" and db :: "('am, 'rm) BitcaskImpl"
  assumes "libs_ok L" and "dir_holds (lib_crc L) (disk db) (GetDbPath (setting db)) ls la tails tail"
  obtains rm am af where "RestoreActiveMap L db = Inr (True, db\<lparr>recordMap := rm, activeMap := am, activeFile := Some af\<rparr>)"
    and "af_on (disk db) (db_file (GetDbPath (setting db)) (length ls)) af"
    and "RecordMap_Get (lib_rmap L) rm = RecordMap_Get (lib_rmap L) (recordMap db) ++ map_of (rev (file_hints (length ls) la))"
    and "ActiveMap_Get (lib_amap L) am = ActiveMap_Get (lib_amap L) (activeMap db) ++ map_of (rev la)"
proof -
  have d: "dir_ok (disk db) (GetDbPath (setting db)) (length ls)" "is_dir (GetDbPath (setting db))" "length ls < 2 ^ 31"
    and lf: "log_file (lib_crc L) (disk db) (db_file (GetDbPath (setting db)) (length ls)) la tail"
    using assms(2) unfolding dir_holds_def dir_ok_def by blast+
  show thesis
    by (rule RestoreActiveMap_at [OF assms(1) _ _ lf]) (use d in \<open>simp_all add: getActivePathInDir_ok stable_count_ok that\<close>)
qed

text \<open>
  What a start on such a directory gives: the logs in the order of the file names, then the active
  one; the tails are not seen. The file system is not written.
\<close>

lemma BitcaskImpl_new_readable:
  fixes L :: "('am, 'rm) libs"
  assumes "libs_ok L" and "dir_holds (lib_crc L) F (GetDbPath s) ls la tails tail"
  obtains db where "BitcaskImpl_new L s F = Inr db"
    and "readable_ok L db ls la (lex_order (length ls))"
    and "disk db = F" and "setting db = s" and "running db" and "pending db = []" and "fulfilled db = []"
    and "next_promise db = 0"
proof -
  let ?d = "GetDbPath s" and ?n = "length ls" and ?o = "lex_order (length ls)" and ?db = "BitcaskImpl_init L s F"
  obtain rm sf where st: "RestoreStableMap L ?db = Inr (?db\<lparr>recordMap := rm, stableFiles := sf\<rparr>)"
    "stable_handles ?d ?o sf"
    "RecordMap_Get (lib_rmap L) rm = map_of (rev (concat (map (\<lambda>j. file_hints j (ls ! j)) ?o)))"
    by (rule RestoreStableMap_ok [OF assms])
  let ?db1 = "?db\<lparr>recordMap := rm, stableFiles := sf\<rparr>"
  have dh: "dir_holds (lib_crc L) (disk ?db1) (GetDbPath (setting ?db1)) ls la tails tail" using assms(2) by simp
  obtain rm' am af where ac: "RestoreActiveMap L ?db1 =
      Inr (True, ?db1\<lparr>recordMap := rm', activeMap := am, activeFile := Some af\<rparr>)"
    "af_on (disk ?db1) (db_file (GetDbPath (setting ?db1)) ?n) af"
    "RecordMap_Get (lib_rmap L) rm' = RecordMap_Get (lib_rmap L) (recordMap ?db1) ++ map_of (rev (file_hints ?n la))"
    "ActiveMap_Get (lib_amap L) am = ActiveMap_Get (lib_amap L) (activeMap ?db1) ++ map_of (rev la)"
    by (rule RestoreActiveMap_ok [OF assms(1) dh])
  let ?r = "?db1\<lparr>recordMap := rm', activeMap := am, activeFile := Some af\<rparr>"
  have new: "BitcaskImpl_new L s F = Inr ?r" by (simp add: BitcaskImpl_new_def st(1) ac(1))
  have ix: "index_ok L ?r ls la ?o"
    using ac(3,4) st(3) assms(1) by (simp add: index_ok_def index_log_def libs_ok_def active.get_empty)
  have lt: "?n < 2 ^ 31" using assms(2) by (simp add: dir_holds_def)
  have h: "handles_ok ?r ?n ?o"
    using st(2) ac(2) lt unfolding handles_ok_def by simp
  have b: "begins_with_log (lib_crc L) F (db_file ?d i) ((ls @ [la]) ! i)" if "i \<le> ?n" for i
    using assms(2) that by (cases "i = ?n") (auto simp: dir_holds_def scan_ok_def nth_append intro: log_file_begins)
  have "readable_ok L ?r ls la ?o" using b h ix by (simp add: readable_ok_def)
  with new show thesis by (rule that) simp_all
qed

text \<open>Without tails the recovered engine satisfies the invariant.\<close>

lemma readable_ok_store_ok:
  assumes "readable_ok L db ls la ord"
    and "files_ok (lib_crc L) (disk db) (GetDbPath (setting db)) ls la"
  shows "store_ok L db ls la ord"
  using assms by (simp add: readable_ok_def store_ok_def)

lemma files_ok_dir_holds:
  assumes "files_ok ext F d ls la" and "dir_ok F d (length ls)" and "length ls < 2 ^ 31"
  shows "dir_holds ext F d ls la (replicate (length ls) []) []"
proof -
  have lf: "log_file ext F (db_file d i) rs []" if "holds_log ext F (db_file d i) rs" for i rs
    using that usable_dir_file(1) [of F d i] assms(1) by (simp add: holds_log_def log_file_def files_ok_def)
  have "log_file ext F (db_file d i) (ls ! i) []" if "i < length ls" for i
    using assms(1) that unfolding files_ok_def by (blast intro: lf)
  moreover have "log_file ext F (db_file d (length ls)) la []"
    using assms(1) unfolding files_ok_def by (blast intro: lf)
  ultimately show ?thesis using assms(2,3) by (auto simp: dir_holds_def scan_ok_def)
qed

text \<open>Closing a consistent store and starting again: only the order of the stable files may differ.\<close>

lemma restart_ok:
  fixes L :: "('am, 'rm) libs"
  assumes "libs_ok L" and "files_ok (lib_crc L) F (GetDbPath s) ls la" and "dir_ok F (GetDbPath s) (length ls)"
    and "length ls < 2 ^ 31"
  obtains db where "BitcaskImpl_new L s F = Inr db" and "store_ok L db ls la (lex_order (length ls))"
    and "disk db = F" and "setting db = s" and "running db" and "pending db = []" and "fulfilled db = []"
proof -
  obtain db where "BitcaskImpl_new L s F = Inr db" "readable_ok L db ls la (lex_order (length ls))"
    "disk db = F" "setting db = s" "running db" "pending db = []" "fulfilled db = []"
    by (rule BitcaskImpl_new_readable [OF assms(1) files_ok_dir_holds [OF assms(2-4)]])
  then show thesis using that readable_ok_store_ok [of L db ls la] assms(2) by simp
qed

text \<open>Up to ten stable files the order of the names is the order of the numbers.\<close>

lemma lex_order_small:
  assumes "n \<le> 10" shows "lex_order n = [0..<n]"
proof -
  have "sorted (map db_name [0..<10])"
    by (simp add: upt_rec db_name_def to_string.simps digit_def less_char_def)
  moreover have "map db_name [0..<n] = take n (map db_name [0..<10])"
    using assms by (simp add: take_map)
  ultimately have "sorted (map db_name [0..<n])"
    by (simp only: sorted_wrt_take)
  then show ?thesis by (simp add: lex_order_def sort_key_id_if_sorted)
qed

section \<open>Starting in an empty directory\<close>

definition fresh_dir :: "fsys \<Rightarrow> string \<Rightarrow> bool" where
  "fresh_dir F d \<longleftrightarrow> is_dir d \<and> usable_dir F d \<and> distinct (map fst (nodes F))
     \<and> (\<forall>name. name \<noteq> [] \<longrightarrow> CHR ''/'' \<notin> set name \<longrightarrow> \<not> is_regular F (d @ name))"

lemma regular_names_fresh:
  assumes "fresh_dir F d" shows "regular_names F d = []"
proof -
  have d: "is_dir d" "distinct (map fst (nodes F))" using assms unfolding fresh_dir_def by blast+
  have "name \<notin> set (regular_names F d)" for name
    using assms in_regular_names [OF d, of name] unfolding fresh_dir_def by blast
  then show ?thesis by (metis last_in_set)
qed

text \<open>A start that finds no file creates the one of number zero.\<close>

lemma start_new_file:
  fixes L :: "('am, 'rm) libs"
  assumes "libs_ok L" and "usable_dir F (GetDbPath s)" and "regular_names F (GetDbPath s) = []"
    and "\<not> is_regular F (db_file (GetDbPath s) 0)"
  obtains db where "BitcaskImpl_new L s F = Inr db" and "store_ok L db [] [] []"
    and "disk db = put_file (db_file (GetDbPath s) 0) [] F" and "setting db = s" and "running db"
    and "pending db = []" and "fulfilled db = []" and "next_promise db = 0"
proof -
  let ?d = "GetDbPath s" and ?p = "db_file (GetDbPath s) 0" and ?db = "BitcaskImpl_init L s F"
  have act: "getActivePathInDir F ?d = ?p" by (simp add: getActivePathInDir_def max_fd_def assms(3))
  have ex: "\<not> Exist F ?p"
    using usable_dir_file(2) [OF assms(2), of 0] assms(4)
    by (simp add: Exist_def is_regular_def split: option.splits node.splits)
  obtain af where af: "ActiveFile_Create_path F ?p = (Some af, put_file ?p [] F)" "af_on (put_file ?p [] F) ?p af"
    by (rule ActiveFile_Create_path_new [OF usable_dir_file(2,1) [OF assms(2), of 0]])
  have stable: "RestoreStableMap L ?db = Inr ?db"
    by (simp add: RestoreStableMap_def assms(3) Let_def)
  let ?r = "?db\<lparr>disk := put_file ?p [] F, activeFile := Some af\<rparr>"
  have active: "RestoreActiveMap L ?db = Inr (True, ?r)"
    by (simp add: RestoreActiveMap_def act ex af(1) Let_def)
  have new: "BitcaskImpl_new L s F = Inr ?r" by (simp add: BitcaskImpl_new_def stable active)
  have f: "files_ok (lib_crc L) (put_file ?p [] F) ?d [] []"
    using usable_dir_same_but [OF assms(2) same_but_put, of ?p "[]"] by (simp add: files_ok_def holds_log_def)
  have "store_ok L ?r [] [] []"
    using f af(2) assms(1)
    by (simp add: store_ok_def handles_ok_def index_ok_def index_log_def stable_handles_def libs_ok_def
        index.get_empty active.get_empty)
  with new show thesis by (intro that [of ?r]) simp_all
qed

lemma start_fresh:
  fixes L :: "('am, 'rm) libs"
  assumes "libs_ok L" and "fresh_dir F (GetDbPath s)"
  obtains db where "BitcaskImpl_new L s F = Inr db" and "store_ok L db [] [] []"
    and "disk db = put_file (db_file (GetDbPath s) 0) [] F" and "setting db = s" and "running db"
    and "pending db = []" and "fulfilled db = []" and "next_promise db = 0" and "dir_ok (disk db) (GetDbPath s) 0"
proof -
  let ?d = "GetDbPath s" and ?p = "db_file (GetDbPath s) 0"
  have d: "is_dir ?d" "usable_dir F ?d" "distinct (map fst (nodes F))"
    and nr: "name \<noteq> [] \<Longrightarrow> CHR ''/'' \<notin> set name \<Longrightarrow> \<not> is_regular F (?d @ name)" for name
    using assms(2) unfolding fresh_dir_def by blast+
  have "is_regular (put_file ?p [] F) (?d @ name) \<longleftrightarrow> (\<exists>i \<le> 0. name = db_name i)"
    if "name \<noteq> []" "CHR ''/'' \<notin> set name" for name
    using nr [OF that] by (auto simp: db_file_name)
  then have dir: "dir_ok (put_file ?p [] F) ?d 0"
    using d(1,3) by (simp add: dir_ok_def)
  have "\<not> is_regular F ?p" using nr [of "db_name 0"] by (simp add: db_file_name)
  then show thesis
    by (rule start_new_file [OF assms(1) d(2) regular_names_fresh [OF assms(2)]]) (use dir in \<open>simp add: that\<close>)
qed

section \<open>A file name that is not a number\<close>

lemma stoul_faults: "stoul name = Inl e \<Longrightarrow> e \<in> {InvalidArgument, OutOfRange}"
  by (auto simp: stoul_def Let_def split: prod.splits if_splits)

lemma StableFile_Restore_returns:
  assumes "length (file_content F p) < 2 ^ 32"
  obtains r x' where "StableFile_Restore ext F p cb x = Inr (r, F, x')"
proof (cases "Exist F p \<and> is_regular F p \<and> p \<notin> set (denied F)")
  case True
  then have o: "OpenFile F new_fstream p {ios_binary, ios_in} = (True, F, st_opened p False new_fstream)"
    using OpenFile_in by blast
  have r: "ready p ((st_opened p False new_fstream)\<lparr>st_pos := 0\<rparr>)" by simp
  have seek: "st_seekg 0 (st_opened p False new_fstream) = (st_opened p False new_fstream)\<lparr>st_pos := 0\<rparr>"
    by (simp add: st_seekg_def Let_def st_opened_def st_good_def is_open_def new_fstream_def)
  obtain s' x' where "ReadAllRecordFromFile ext F cb (st_opened p False new_fstream) x = Some (s', x')"
    using read_loop_terminates [OF r assms, of ext cb x]
    by (auto simp: ReadAllRecordFromFile_def seek)
  then show thesis
    using that True o
    by (simp add: StableFile_Restore_def is_open_def st_good_def st_opened_def new_fstream_def)
next
  case False
  then have "\<not> Exist F p \<or> (\<exists>s. OpenFile F new_fstream p {ios_binary, ios_in} = (False, F, s))"
    by (auto simp: OpenFile_def open_stream_def is_open_def new_fstream_def)
  then have "StableFile_Restore ext F p cb x = Inr (None, F, x)"
    by (elim disjE exE) (simp_all add: StableFile_Restore_def Let_def)
  then show thesis by (rule that)
qed

lemma restore_stable_loop_numeric:
  fixes L :: "('am, 'rm) libs"
  assumes "\<forall>p. length (file_content (disk db) p) < 2 ^ 32" and "name \<in> set names" and "stoul name = Inl e"
  shows "restore_stable_loop L d names db \<in> {Inl InvalidArgument, Inl OutOfRange}"
  using assms(1,2)
proof (induction names arbitrary: db)
  case (Cons a names)
  show ?case
  proof (cases "stoul a")
    case (Inl e')
    then show ?thesis using stoul_faults by auto
  next
    case (Inr m)
    let ?cb = "\<lambda>k v info. RecordMap_Put (lib_rmap L) k (value_hint (ucast m) info v)"
    have "length (file_content (disk db) (entry_path d a)) < 2 ^ 32" using Cons.prems(1) by blast
    then obtain r x' where "StableFile_Restore (lib_crc L) (disk db) (entry_path d a) ?cb (recordMap db) = Inr (r, disk db, x')"
      by (rule StableFile_Restore_returns)
    moreover have "name \<in> set names" using Cons.prems(2) Inr assms(3) by auto
    ultimately show ?thesis
      using Cons.IH Cons.prems(1) Inr by (simp add: Let_def)
  qed
qed simp

lemma max_fd_bounds: "0 \<le> max_fd F d \<and> max_fd F d < 2 ^ 31"
proof -
  have "0 \<le> fold max_fd_step names m \<and> fold max_fd_step names m < 2 ^ 31" if "0 \<le> m \<and> m < 2 ^ 31" for names m
    using that
  proof (induction names arbitrary: m)
    case (Cons a names)
    have "0 \<le> max_fd_step a m \<and> max_fd_step a m < 2 ^ 31"
      using Cons.prems sint_lt [of "ucast n :: u32" for n]
      by (auto simp: max_fd_step_def Let_def split: sum.splits)
    then show ?case using Cons.IH by simp
  qed simp
  then show ?thesis by (simp add: max_fd_def)
qed

lemma start_with_junk:
  fixes L :: "('am, 'rm) libs"
  assumes "is_dir (GetDbPath s)" and "\<forall>p. length (file_content F p) < 2 ^ 32"
    and "name \<in> set (regular_names F (GetDbPath s))" and "stoul name = Inl e"
  shows "BitcaskImpl_new L s F \<in> {Inl InvalidArgument, Inl OutOfRange}"
proof -
  let ?d = "GetDbPath s" and ?db = "BitcaskImpl_init L s F"
  let ?n = "nat (max_fd F ?d)"
  have "?n < 2 ^ 64" using max_fd_bounds [of F ?d] by (simp add: nat_less_iff)
  then have "stoul (db_name ?n) = Inr (word_of_nat ?n)" by (rule stoul_db_name)
  then have "name \<noteq> db_name ?n" using assms(4) by auto
  then have "name \<in> set (sort (filter (\<lambda>x. x \<noteq> db_name ?n) (regular_names F ?d)))"
    using assms(3) by simp
  then have "restore_stable_loop L ?d (sort (filter (\<lambda>x. x \<noteq> db_name ?n) (regular_names F ?d))) ?db
      \<in> {Inl InvalidArgument, Inl OutOfRange}"
    by (rule restore_stable_loop_numeric [rotated]) (use assms(2,4) in simp_all)
  moreover have "RestoreStableMap L ?db =
      restore_stable_loop L ?d (sort (filter (\<lambda>x. x \<noteq> db_name ?n) (regular_names F ?d))) ?db"
    using assms(1) by (simp add: RestoreStableMap_def getActivePathInDir_def Let_def)
  ultimately show ?thesis by (auto simp: BitcaskImpl_new_def)
qed

section \<open>The file system with the files of given logs\<close>

definition disk_of :: "crc_fn \<Rightarrow> string \<Rightarrow> kvs list \<Rightarrow> kvs \<Rightarrow> fsys" where
  "disk_of ext d ls la = \<lparr>nodes = map (\<lambda>i. (db_file d i, Regular (enc_log ext ((ls @ [la]) ! i)))) [0..<Suc (length ls)],
     denied = []\<rparr>"

lemma disk_of_distinct: "distinct (map fst (nodes (disk_of ext d ls la)))"
  by (auto simp: disk_of_def distinct_map inj_on_def comp_def simp del: upt_Suc)

lemma map_of_disk_of:
  "map_of (nodes (disk_of ext d ls la)) p = Some nd \<longleftrightarrow>
     (\<exists>i \<le> length ls. p = db_file d i \<and> nd = Regular (enc_log ext ((ls @ [la]) ! i)))"
proof -
  show ?thesis
    using disk_of_distinct [of ext d ls la] by (subst map_of_eq_Some_iff) (auto simp: disk_of_def less_Suc_eq_le simp del: upt_Suc)
qed

lemma disk_of_file:
  "i \<le> length ls \<Longrightarrow> is_regular (disk_of ext d ls la) (db_file d i)
     \<and> file_content (disk_of ext d ls la) (db_file d i) = enc_log ext ((ls @ [la]) ! i)"
proof -
  assume "i \<le> length ls"
  then have "map_of (nodes (disk_of ext d ls la)) (db_file d i) = Some (Regular (enc_log ext ((ls @ [la]) ! i)))"
    unfolding map_of_disk_of by blast
  then show ?thesis by (simp add: is_regular_def file_content_def)
qed

lemma disk_of_files_ok:
  assumes "\<forall>rs \<in> set (ls @ [la]). log_size rs < 2 ^ 32"
  shows "files_ok ext (disk_of ext d ls la) d ls la"
proof -
  have "usable_dir (disk_of ext d ls la) d"
    unfolding usable_dir_def map_of_disk_of by (simp add: disk_of_def)
  moreover have "holds_log ext (disk_of ext d ls la) (db_file d i) ((ls @ [la]) ! i)" if "i \<le> length ls" for i
    using disk_of_file [OF that, of ext d la] assms that
    by (metis holds_log_def le_imp_less_Suc length_append_singleton nth_mem)
  ultimately show ?thesis
    unfolding files_ok_def by (metis less_imp_le nth_append nth_append_length order.refl)
qed

lemma disk_of_dir_ok:
  assumes "is_dir d" shows "dir_ok (disk_of ext d ls la) d (length ls)"
proof -
  have "is_regular (disk_of ext d ls la) (d @ name) \<longleftrightarrow> (\<exists>i \<le> length ls. name = db_name i)" for name
    unfolding is_regular_map_of map_of_disk_of
    using disk_of_file [of _ ls ext d la] by (auto simp: db_file_name)
  then show ?thesis using assms disk_of_distinct [of ext d ls la] by (simp add: dir_ok_def)
qed

lemmas disk_of_ok = disk_of_files_ok disk_of_dir_ok

text \<open>Another log and a tail in the active file, as a crash in the middle of a write leaves them.\<close>

lemma dir_holds_torn_log:
  assumes "files_ok ext F d ls la" and "dir_ok F d (length ls)" and "length ls < 2 ^ 31"
    and "tail_stops ext tail" and "log_size la' + length tail < 2 ^ 32"
  shows "dir_holds ext (put_file (db_file d (length ls)) (enc_log ext la' @ tail) F) d ls la' (replicate (length ls) []) tail"
proof -
  let ?p = "db_file d (length ls)" and ?G = "put_file (db_file d (length ls)) (enc_log ext la' @ tail) F"
  have dh: "dir_holds ext F d ls la (replicate (length ls) []) []" by (rule files_ok_dir_holds [OF assms(1-3)])
  have "grows d (length ls) (length ls) F ?G"
    using assms(1) by (intro grows_same_but [OF same_but_put]) (auto simp: files_ok_def holds_log_def)
  then have "dir_ok ?G d (length ls)" by (rule dir_ok_grows [OF assms(2)]) simp
  moreover have "scan_ok ext ?G d ls (replicate (length ls) []) [0..<length ls]"
    using dh by (auto simp: dir_holds_def scan_ok_def log_file_def)
  moreover have "log_file ext ?G ?p la' tail"
    using dh assms(4,5) by (simp add: dir_holds_def log_file_def)
  ultimately show ?thesis using assms(3) by (simp add: dir_holds_def)
qed

lemmas dir_holds_torn = dir_holds_torn_log [where la' = la and la = la for la]

section \<open>Properties of a restart\<close>

text \<open>C13. A start on a directory whose files each hold a log, whatever bytes that are no record follow
  it, succeeds, leaves the files as they are, and every \<open>Get\<close> returns the last write of its key in the
  stable logs, in the order of the file names, and the active log, and nothing if that is a tombstone.\<close>

theorem recovery_view:
  assumes "libs_ok L" and "dir_holds (lib_crc L) F (GetDbPath s) ls la tails tail"
  shows "\<exists>db. BitcaskImpl_new L s F = Inr db \<and> disk db = F
     \<and> (\<forall>k. \<exists>db'. Get L k db = Inr (abs_get (abs_log ls la (lex_order (length ls))) k, db'))"
proof -
  obtain db where db: "BitcaskImpl_new L s F = Inr db" "readable_ok L db ls la (lex_order (length ls))" "disk db = F"
    by (rule BitcaskImpl_new_readable [OF assms])
  have "\<exists>db'. Get L k db = Inr (abs_get (abs_log ls la (lex_order (length ls))) k, db')" for k
    using Get_readable [OF db(2), of k] by blast
  with db show ?thesis by blast
qed

theorem recovery_view_witness:
  "\<exists>db db'. BitcaskImpl_new example_libs (Setting_of_path ''db/'')
     (put_file (db_file ''db/'' 1) (enc_log sum_crc [(''b'', ''2'')] @ ''torn'')
       (disk_of sum_crc ''db/'' [[(''a'', ''1'')]] [(''b'', ''2'')])) = Inr db
     \<and> Get example_libs ''a'' db = Inr (Some ''1'', db')"
proof -
  let ?ls = "[[(''a'', ''1'')]]" and ?la = "[(''b'', ''2'')]" and ?s = "Setting_of_path ''db/''"
  have d: "GetDbPath ?s = ''db/''" "lib_crc example_libs = sum_crc"
    by (simp_all add: GetDbPath_def Setting_of_path_def Setting_new_def example_libs_def)
  have f: "files_ok sum_crc (disk_of sum_crc ''db/'' ?ls ?la) ''db/'' ?ls ?la"
    by (rule disk_of_files_ok) (simp add: rec_size_def header_size_def)
  have dir: "dir_ok (disk_of sum_crc ''db/'' ?ls ?la) ''db/'' (length ?ls)"
    by (rule disk_of_dir_ok) (simp add: is_dir_def)
  have "dir_holds sum_crc (put_file (db_file ''db/'' (length ?ls)) (enc_log sum_crc ?la @ ''torn'')
      (disk_of sum_crc ''db/'' ?ls ?la)) ''db/'' ?ls ?la (replicate (length ?ls) []) ''torn''"
    by (rule dir_holds_torn [OF f dir]) (simp_all add: tail_stops_def header_size_def rec_size_def)
  then have "dir_holds (lib_crc example_libs) (put_file (db_file ''db/'' 1) (enc_log sum_crc ?la @ ''torn'')
      (disk_of sum_crc ''db/'' ?ls ?la)) (GetDbPath ?s) ?ls ?la (replicate (length ?ls) []) ''torn''"
    by (simp add: d)
  note view = recovery_view [OF libs_ok_example this]
  have "abs_get (abs_log ?ls ?la (lex_order (length ?ls))) ''a'' = Some ''1''"
    by (simp add: lex_order_small abs_log_def abs_get_def last_write_def visible_def TOMBSTONE_def)
  with view show ?thesis by metis
qed

text \<open>C22. With eleven stable files the restart scans file 10 before file 2: a key that was written to file 2
  and overwritten in file 10 has its old value again.\<close>

theorem restart_stale:
  assumes "libs_ok L" and "files_ok (lib_crc L) F (GetDbPath s) ls la" and "dir_ok F (GetDbPath s) 11"
    and "length ls = 11" and "last_write (ls ! 2) k = Some old" and "last_write (ls ! 10) k = Some new"
    and "\<forall>j \<in> {3..9}. last_write (ls ! j) k = None" and "last_write la k = None"
  shows "abs_get (concat ls @ la) k = visible (Some new)
     \<and> (\<exists>db db'. BitcaskImpl_new L s F = Inr db \<and> Get L k db = Inr (visible (Some old), db'))"
proof -
  have ord: "lex_order 11 = [0, 1, 10, 2, 3, 4, 5, 6, 7, 8, 9]"
    by (simp add: lex_order_def upt_rec db_name_def to_string.simps digit_def less_char_def)
  have len: "length ls < 2 ^ 31" "dir_ok F (GetDbPath s) (length ls)" using assms(3,4) by simp_all
  obtain db where db: "BitcaskImpl_new L s F = Inr db" "store_ok L db ls la (lex_order (length ls))"
    by (rule restart_ok [OF assms(1,2) len(2,1)])
  have gap: "last_write (ls ! 3) k = None" "last_write (ls ! 4) k = None" "last_write (ls ! 5) k = None"
    "last_write (ls ! 6) k = None" "last_write (ls ! 7) k = None" "last_write (ls ! 8) k = None"
    "last_write (ls ! 9) k = None"
    using assms(7) by simp_all
  have "last_write (abs_log ls la (lex_order 11)) k = Some old"
    unfolding ord abs_log_def using gap assms(5,8) by (simp add: last_write_append)
  moreover have "last_write (concat ls @ la) k = Some new"
  proof -
    have "concat ls = concat (map ((!) ls) [0..<11])" using concat_nth_upt [of ls] assms(4) by simp
    also have "\<dots> = concat (map ((!) ls) [0..<10]) @ ls ! 10"
      by (simp add: upt_rec numeral_eq_Suc)
    finally show ?thesis using assms(6,8) by (simp add: last_write_append)
  qed
  ultimately show ?thesis
    using db Get_readable [OF store_ok_readable [OF db(2)], of k] assms(4)
    by (auto simp: abs_get_def)
qed

theorem restart_stale_witness:
  "\<exists>db db'. BitcaskImpl_new example_libs (Setting_of_path ''db/'')
     (disk_of sum_crc ''db/'' [[], [], [(''k'', ''old'')], [], [], [], [], [], [], [], [(''k'', ''new'')]] []) = Inr db
     \<and> Get example_libs ''k'' db = Inr (Some ''old'', db')"
proof -
  let ?ls = "[[], [], [(''k'', ''old'')], [], [], [], [], [], [], [], [(''k'', ''new'')]]" and ?s = "Setting_of_path ''db/''"
  let ?F = "disk_of sum_crc ''db/'' ?ls []"
  have d: "GetDbPath ?s = ''db/''" "lib_crc example_libs = sum_crc"
    by (simp_all add: GetDbPath_def Setting_of_path_def Setting_new_def example_libs_def)
  have f: "files_ok (lib_crc example_libs) ?F (GetDbPath ?s) ?ls []"
    unfolding d by (rule disk_of_files_ok) (simp add: rec_size_def header_size_def)
  have dir: "dir_ok ?F (GetDbPath ?s) 11"
    using disk_of_dir_ok [of "''db/''" sum_crc ?ls "[]"] by (simp add: is_dir_def d numeral_eq_Suc)
  have mid: "{3..9} = {3, 4, 5, 6, 7, 8, 9 :: nat}" by auto
  have "visible (Some ''old'') = Some ''old''" by (simp add: visible_def TOMBSTONE_def)
  moreover have "\<exists>db db'. BitcaskImpl_new example_libs ?s ?F = Inr db \<and> Get example_libs ''k'' db = Inr (visible (Some ''old''), db')"
    by (rule restart_stale [where new = "''new''", OF libs_ok_example f dir, THEN conjunct2])
      (simp_all add: mid last_write_def)
  ultimately show ?thesis by simp
qed

text \<open>A start in a directory without files creates the empty active file \<open>0.db\<close> and an engine in
  which every key is absent.\<close>

lemma fresh_start:
  assumes "libs_ok L" and "fresh_dir F (GetDbPath s)"
  shows "\<exists>db. BitcaskImpl_new L s F = Inr db \<and> disk db = put_file (GetDbPath s @ ''0.db'') [] F
     \<and> (\<forall>k. Get L k db = Inr (None, db))"
proof -
  obtain db where db: "BitcaskImpl_new L s F = Inr db" "store_ok L db [] [] []" "disk db = put_file (db_file (GetDbPath s) 0) [] F"
    by (rule start_fresh [OF assms])
  have "Get L k db = Inr (None, db)" for k
    using index_ok_lookup(1) [of L db "[]" "[]" "[]" k] db(2)
    by (simp add: store_ok_def Get_def index_log_def)
  moreover have "db_file (GetDbPath s) 0 = GetDbPath s @ ''0.db''"
    by (simp add: db_file_def to_string.simps digit_def) code_simp
  ultimately show ?thesis using db by auto
qed

lemma fresh_start_example:
  "\<exists>db. BitcaskImpl_new example_libs (Setting_of_path ''db/'') \<lparr>nodes = [], denied = []\<rparr> = Inr db
     \<and> Get example_libs ''k'' db = Inr (None, db)"
proof -
  have "fresh_dir \<lparr>nodes = [], denied = []\<rparr> (GetDbPath (Setting_of_path ''db/''))"
    by (simp add: fresh_dir_def is_dir_def usable_dir_def is_regular_def GetDbPath_def Setting_of_path_def Setting_new_def)
  from fresh_start [OF libs_ok_example this] show ?thesis by blast
qed

text \<open>C30. A regular file in the directory whose name does not begin with a number makes the constructor
  throw: \<open>RestoreStableMap\<close> converts every name but that of the active file without a guard.\<close>

theorem junk_file_throws:
  assumes "is_dir (GetDbPath s)" and "\<forall>p. length (file_content F p) < 2 ^ 32"
    and "name \<in> set (regular_names F (GetDbPath s))" and "stoul name = Inl e"
  shows "BitcaskImpl_new L s F \<in> {Inl InvalidArgument, Inl OutOfRange}"
  by (rule start_with_junk [OF assms])

theorem junk_file_throws_witness:
  "BitcaskImpl_new example_libs (Setting_of_path ''db/'')
     \<lparr>nodes = [(''db/notes.txt'', Regular [])], denied = []\<rparr> \<in> {Inl InvalidArgument, Inl OutOfRange}"
proof (rule junk_file_throws)
  show "is_dir (GetDbPath (Setting_of_path ''db/''))"
    by (simp add: is_dir_def GetDbPath_def Setting_of_path_def Setting_new_def)
  show "\<forall>p. length (file_content \<lparr>nodes = [(''db/notes.txt'', Regular [])], denied = []\<rparr> p) < 2 ^ 32"
    by (simp add: file_content_def)
  show "''notes.txt'' \<in> set (regular_names \<lparr>nodes = [(''db/notes.txt'', Regular [])], denied = []\<rparr>
      (GetDbPath (Setting_of_path ''db/'')))"
    by (simp add: regular_names_def dir_entries_def dir_prefix_def GetDbPath_def Setting_of_path_def Setting_new_def)
  show "stoul ''notes.txt'' = Inl InvalidArgument"
    by (simp add: stoul_def split_sign_def is_space_def is_digit_def)
qed

end
