(* ===== verification/Client.thy ===== *)
theory Client
  imports Recovery
begin

text \<open>
  The blocking interface of src/Bitcask.cpp, one call at a time: \<open>Put\<close> and \<open>Delete\<close> return after the
  worker has committed their batch of one write. Calls refine a map from keys to last written
  values; the interface is stated as the locale \<open>kv_engine\<close>, the engine is an instance of it.
\<close>

section \<open>Calls and their specification\<close>

datatype client_op = OpPut key val | OpGet key | OpDelete key
datatype reply = Done | Found "val option" | Deleted bool

text \<open>The specification keeps the last written value of every key, tombstones included.\<close>

definition spec_op :: "client_op \<Rightarrow> (key \<rightharpoonup> val) \<Rightarrow> reply \<times> (key \<rightharpoonup> val)" where
  "spec_op op m = (case op of
       OpPut k v \<Rightarrow> (Done, m(k \<mapsto> v))
     | OpGet k \<Rightarrow> (Found (visible (m k)), m)
     | OpDelete k \<Rightarrow> if m k = None then (Deleted False, m) else (Deleted True, m(k \<mapsto> TOMBSTONE)))"

fun spec_run :: "client_op list \<Rightarrow> (key \<rightharpoonup> val) \<Rightarrow> reply list \<times> (key \<rightharpoonup> val)" where
  "spec_run [] m = ([], m)"
| "spec_run (op # ops) m = (let (r, m1) = spec_op op m; (rs, m2) = spec_run ops m1 in (r # rs, m2))"

text \<open>The same calls on an implementation, given by its three operations.\<close>

definition impl_op :: "(key \<Rightarrow> val \<Rightarrow> 's \<Rightarrow> 's outcome) \<Rightarrow> (key \<Rightarrow> 's \<Rightarrow> (val option \<times> 's) outcome)
    \<Rightarrow> (key \<Rightarrow> 's \<Rightarrow> (bool \<times> 's) outcome) \<Rightarrow> client_op \<Rightarrow> 's \<Rightarrow> (reply \<times> 's) outcome" where
  "impl_op put get del op s = (case op of
       OpPut k v \<Rightarrow> (case put k v s of Inl e \<Rightarrow> Inl e | Inr s \<Rightarrow> Inr (Done, s))
     | OpGet k \<Rightarrow> (case get k s of Inl e \<Rightarrow> Inl e | Inr (r, s) \<Rightarrow> Inr (Found r, s))
     | OpDelete k \<Rightarrow> (case del k s of Inl e \<Rightarrow> Inl e | Inr (b, s) \<Rightarrow> Inr (Deleted b, s)))"

fun impl_run :: "(client_op \<Rightarrow> 's \<Rightarrow> (reply \<times> 's) outcome) \<Rightarrow> client_op list \<Rightarrow> 's \<Rightarrow> (reply list \<times> 's) outcome" where
  "impl_run step [] s = Inr ([], s)"
| "impl_run step (op # ops) s = (case step op s of
       Inl e \<Rightarrow> Inl e
     | Inr (r, s) \<Rightarrow> (case impl_run step ops s of Inl e \<Rightarrow> Inl e | Inr (rs, s) \<Rightarrow> Inr (r # rs, s)))"

definition Bitcask_run :: "('am, 'rm) libs \<Rightarrow> client_op list \<Rightarrow> ('am, 'rm) BitcaskImpl
    \<Rightarrow> (reply list \<times> ('am, 'rm) BitcaskImpl) outcome" where
  "Bitcask_run L = impl_run (impl_op (Bitcask_Put L) (Bitcask_Get L) (Bitcask_Delete L))"

text \<open>The write that a call may queue.\<close>

definition op_fits :: "(key \<Rightarrow> val \<Rightarrow> bool) \<Rightarrow> client_op \<Rightarrow> bool" where
  "op_fits fits op = (case op of OpPut k v \<Rightarrow> fits k v | OpGet k \<Rightarrow> True | OpDelete k \<Rightarrow> fits k TOMBSTONE)"

section \<open>The interface\<close>

text \<open>
  \<open>rep n s m\<close>: the state \<open>s\<close> represents the map \<open>m\<close> and can take \<open>n\<close> more writes.
\<close>

locale kv_engine =
  fixes rep :: "nat \<Rightarrow> 's \<Rightarrow> (key \<rightharpoonup> val) \<Rightarrow> bool"
    and put :: "key \<Rightarrow> val \<Rightarrow> 's \<Rightarrow> 's outcome"
    and get :: "key \<Rightarrow> 's \<Rightarrow> (val option \<times> 's) outcome"
    and del :: "key \<Rightarrow> 's \<Rightarrow> (bool \<times> 's) outcome"
    and fits :: "key \<Rightarrow> val \<Rightarrow> bool"
  assumes rep_less: "rep (Suc n) s m \<Longrightarrow> rep n s m"
    and put_law: "rep (Suc n) s m \<Longrightarrow> fits k v \<Longrightarrow> \<exists>s'. put k v s = Inr s' \<and> rep n s' (m(k \<mapsto> v))"
    and get_law: "rep n s m \<Longrightarrow> \<exists>s'. get k s = Inr (visible (m k), s') \<and> rep n s' m"
    and del_law: "rep (Suc n) s m \<Longrightarrow> fits k TOMBSTONE \<Longrightarrow> \<exists>s'. del k s = Inr (m k \<noteq> None, s')
      \<and> rep n s' (if m k = None then m else m(k \<mapsto> TOMBSTONE))"
begin

lemma step_refines:
  assumes "rep (Suc n) s m" and "op_fits fits op"
  shows "\<exists>s'. impl_op put get del op s = Inr (fst (spec_op op m), s') \<and> rep n s' (snd (spec_op op m))"
proof (cases op)
  case (OpPut k v)
  with put_law [OF assms(1), of k v] assms(2) show ?thesis
    by (auto simp: impl_op_def spec_op_def op_fits_def)
next
  case (OpGet k)
  with get_law [OF rep_less [OF assms(1)], of k] show ?thesis
    by (auto simp: impl_op_def spec_op_def)
next
  case (OpDelete k)
  with del_law [OF assms(1), of k] assms(2) show ?thesis
    by (auto simp: impl_op_def spec_op_def op_fits_def)
qed

lemma run_refines:
  assumes "rep (length ops + n) s m" and "\<forall>op \<in> set ops. op_fits fits op"
  shows "\<exists>s'. impl_run (impl_op put get del) ops s = Inr (fst (spec_run ops m), s') \<and> rep n s' (snd (spec_run ops m))"
  using assms
proof (induction ops arbitrary: s m)
  case (Cons op ops)
  obtain s1 where s1: "impl_op put get del op s = Inr (fst (spec_op op m), s1)"
    "rep (length ops + n) s1 (snd (spec_op op m))"
    using step_refines [of "length ops + n" s m op] Cons.prems by auto
  with Cons.IH [OF s1(2)] Cons.prems(2) show ?case
    by (auto simp: Let_def case_prod_beta)
qed simp

end

text \<open>An engine that can be closed and opened again.\<close>

locale durable_engine = kv_engine +
  fixes reopen :: "'a \<Rightarrow> 'a outcome" and few :: "'a \<Rightarrow> bool"
  assumes reopen_law: "rep n s m \<Longrightarrow> few s \<Longrightarrow> \<exists>s'. reopen s = Inr s' \<and> rep n s' m"
begin

lemma runs_across_reopen:
  assumes "rep (length ops + length ops' + n) s m" and "\<forall>op \<in> set (ops @ ops'). op_fits fits op"
  shows "\<exists>s1. impl_run (impl_op put get del) ops s = Inr (fst (spec_run ops m), s1)
     \<and> (few s1 \<longrightarrow> (\<exists>s2 s3. reopen s1 = Inr s2
          \<and> impl_run (impl_op put get del) ops' s2 = Inr (fst (spec_run ops' (snd (spec_run ops m))), s3)
          \<and> rep n s3 (snd (spec_run ops' (snd (spec_run ops m))))))"
proof -
  obtain s1 where s1: "impl_run (impl_op put get del) ops s = Inr (fst (spec_run ops m), s1)"
    "rep (length ops' + n) s1 (snd (spec_run ops m))"
    using run_refines [of ops "length ops' + n" s m] assms by (auto simp: add.assoc)
  have "\<exists>s2 s3. reopen s1 = Inr s2
      \<and> impl_run (impl_op put get del) ops' s2 = Inr (fst (spec_run ops' (snd (spec_run ops m))), s3)
      \<and> rep n s3 (snd (spec_run ops' (snd (spec_run ops m))))" if few: "few s1"
  proof -
    obtain s2 where s2: "reopen s1 = Inr s2" "rep (length ops' + n) s2 (snd (spec_run ops m))"
      using reopen_law [OF s1(2) few] by blast
    have "\<forall>op \<in> set ops'. op_fits fits op" using assms(2) by simp
    from run_refines [OF s2(2) this] s2(1) show ?thesis by blast
  qed
  with s1(1) show ?thesis by blast
qed

end

section \<open>The engine between calls\<close>

text \<open>
  Offsets are 32 bits wide: with a rotation limit of at most 2 GB (the default is 1 GB) and records
  below 1 GB no file reaches 4 GB.
\<close>

definition max_record :: nat where
  "max_record = 2 ^ 30"

definition fits_record :: "key \<Rightarrow> val \<Rightarrow> bool" where
  "fits_record k v \<longleftrightarrow> rec_size (k, v) < max_record"

definition rep :: "('am, 'rm) libs \<Rightarrow> nat \<Rightarrow> ('am, 'rm) BitcaskImpl \<Rightarrow> (key \<rightharpoonup> val) \<Rightarrow> bool" where
  "rep L n db m \<longleftrightarrow> libs_ok L \<and> pending db = [] \<and> limit_of db \<le> 2 ^ 31
     \<and> (\<exists>ls la ord. store_ok L db ls la ord \<and> dir_ok (disk db) (GetDbPath (setting db)) (length ls)
          \<and> log_size la < limit_of db + max_record \<and> length ls + n < 2 ^ 31
          \<and> (length ls \<le> 10 \<longrightarrow> ord = [0..<length ls]) \<and> m = last_write (abs_log ls la ord))"

lemma repE:
  assumes "rep L n db m"
  obtains ls la ord where "libs_ok L" and "pending db = []" and "limit_of db \<le> 2 ^ 31"
    and "store_ok L db ls la ord" and "dir_ok (disk db) (GetDbPath (setting db)) (length ls)"
    and "log_size la < limit_of db + max_record" and "length ls + n < 2 ^ 31"
    and "length ls \<le> 10 \<longrightarrow> ord = [0..<length ls]" and "m = last_write (abs_log ls la ord)"
  using assms unfolding rep_def by blast

lemma repI:
  assumes "libs_ok L" and "pending db = []" and "limit_of db \<le> 2 ^ 31"
    and "store_ok L db ls la ord" and "dir_ok (disk db) (GetDbPath (setting db)) (length ls)"
    and "log_size la < limit_of db + max_record" and "length ls + n < 2 ^ 31"
    and "length ls \<le> 10 \<longrightarrow> ord = [0..<length ls]" and "m = last_write (abs_log ls la ord)"
  shows "rep L n db m"
  using assms unfolding rep_def by blast

text \<open>One queued write and the turn of the worker that commits it.\<close>

lemma store_ok_queue:
  "store_ok L (db\<lparr>next_promise := i, pending := q\<rparr>) ls la ord \<longleftrightarrow> store_ok L db ls la ord"
  by (simp add: store_ok_def handles_ok_def index_ok_def)

lemma disk_ok_queue:
  "disk_ok L (db\<lparr>next_promise := i, pending := q\<rparr>) ls la ord \<longleftrightarrow> disk_ok L db ls la ord"
  by (simp add: disk_ok_def handles_ok_def)

lemma put_store_ok:
  fixes L :: "('am, 'rm) libs"
  assumes "libs_ok L" and "store_ok L db ls la ord" and "pending db = []" and "limit_of db \<le> 2 ^ 31"
    and "log_size la < limit_of db + max_record" and "Suc (length ls) < 2 ^ 32" and "fits_record k v"
    and "fill_one (limit_of db) (k, v) (ls, la) = (ls', la')"
  obtains db' where "worker_turn L (snd (Put k v db)) = Inr db'" and "fulfilled db' = fulfilled db @ [fst (Put k v db)]"
    and "store_ok L db' ls' la' (ord @ [length ls..<length ls'])"
    and "grows (GetDbPath (setting db)) (length ls) (length ls') (disk db) (disk db')"
    and "setting db' = setting db" and "pending db' = []" and "log_size la' < limit_of db + max_record"
    and "length ls \<le> length ls'" and "length ls' \<le> Suc (length ls)"
proof -
  let ?w = "\<lparr>w_key = k, w_value = v, w_promise = next_promise db\<rparr>"
  let ?db = "db\<lparr>next_promise := Suc (next_promise db), pending := []\<rparr>"
  have b: "batch [?w] = [(k, v)]" by (simp add: batch_def)
  have lim: "limit_of ?db = limit_of db" by (simp add: limit_of_def)
  have room: "room_for ls la (batch [?w])"
    using assms(4-7) by (simp add: room_for_def b fits_record_def max_record_def)
  have fl: "fill (limit_of ?db) (batch [?w]) (ls, la) = (ls', la')" using assms(8) by (simp add: b lim)
  have st: "store_ok L ?db ls la ord" using assms(2) by (simp only: store_ok_queue)
  have rot: "rotates_only_last (limit_of ?db) (batch [?w]) la" by (simp add: b)
  obtain db' where c: "CommitWrite L [?w] ?db = Inr db'" "same_client ?db db'"
    "fulfilled db' = fulfilled ?db @ map w_promise [?w]"
    "store_ok L db' ls' la' (ord @ [length ls..<length ls'])"
    "grows (GetDbPath (setting ?db)) (length ls) (length ls') (disk ?db) (disk db')"
    by (rule CommitWrite_store_ok [OF assms(1) st room rot fl])
  have "worker_turn L (snd (Put k v db)) = Inr db'" using c(1) assms(3) by (simp add: worker_turn_def Put_def)
  moreover have "log_size la' < limit_of db + max_record"
    using assms(7,8) by (auto simp: fill_one_def value_offset_def fits_record_def rec_size_def max_record_def split: if_splits)
  ultimately show thesis
    using that c(2-5) fill_length [OF fl] by (simp add: b same_client_def Put_def)
qed

lemma commit_one_write:
  fixes L :: "('am, 'rm) libs"
  assumes "rep L (Suc n) db m" and "fits_record k v"
  obtains db' where "worker_turn L (snd (Put k v db)) = Inr db'" and "rep L n db' (m(k \<mapsto> v))"
    and "fulfilled db' = fulfilled db @ [fst (Put k v db)]"
proof -
  let ?d = "GetDbPath (setting db)"
  obtain ls la ord where r: "libs_ok L" "pending db = []" "limit_of db \<le> 2 ^ 31" "store_ok L db ls la ord"
    "dir_ok (disk db) ?d (length ls)" "log_size la < limit_of db + max_record" "length ls + Suc n < 2 ^ 31"
    "length ls \<le> 10 \<longrightarrow> ord = [0..<length ls]" "m = last_write (abs_log ls la ord)"
    by (rule repE [OF assms(1)])
  have lt: "Suc (length ls) < 2 ^ 32" using r(7) by simp
  obtain ls' la' where fl: "fill_one (limit_of db) (k, v) (ls, la) = (ls', la')" by fastforce
  obtain db' where c: "worker_turn L (snd (Put k v db)) = Inr db'" "fulfilled db' = fulfilled db @ [fst (Put k v db)]"
    "store_ok L db' ls' la' (ord @ [length ls..<length ls'])" "grows ?d (length ls) (length ls') (disk db) (disk db')"
    "setting db' = setting db" "pending db' = []" "log_size la' < limit_of db + max_record"
    "length ls \<le> length ls'" "length ls' \<le> Suc (length ls)"
    by (rule put_store_ok [OF r(1,4,2,3,6) lt assms(2) fl])
  have "dir_ok (disk db') ?d (length ls')" using dir_ok_grows [OF r(5) c(4,8)] .
  moreover have "m(k \<mapsto> v) = last_write (abs_log ls' la' (ord @ [length ls..<length ls']))"
    using abs_log_append [OF store_ok_ord(1) [OF r(4)], of "limit_of db" "[(k, v)]" la ls' la'] fl
    by (simp add: last_write_snoc r(9))
  moreover have "length ls' \<le> 10 \<longrightarrow> ord @ [length ls..<length ls'] = [0..<length ls']"
    using r(8) c(8) upt_add_eq_append [of 0 "length ls" "length ls' - length ls"] by simp
  ultimately have "rep L n db' (m(k \<mapsto> v))"
    using repI [OF r(1) c(6) _ c(3)] r(3,7) c(5,7,9) by (simp add: limit_of_def)
  then show thesis using that c(1,2) by blast
qed

lemma rep_get:
  fixes L :: "('am, 'rm) libs"
  assumes "rep L n db m"
  shows "\<exists>db'. Bitcask_Get L k db = Inr (visible (m k), db') \<and> rep L n db' m"
proof -
  obtain ls la ord where r: "libs_ok L" "pending db = []" "limit_of db \<le> 2 ^ 31" "store_ok L db ls la ord"
    "dir_ok (disk db) (GetDbPath (setting db)) (length ls)" "log_size la < limit_of db + max_record"
    "length ls + n < 2 ^ 31" "length ls \<le> 10 \<longrightarrow> ord = [0..<length ls]" "m = last_write (abs_log ls la ord)"
    by (rule repE [OF assms])
  obtain db' where g: "Get L k db = Inr (abs_get (abs_log ls la ord) k, db')"
    "only_streams (GetDbPath (setting db)) ord db db'"
    by (rule Get_readable [OF store_ok_readable [OF r(4)]])
  have st: "store_ok L db' ls la ord" by (rule only_streams_store_ok [OF r(4) g(2)])
  have same: "setting db' = setting db" "disk db' = disk db" "pending db' = pending db"
    using g(2) by (auto simp: only_streams_def)
  have "rep L n db' m"
    using repI [OF r(1) _ _ st] r same by (simp add: limit_of_def)
  then show ?thesis using g(1) r(9) by (simp add: Bitcask_Get_def abs_get_def)
qed

text \<open>The index has an entry for a key exactly when a write of the key is in the logs.\<close>

lemma rep_indexed:
  assumes "rep L n db m"
  shows "RecordMap_Get (lib_rmap L) (recordMap db) k = None \<longleftrightarrow> m k = None"
proof -
  obtain ls la ord where r: "store_ok L db ls la ord" "m = last_write (abs_log ls la ord)"
    using repE [OF assms] by metis
  have "index_ok L db ls la ord" using r(1) by (simp add: store_ok_def)
  then show ?thesis
    using lookup_rel [OF store_ok_ord(1,4) [OF r(1)], of undefined k] r(2)
    by (simp add: index_ok_lookup(1) option.rel_sel)
qed

definition reopen :: "('am, 'rm) libs \<Rightarrow> ('am, 'rm) BitcaskImpl \<Rightarrow> ('am, 'rm) BitcaskImpl outcome" where
  "reopen L db = Bitcask_Create L (setting db) (disk db)"

definition few_stable :: "('am, 'rm) BitcaskImpl \<Rightarrow> bool" where
  "few_stable db \<longleftrightarrow> length (stableFiles db) \<le> 10"

lemma rep_reopen:
  fixes L :: "('am, 'rm) libs"
  assumes "rep L n db m" and "few_stable db"
  shows "\<exists>db'. reopen L db = Inr db' \<and> rep L n db' m"
proof -
  let ?d = "GetDbPath (setting db)"
  obtain ls la ord where r: "libs_ok L" "pending db = []" "limit_of db \<le> 2 ^ 31" "store_ok L db ls la ord"
    "dir_ok (disk db) ?d (length ls)" "log_size la < limit_of db + max_record"
    "length ls + n < 2 ^ 31" "length ls \<le> 10 \<longrightarrow> ord = [0..<length ls]" "m = last_write (abs_log ls la ord)"
    by (rule repE [OF assms(1)])
  have h: "handles_ok db (length ls) ord" and f: "files_ok (lib_crc L) (disk db) ?d ls la"
    using r(4) unfolding store_ok_def by blast+
  have few: "length ls \<le> 10" using assms(2) handles_ok_length [OF h] by (simp add: few_stable_def)
  have lt: "length ls < 2 ^ 31" using r(7) by simp
  obtain db' where n: "BitcaskImpl_new L (setting db) (disk db) = Inr db'" "store_ok L db' ls la (lex_order (length ls))"
    "disk db' = disk db" "setting db' = setting db" "pending db' = []"
    by (rule restart_ok [OF r(1) f r(5) lt])
  have "rep L n db' m"
    using repI [OF r(1) n(5) _ n(2)] r n(3,4) few by (simp add: limit_of_def lex_order_small)
  then show ?thesis using n(1) by (simp add: reopen_def Bitcask_Create_def)
qed

lemma rep_less: "rep L (Suc n) db m \<Longrightarrow> rep L n db m"
  by (elim repE, rule repI) simp_all

lemma rep_put:
  "rep L (Suc n) db m \<Longrightarrow> fits_record k v \<Longrightarrow> \<exists>db'. Bitcask_Put L k v db = Inr db' \<and> rep L n db' (m(k \<mapsto> v))"
  by (metis Bitcask_Put_def commit_one_write)

lemma rep_delete:
  assumes "rep L (Suc n) db m" and "fits_record k TOMBSTONE"
  shows "\<exists>db'. Bitcask_Delete L k db = Inr (m k \<noteq> None, db') \<and> rep L n db' (if m k = None then m else m(k \<mapsto> TOMBSTONE))"
proof (cases "m k")
  case None
  then have "RecordMap_Get (lib_rmap L) (recordMap db) k = None"
    using rep_indexed [OF assms(1)] by blast
  then show ?thesis
    using None rep_less [OF assms(1)] by (simp add: Bitcask_Delete_def Delete_enqueue_def)
next
  case (Some v)
  then obtain h where h: "RecordMap_Get (lib_rmap L) (recordMap db) k = Some h"
    using rep_indexed [OF assms(1), of k] by auto
  obtain db' where "worker_turn L (snd (Put k TOMBSTONE db)) = Inr db'" "rep L n db' (m(k \<mapsto> TOMBSTONE))"
    by (rule commit_one_write [OF assms])
  then show ?thesis using Some h by (simp add: Bitcask_Delete_def Delete_enqueue_def case_prod_beta)
qed

interpretation engine: durable_engine "rep L" "Bitcask_Put L" "Bitcask_Get L" "Bitcask_Delete L" fits_record
    "reopen L" few_stable for L :: "('am, 'rm) libs"
  by unfold_locales (fact rep_less rep_put rep_get rep_delete rep_reopen)+

text \<open>The start of a run: a fresh directory represents the empty map.\<close>

lemma rep_fresh:
  fixes L :: "('am, 'rm) libs"
  assumes "libs_ok L" and "fresh_dir F (GetDbPath s)" and "unat (GetMaxFileSize s) \<le> 2 ^ 31" and "n < 2 ^ 31"
  shows "\<exists>db. Bitcask_Create L s F = Inr db \<and> rep L n db Map.empty"
proof -
  obtain db where db: "BitcaskImpl_new L s F = Inr db" "store_ok L db [] [] []"
    "setting db = s" "pending db = []" "dir_ok (disk db) (GetDbPath s) 0"
    by (rule start_fresh [OF assms(1,2)])
  have "rep L n db Map.empty"
    using repI [OF assms(1) db(4) _ db(2)] assms(3,4) db
    by (simp add: limit_of_def max_record_def abs_log_def last_write_def)
  then show ?thesis using db(1) by (simp add: Bitcask_Create_def)
qed

section \<open>Puts one after the other\<close>

definition puts :: "kvs \<Rightarrow> client_op list" where
  "puts kvs = map (\<lambda>(k, v). OpPut k v) kvs"

lemma run_puts_Nil [simp]: "Bitcask_run L (puts []) db = Inr ([], db)"
  by (simp add: Bitcask_run_def puts_def)

lemma run_puts_Cons: "Bitcask_Put L (fst r) (snd r) db = Inr db1 \<Longrightarrow> Bitcask_run L (puts rs) db1 = Inr (replies, db2) \<Longrightarrow>
    Bitcask_run L (puts (r # rs)) db = Inr (Done # replies, db2)"
  by (simp add: Bitcask_run_def puts_def impl_op_def case_prod_beta)

text \<open>They fill the files, whatever the path of the database is.\<close>

lemma run_puts:
  fixes L :: "('am, 'rm) libs"
  assumes "libs_ok L" and "store_ok L db ls la ord" and "pending db = []" and "limit_of db \<le> 2 ^ 31"
    and "log_size la < limit_of db + max_record" and "length ls + length kvs < 2 ^ 31"
    and "\<forall>r \<in> set kvs. fits_record (fst r) (snd r)" and "fill (limit_of db) kvs (ls, la) = (ls', la')"
  shows "\<exists>replies db'. Bitcask_run L (puts kvs) db = Inr (replies, db') \<and> setting db' = setting db
     \<and> store_ok L db' ls' la' (ord @ [length ls..<length ls'])
     \<and> grows (GetDbPath (setting db)) (length ls) (length ls') (disk db) (disk db')"
  using assms(2-8)
proof (induction kvs arbitrary: db ls la ord)
  case (Cons r kvs)
  have lt: "Suc (length ls) < 2 ^ 32" and fits: "fits_record (fst r) (snd r)" using Cons.prems(5,6) by simp_all
  obtain ls1 la1 where fl: "fill_one (limit_of db) (fst r, snd r) (ls, la) = (ls1, la1)" by fastforce
  obtain db1 where c: "worker_turn L (snd (Put (fst r) (snd r) db)) = Inr db1"
    "store_ok L db1 ls1 la1 (ord @ [length ls..<length ls1])"
    "grows (GetDbPath (setting db)) (length ls) (length ls1) (disk db) (disk db1)"
    "setting db1 = setting db" "pending db1 = []" "log_size la1 < limit_of db + max_record"
    "length ls \<le> length ls1" "length ls1 \<le> Suc (length ls)"
    by (rule put_store_ok [OF assms(1) Cons.prems(1-4) lt fits fl])
  have lim: "limit_of db1 = limit_of db" by (simp add: limit_of_def c(4))
  have rest: "fill (limit_of db1) kvs (ls1, la1) = (ls', la')" using Cons.prems(7) fl by (simp add: lim)
  have "length ls1 \<le> length ls'" using fill_length [OF rest] by simp
  moreover have "length ls1 + length kvs < 2 ^ 31" "\<forall>r \<in> set kvs. fits_record (fst r) (snd r)"
    using c(8) Cons.prems(5,6) by simp_all
  ultimately obtain replies db' where d: "Bitcask_run L (puts kvs) db1 = Inr (replies, db')" "setting db' = setting db1"
    "store_ok L db' ls' la' ((ord @ [length ls..<length ls1]) @ [length ls1..<length ls'])"
    "grows (GetDbPath (setting db1)) (length ls1) (length ls') (disk db1) (disk db')"
    using Cons.IH [OF c(2,5) _ _ _ _ rest] Cons.prems(3) c(6) unfolding lim by blast
  have "[length ls..<length ls1] @ [length ls1..<length ls'] = [length ls..<length ls']"
    using c(7) \<open>length ls1 \<le> length ls'\<close> upt_add_eq_append [of "length ls" "length ls1" "length ls' - length ls1"] by simp
  moreover have "grows (GetDbPath (setting db)) (length ls) (length ls') (disk db) (disk db')"
    using grows_trans [OF c(3) d(4) [unfolded c(4)] c(7) \<open>length ls1 \<le> length ls'\<close>] .
  moreover have "Bitcask_run L (puts (r # kvs)) db = Inr (Done # replies, db')"
    using run_puts_Cons [OF _ d(1)] c(1) by (simp add: Bitcask_Put_def)
  ultimately show ?case using d(2,3) c(4) by auto
qed simp

section \<open>Properties of the blocking interface\<close>

text \<open>An empty file system and settings to start the examples from.\<close>

definition no_files :: fsys where
  "no_files = \<lparr>nodes = [], denied = []\<rparr>"

definition example_setting :: Setting where
  "example_setting = Setting_new ''db/'' 30 0x3FE3333333333333 0"

lemma example_setting_simps [simp]:
  "GetDbPath example_setting = ''db/''" "GetMaxFileSize example_setting = 30"
  by (simp_all add: example_setting_def Setting_new_def GetDbPath_def GetMaxFileSize_def)

lemma fresh_no_files [simp]: "fresh_dir no_files ''db/''"
  by (simp add: no_files_def fresh_dir_def is_dir_def usable_dir_def is_regular_def)

lemma example_fits [simp]: "length k + length v < 2 ^ 20 \<Longrightarrow> fits_record k v"
  by (simp add: fits_record_def rec_size_def header_size_def max_record_def)

text \<open>C1. Refinement: on a fresh directory every sequence of blocking calls to \<open>Put\<close>, \<open>Get\<close> and \<open>Delete\<close>
  answers as a map from keys to last written values does, however often the files rotate.\<close>

theorem sequential_refinement:
  assumes "libs_ok L" and "fresh_dir F (GetDbPath s)" and "unat (GetMaxFileSize s) \<le> 2 ^ 31"
    and "length ops < 2 ^ 31" and "\<forall>op \<in> set ops. op_fits fits_record op"
  shows "\<exists>db db'. Bitcask_Create L s F = Inr db \<and> Bitcask_run L ops db = Inr (fst (spec_run ops Map.empty), db')"
proof -
  obtain db where db: "Bitcask_Create L s F = Inr db" "rep L (length ops + 0) db Map.empty"
    using rep_fresh [OF assms(1-3), of "length ops + 0"] assms(4) by auto
  then show ?thesis using engine.run_refines [OF db(2) assms(5)] by (auto simp: Bitcask_run_def)
qed

theorem sequential_refinement_witness:
  "\<exists>db db'. Bitcask_Create example_libs example_setting no_files = Inr db
     \<and> Bitcask_run example_libs [OpPut ''a'' ''1'', OpPut ''b'' ''twenty bytes of text'', OpGet ''a'',
          OpDelete ''a'', OpGet ''a'', OpDelete ''c'', OpGet ''b''] db
       = Inr ([Done, Done, Found (Some ''1''), Deleted True, Found None, Deleted False,
          Found (Some ''twenty bytes of text'')], db')"
proof -
  let ?ops = "[OpPut ''a'' ''1'', OpPut ''b'' ''twenty bytes of text'', OpGet ''a'',
    OpDelete ''a'', OpGet ''a'', OpDelete ''c'', OpGet ''b'']"
  have "fst (spec_run ?ops Map.empty) = [Done, Done, Found (Some ''1''), Deleted True, Found None, Deleted False,
      Found (Some ''twenty bytes of text'')]"
    by (simp add: spec_op_def visible_def TOMBSTONE_def)
  moreover have "\<exists>db db'. Bitcask_Create example_libs example_setting no_files = Inr db
      \<and> Bitcask_run example_libs ?ops db = Inr (fst (spec_run ?ops Map.empty), db')"
    by (rule sequential_refinement) (simp_all add: op_fits_def TOMBSTONE_def)
  ultimately show ?thesis by simp
qed

text \<open>A run of at most ten calls leaves at most ten stable files.\<close>

lemma run_few_stable:
  fixes L :: "('am, 'rm) libs"
  assumes "libs_ok L" and "fresh_dir F (GetDbPath s)" and "unat (GetMaxFileSize s) \<le> 2 ^ 31"
    and "length ops \<le> 10" and "\<forall>op \<in> set ops. op_fits fits_record op"
  shows "\<exists>db0 rs db1. Bitcask_Create L s F = Inr db0 \<and> Bitcask_run L ops db0 = Inr (rs, db1) \<and> few_stable db1"
proof -
  obtain db0 where db0: "Bitcask_Create L s F = Inr db0" "rep L (2 ^ 31 - 1) db0 Map.empty"
    using rep_fresh [OF assms(1-3), of "2 ^ 31 - 1"] by auto
  then have "rep L (length ops + (2 ^ 31 - 1 - length ops)) db0 Map.empty" using assms(4) by simp
  from engine.run_refines [OF this assms(5)] obtain rs db1
    where db1: "Bitcask_run L ops db0 = Inr (rs, db1)" "rep L (2 ^ 31 - 1 - length ops) db1 (snd (spec_run ops Map.empty))"
    unfolding Bitcask_run_def by blast
  obtain ls la ord where ls: "store_ok L db1 ls la ord" "length ls + (2 ^ 31 - 1 - length ops) < 2 ^ 31"
    by (rule repE [OF db1(2)])
  have "handles_ok db1 (length ls) ord" using ls(1) by (simp add: store_ok_def)
  from handles_ok_length [OF this] have "few_stable db1" using ls(2) assms(4) by (simp add: few_stable_def)
  with db0(1) db1(1) show ?thesis by blast
qed

text \<open>C2. Durability: closing the store after any sequence of calls and opening it again with the same
  settings is not seen by the calls that follow, provided at most ten files were stable.\<close>

theorem durability:
  fixes L :: "('am, 'rm) libs"
  assumes "libs_ok L" and "fresh_dir F (GetDbPath s)" and "unat (GetMaxFileSize s) \<le> 2 ^ 31"
    and "length ops + length ops' < 2 ^ 31" and "\<forall>op \<in> set (ops @ ops'). op_fits fits_record op"
    and "Bitcask_Create L s F = Inr db0" and "Bitcask_run L ops db0 = Inr (rs, db1)" and "few_stable db1"
  shows "\<exists>db2 db3. reopen L db1 = Inr db2
     \<and> Bitcask_run L ops' db2 = Inr (fst (spec_run ops' (snd (spec_run ops Map.empty))), db3)"
proof -
  have "rep L (length ops + length ops' + 0) db0 Map.empty"
    using rep_fresh [OF assms(1-3), of "length ops + length ops' + 0"] assms(4,6) by simp
  from engine.runs_across_reopen [OF this assms(5)] assms(7,8) show ?thesis
    unfolding Bitcask_run_def by auto
qed

theorem durability_witness:
  "\<exists>db0 rs db1 db2 db3. Bitcask_Create example_libs example_setting no_files = Inr db0
     \<and> Bitcask_run example_libs [OpPut ''a'' ''twenty bytes of text'', OpPut ''a'' ''2'', OpDelete ''b''] db0 = Inr (rs, db1)
     \<and> reopen example_libs db1 = Inr db2
     \<and> Bitcask_run example_libs [OpGet ''a''] db2 = Inr ([Found (Some ''2'')], db3)"
proof -
  let ?ops = "[OpPut ''a'' ''twenty bytes of text'', OpPut ''a'' ''2'', OpDelete ''b'']"
  have fits: "\<forall>op \<in> set (?ops @ [OpGet ''a'']). op_fits fits_record op" by (simp add: op_fits_def TOMBSTONE_def)
  obtain db0 rs db1 where run: "Bitcask_Create example_libs example_setting no_files = Inr db0"
    "Bitcask_run example_libs ?ops db0 = Inr (rs, db1)" "few_stable db1"
    using run_few_stable [of example_libs no_files example_setting ?ops] fits by auto
  have "\<exists>db2 db3. reopen example_libs db1 = Inr db2 \<and> Bitcask_run example_libs [OpGet ''a''] db2
      = Inr (fst (spec_run [OpGet ''a''] (snd (spec_run ?ops Map.empty))), db3)"
    by (rule durability [OF libs_ok_example _ _ _ fits run]) simp_all
  with run(1,2) show ?thesis by (auto simp: spec_op_def visible_def TOMBSTONE_def)
qed

text \<open>C28. \<open>Put\<close> then \<open>Get\<close>: the key has the new value, unless that is the tombstone text, which reads as
  absent; every other key answers as before.\<close>

theorem put_then_get:
  assumes "rep L (Suc n) db m" and "fits_record k v"
  shows "\<exists>db1. Bitcask_Put L k v db = Inr db1
     \<and> (\<forall>j. \<exists>db2. Bitcask_Get L j db1 = Inr (visible (if j = k then Some v else m j), db2))"
proof -
  obtain db1 where db1: "Bitcask_Put L k v db = Inr db1" "rep L n db1 (m(k \<mapsto> v))"
    using engine.put_law [OF assms] by blast
  have "\<exists>db2. Bitcask_Get L j db1 = Inr (visible (if j = k then Some v else m j), db2)" for j
    using engine.get_law [OF db1(2), of j] by auto
  with db1(1) show ?thesis by blast
qed

theorem put_then_get_witness:
  "\<exists>db db1 db2. Bitcask_Create example_libs example_setting no_files = Inr db
     \<and> Bitcask_Put example_libs ''k'' ''v'' db = Inr db1 \<and> Bitcask_Get example_libs ''k'' db1 = Inr (Some ''v'', db2)"
proof -
  obtain db where db: "Bitcask_Create example_libs example_setting no_files = Inr db" "rep example_libs (Suc 0) db Map.empty"
    using rep_fresh [of example_libs no_files example_setting 1] by auto
  have "fits_record ''k'' ''v''" by simp
  from put_then_get [OF db(2) this] obtain db1 where db1: "Bitcask_Put example_libs ''k'' ''v'' db = Inr db1"
    "\<forall>j. \<exists>db2. Bitcask_Get example_libs j db1 = Inr (visible (if j = ''k'' then Some ''v'' else Map.empty j), db2)"
    by blast
  have "visible (if ''k'' = ''k'' then Some ''v'' else Map.empty ''k'') = Some ''v''"
    by (simp add: visible_def TOMBSTONE_def)
  with db1(2) [rule_format, of "''k''"] db1(1) db(1) show ?thesis by metis
qed

text \<open>C29. \<open>Delete\<close> returns whether the key was ever written, also when it is deleted already, and the key
  reads as absent after it.\<close>

theorem delete_then_get:
  assumes "rep L (Suc n) db m" and "fits_record k TOMBSTONE"
  shows "\<exists>db1 db2. Bitcask_Delete L k db = Inr (m k \<noteq> None, db1) \<and> Bitcask_Get L k db1 = Inr (None, db2)"
proof -
  obtain db1 where db1: "Bitcask_Delete L k db = Inr (m k \<noteq> None, db1)"
    "rep L n db1 (if m k = None then m else m(k \<mapsto> TOMBSTONE))"
    using engine.del_law [OF assms] by blast
  then show ?thesis
    using engine.get_law [OF db1(2), of k] by (cases "m k") (auto simp: visible_def)
qed

theorem delete_then_get_witness:
  "\<exists>db db1. Bitcask_Create example_libs example_setting no_files = Inr db
     \<and> Bitcask_Delete example_libs ''k'' db = Inr (False, db1)"
proof -
  obtain db where db: "Bitcask_Create example_libs example_setting no_files = Inr db" "rep example_libs (Suc 0) db Map.empty"
    using rep_fresh [of example_libs no_files example_setting 1] by auto
  have "fits_record ''k'' TOMBSTONE" by (simp add: TOMBSTONE_def)
  from delete_then_get [OF db(2) this] db(1) show ?thesis by auto
qed

end
