(* ===== verification/Overflow.thy ===== *)
theory Overflow
  imports Client
begin

text \<open>
  Offsets are 32 bits wide while the limit of a file is a \<open>size_t\<close>: with a limit of 4 GB or more no file
  is ever rotated, offsets wrap, and \<open>ReadRecord\<close>, which seeks to the truncated offset of the key, can
  send the scan of a start back to the beginning of the file.
\<close>

section \<open>A limit that no offset reaches\<close>

lemma commit_one_large_limit:
  assumes "2 ^ 32 \<le> unat (limit :: u64)" and "cs_active cs = Some af" and "af_on (cs_disk cs) p af"
    and "is_regular (cs_disk cs) p"
  obtains F af' where "commit_one ext d limit fd w cs = Inr (cs\<lparr>cs_disk := F, cs_active := Some af',
      cs_records := cs_records cs @ [\<lparr>hint_fd = fd,
        hint_offset = word_of_nat (length (file_content (cs_disk cs) p) + header_size + length (w_key w)),
        hint_size = word_of_nat (length (w_value w))\<rparr>], cs_idx := cs_idx cs + 1\<rparr>)"
    and "af_on F p af'" and "is_regular F p" and "same_but p (cs_disk cs) F"
    and "file_content F p = file_content (cs_disk cs) p @ enc_record ext (w_key w, w_value w)"
proof -
  let ?off = "word_of_nat (length (file_content (cs_disk cs) p) + header_size + length (w_key w)) :: u32"
  obtain F af' where w: "ActiveFile_Write ext (cs_disk cs) af (w_key w) (w_value w) = Inr (?off, F, af')"
    "af_on F p af'" "is_regular F p" "file_content F p = file_content (cs_disk cs) p @ enc_record ext (w_key w, w_value w)"
    "same_but p (cs_disk cs) F"
    by (rule ActiveFile_Write_at_end [OF assms(3,4), where ext = ext and k = "w_key w" and v = "w_value w"])
  have "unat (ucast x :: u64) < 2 ^ 32" for x :: u32
  proof -
    have "unat x < 2 ^ LENGTH(32)" by (rule unsigned_less)
    then show ?thesis by (simp add: unsigned_ucast_eq take_bit_nat_eq_self)
  qed
  from this [of ?off] have "unat (ucast ?off :: u64) < 2 ^ 32" .
  then have "(ucast ?off :: u64) < limit" using assms(1) by (simp add: word_less_nat_alt)
  then show thesis using that w assms(2) by (simp add: commit_one_def Let_def)
qed

section \<open>A scan that goes back\<close>

text \<open>A whole record whose key and value are where the truncated offsets point.\<close>

lemma ReadRecord_whole:
  fixes s F p
  assumes "ready p s" and "drop (st_pos s) (file_content F p) = enc_record ext r @ rest" and "rec_size r < 2 ^ 32"
  defines "koff \<equiv> word_of_nat (st_pos s + header_size) :: u32" and "c \<equiv> file_content F p"
  defines "voff \<equiv> koff + word_of_nat (length (fst r))"
  assumes "unat koff + length (fst r) \<le> length c" and "take (length (fst r)) (drop (unat koff) c) = fst r"
    and "unat voff + length (snd r) \<le> length c" and "take (length (snd r)) (drop (unat voff) c) = snd r"
  obtains i s' where "ReadRecord ext F s = (Some (fst r, snd r, i), s')" and "ready p s'"
    and "st_pos s' = unat voff + length (snd r)"
proof -
  have sz: "unat (word_of_nat (length (fst r)) :: u32) = length (fst r)" "unat (word_of_nat (length (snd r)) :: u32) = length (snd r)"
    by (rule unat_of_nat_u32, use assms(3) in \<open>simp add: rec_size_def\<close>)+
  have "length (drop (st_pos s) c) = rec_size r + length rest" unfolding c_def assms(2) by simp
  then have le: "st_pos s + header_size \<le> length c" by (simp add: rec_size_def header_size_def)
  let ?s0 = "s\<lparr>st_pos := st_pos s + header_size, st_gcount := header_size\<rparr>"
  let ?s1 = "s\<lparr>st_pos := unat koff + length (fst r), st_gcount := length (fst r)\<rparr>"
  let ?s2 = "s\<lparr>st_pos := unat voff + length (snd r), st_gcount := length (snd r)\<rparr>"
  have rd: "ready p ?s0" "ready p ?s1" "ready p ?s2" using assms(1) by simp_all
  have h: "header_of_bytes (take header_size (drop (st_pos s) c)) = fst (fillHeader ext (fst r) (snd r))"
    unfolding c_def assms(2) using header_of_take [of "enc_record ext r @ rest"] enc_record_header [of ext r rest]
    by (simp add: rec_size_def del: take_append)
  have buf: "ReadFile_buf F s header_size = (True, take header_size (drop (st_pos s) c), ?s0)"
    unfolding c_def by (rule ReadFile_buf_full [OF assms(1)]) (use le in \<open>simp add: c_def\<close>)
  have k: "ReadFile_at F ?s0 koff (length (fst r)) = (fst r, ?s1)"
    using ReadFile_at_full [OF rd(1), of koff "length (fst r)" F] assms(7,8) by (simp add: c_def)
  have v: "ReadFile_at F ?s1 voff (length (snd r)) = (snd r, ?s2)"
    using ReadFile_at_full [OF rd(2), of voff "length (snd r)" F] assms(9,10) by (simp add: c_def)
  have off: "word_of_int (st_tellp ?s0) = koff" using rd(1) by (simp add: tellp_ready koff_def)
  have "\<exists>i. ReadRecord ext F s = (Some (fst r, snd r, i), ?s2)"
    unfolding ReadRecord_def buf
    by (simp add: h fillHeader_sizes sz off k v Let_def voff_def [symmetric] fillHeader_crc)
  then show thesis using that [of _ ?s2] rd(3) by auto
qed

text \<open>A record that lies below 4 GB is read, whatever the size of the file.\<close>

lemma ReadRecord_below:
  assumes "ready p s" and "drop (st_pos s) (file_content F p) = enc_record ext r @ rest"
    and "st_pos s + rec_size r < 2 ^ 32"
  obtains i s' where "ReadRecord ext F s = (Some (fst r, snd r, i), s')"
    and "ready p s'" and "st_pos s' = st_pos s + rec_size r"
proof -
  let ?c = "file_content F p" and ?k = "st_pos s + header_size" and ?l = "length (fst r)"
  have u: "unat (word_of_nat ?k :: u32) = ?k" by (rule unat_of_nat_u32) (use assms(3) in \<open>simp add: rec_size_def\<close>)
  have "(word_of_nat ?k :: u32) + word_of_nat ?l = word_of_nat (?k + ?l)" by simp
  then have v: "unat ((word_of_nat ?k :: u32) + word_of_nat ?l) = ?k + ?l"
    using unat_of_nat_u32 [of "?k + ?l"] assms(3) by (simp add: rec_size_def)
  have "length (drop (st_pos s) ?c) = rec_size r + length rest" unfolding assms(2) by simp
  then have len: "?k + ?l + length (snd r) \<le> length ?c" by (simp add: rec_size_def header_size_def)
  have dr: "drop ?k ?c = fst r @ snd r @ rest" "drop (?k + ?l) ?c = snd r @ rest"
    using arg_cong [OF assms(2), of "drop header_size"] arg_cong [OF assms(2), of "drop (header_size + ?l)"]
    by (simp_all add: add.commute add.left_commute enc_record_def)
  have sz: "rec_size r < 2 ^ 32" using assms(3) by linarith
  obtain i s' where "ReadRecord ext F s = (Some (fst r, snd r, i), s')" "ready p s'" "st_pos s' = ?k + ?l + length (snd r)"
  proof (rule ReadRecord_whole [OF assms(1,2) sz, unfolded u v])
    show "?k + ?l \<le> length ?c" "?k + ?l + length (snd r) \<le> length ?c" using len by linarith+
    show "take ?l (drop ?k ?c) = fst r" "take (length (snd r)) (drop (?k + ?l) ?c) = snd r" unfolding dr by simp_all
  qed
  then show thesis using that by (simp add: rec_size_def)
qed

text \<open>A record without key and value whose header ends at 4 GB sends the stream to the beginning.\<close>

lemma ReadRecord_wraps:
  assumes "ready p s" and "drop (st_pos s) (file_content F p) = enc_record ext ([], []) @ rest"
    and "st_pos s + header_size = 2 ^ 32"
  obtains i s' where "ReadRecord ext F s = (Some ([], [], i), s')" and "ready p s'" and "st_pos s' = 0"
  by (rule ReadRecord_whole [OF assms(1,2), unfolded assms(3)])
    (use that in \<open>auto simp: rec_size_def header_size_def\<close>)

lemma read_loop_never_ends:
  assumes "file_content F p = enc_log ext (rs @ [([], [])]) @ tail" and "log_size rs + header_size = 2 ^ 32"
    and "ready p s" and "rs = qs @ qs'" and "st_pos s = log_size qs"
  shows "read_loop ext F cb s x = None"
proof (rule ccontr)
  assume "read_loop ext F cb s x \<noteq> None"
  then obtain y where y: "read_loop ext F cb s x = Some y" by blast
  let ?inside = "\<lambda>s. \<exists>qs qs'. rs = qs @ qs' \<and> st_pos s = log_size qs \<and> ready p s"
  have "F' = F \<longrightarrow> e = ext \<longrightarrow> \<not> ?inside s'" if "read_loop e F' c s' x' = Some y'" for e F' c s' x' y'
  proof (rule read_loop.raw_induct [where xa = "((((e, F'), c), s'), x')", unfolded prod.case, OF _ that,
        where P = "\<lambda>e F' c s' x' y'. F' = F \<longrightarrow> e = ext \<longrightarrow> \<not> ?inside s'"], intro impI notI, goal_cases)
    case (1 loop e F' c s' x' y')
    then obtain qs qs' where q: "rs = qs @ qs'" "st_pos s' = log_size qs" "ready p s'" by blast
    show ?case
    proof (cases qs')
      case Nil
      have at: "drop (st_pos s') (file_content F p) = enc_record ext ([], []) @ tail" "st_pos s' + header_size = 2 ^ 32"
        unfolding assms(1) using assms(2) q Nil by simp_all
      obtain i s2 where r: "ReadRecord ext F s' = (Some ([], [], i), s2)" "ready p s2" "st_pos s2 = 0"
        by (rule ReadRecord_wraps [OF q(3) at])
      then have "loop e F' c s2 (c [] [] i x') = Some y'" using 1 by simp
      from 1(1) [OF this] show False using 1(3,4) r(2,3) by force
    next
      case (Cons r qs2)
      obtain i s2 where r: "ReadRecord ext F s' = (Some (fst r, snd r, i), s2)" "ready p s2" "st_pos s2 = st_pos s' + rec_size r"
        by (rule ReadRecord_below [OF q(3), of F ext r "enc_log ext (qs2 @ [([], [])]) @ tail"])
          (use assms(1,2) q Cons in \<open>simp_all add: header_size_def\<close>)
      then have "loop e F' c s2 (c (fst r) (snd r) i x') = Some y'" using 1 by simp
      moreover have "rs = (qs @ [r]) @ qs2" "st_pos s2 = log_size (qs @ [r])" using q Cons r(3) by simp_all
      ultimately show False using 1(1) 1(3,4) r(2) by metis
    qed
  qed
  from this [OF y] assms(3-5) show False by blast
qed

lemma scan_never_ends:
  assumes "ready p s" and "file_content F p = enc_log ext (rs @ [([], [])]) @ tail" and "log_size rs + header_size = 2 ^ 32"
  shows "ReadAllRecordFromFile ext F cb s x = None"
proof -
  have s: "ready p (st_seekg 0 s)" "st_pos (st_seekg 0 s) = log_size []" using assms(1) by (simp_all add: seek_ready)
  show ?thesis unfolding ReadAllRecordFromFile_def
    by (rule read_loop_never_ends [OF assms(2,3) s(1) append_Nil [symmetric] s(2)])
qed

section \<open>The engine writes such a file\<close>

text \<open>A store that has never rotated: its one file holds the log \<open>la\<close>, of any size.\<close>

definition one_file :: "('am, 'rm) libs \<Rightarrow> Setting \<Rightarrow> ('am, 'rm) BitcaskImpl \<Rightarrow> kvs \<Rightarrow> bool" where
  "one_file L st db la \<longleftrightarrow> setting db = st \<and> pending db = [] \<and> stableFiles db = []
     \<and> (\<exists>af. activeFile db = Some af \<and> af_on (disk db) (db_file (GetDbPath st) 0) af)
     \<and> is_regular (disk db) (db_file (GetDbPath st) 0)
     \<and> file_content (disk db) (db_file (GetDbPath st) 0) = enc_log (lib_crc L) la
     \<and> usable_dir (disk db) (GetDbPath st) \<and> dir_ok (disk db) (GetDbPath st) 0"

lemma one_file_put:
  assumes "one_file L st db la" and "2 ^ 32 \<le> unat (GetMaxFileSize st)"
  obtains db' where "Bitcask_Put L k v db = Inr db'" and "one_file L st db' (la @ [(k, v)])"
proof -
  let ?p = "db_file (GetDbPath st) 0" and ?w = "\<lparr>w_key = k, w_value = v, w_promise = next_promise db\<rparr>"
  let ?db = "db\<lparr>pending := [], next_promise := Suc (next_promise db)\<rparr>"
  obtain af where af: "activeFile db = Some af" "af_on (disk db) ?p af"
    and o: "setting db = st" "pending db = []" "stableFiles db = []" "is_regular (disk db) ?p"
      "file_content (disk db) ?p = enc_log (lib_crc L) la" "usable_dir (disk db) (GetDbPath st)" "dir_ok (disk db) (GetDbPath st) 0"
    using assms(1) unfolding one_file_def by blast
  have cs: "cs_active (commit_start ?db) = Some af" "cs_disk (commit_start ?db) = disk db"
    using af(1) by (simp_all add: commit_start_def)
  obtain F af' where c: "commit_one (lib_crc L) (GetDbPath st) (GetMaxFileSize st) (getActiveFD db) ?w
      (commit_start ?db) = Inr ((commit_start ?db)\<lparr>cs_disk := F, cs_active := Some af',
      cs_records := cs_records (commit_start ?db) @ [\<lparr>hint_fd = getActiveFD db,
        hint_offset = word_of_nat (length (file_content (cs_disk (commit_start ?db)) ?p) + header_size + length (w_key ?w)),
        hint_size = word_of_nat (length (w_value ?w))\<rparr>], cs_idx := cs_idx (commit_start ?db) + 1\<rparr>)"
    and d: "af_on F ?p af'" "is_regular F ?p" "same_but ?p (disk db) F"
      "file_content F ?p = enc_log (lib_crc L) la @ enc_record (lib_crc L) (k, v)"
    by (rule commit_one_large_limit [OF assms(2) cs(1), of ?p "lib_crc L" "GetDbPath st" "getActiveFD db" ?w])
      (use af(2) o(4,5) cs(2) in simp_all)
  obtain db' where t: "Bitcask_Put L k v db = Inr db'" "disk db' = F" "setting db' = st" "pending db' = []"
    "stableFiles db' = []" "activeFile db' = Some af'"
    using c o(1-3) by (simp add: Bitcask_Put_def worker_turn_def Put_def CommitWrite_def commit_files_def getActiveFD_def
        Let_def publish_def publish_one_def insert_stable_def clear_active_def commit_start_def)
  have "dir_ok F (GetDbPath st) 0" using dir_ok_grows [OF o(7) grows_same_but [OF d(3) o(4) d(2)]] by simp
  then have "one_file L st db' (la @ [(k, v)])"
    using t d usable_dir_same_but [OF o(6) d(3,2)] by (simp add: one_file_def)
  with t(1) show thesis by (rule that)
qed

text \<open>No file is ever rotated, however much is written.\<close>

lemma one_file_run:
  assumes "one_file L st db la" and "2 ^ 32 \<le> unat (GetMaxFileSize st)"
  shows "\<exists>replies db'. Bitcask_run L (puts kvs) db = Inr (replies, db') \<and> one_file L st db' (la @ kvs)"
  using assms(1)
proof (induction kvs arbitrary: db la)
  case (Cons r kvs)
  obtain db1 where p: "Bitcask_Put L (fst r) (snd r) db = Inr db1" "one_file L st db1 (la @ [(fst r, snd r)])"
    by (rule one_file_put [OF Cons.prems assms(2)])
  obtain replies db' where "Bitcask_run L (puts kvs) db1 = Inr (replies, db')"
    "one_file L st db' ((la @ [(fst r, snd r)]) @ kvs)" using Cons.IH [OF p(2)] by blast
  with run_puts_Cons [OF p(1)] show ?case by auto
qed auto

text \<open>A start on a directory whose one file sends the scan back.\<close>

lemma start_on_wrapping_file:
  fixes L :: "('am, 'rm) libs"
  assumes "dir_ok F (GetDbPath s) 0" and "is_regular F (db_file (GetDbPath s) 0)" and "db_file (GetDbPath s) 0 \<notin> set (denied F)"
    and "file_content F (db_file (GetDbPath s) 0) = enc_log (lib_crc L) (rs @ [([], [])]) @ tail"
    and "log_size rs + header_size = 2 ^ 32"
  shows "BitcaskImpl_new L s F = Inl NonTermination"
proof -
  let ?p = "db_file (GetDbPath s) 0"
  have d: "is_dir (GetDbPath s)" using assms(1) by (simp add: dir_ok_def)
  have "lex_order 0 = []" by (simp add: lex_order_def)
  then have "RestoreStableMap L (BitcaskImpl_init L s F) = Inr (BitcaskImpl_init L s F)"
    using assms(1) d by (simp add: RestoreStableMap_def getActivePathInDir_ok scan_order Let_def)
  moreover have "ActiveFile_Restore (lib_crc L) F ?p cb x = Inl NonTermination" for cb :: "('rm \<times> 'am) callback" and x
    by (simp add: ActiveFile_Restore_def OpenFile_in [OF assms(2,3)] Exist_regular [OF assms(2)]
        scan_never_ends [OF ready_opened(1) assms(4,5)])
  ultimately show ?thesis
    using assms(1) d Exist_regular [OF assms(2)]
    by (simp add: BitcaskImpl_new_def RestoreActiveMap_def getActivePathInDir_ok Let_def)
qed

text \<open>C12. A start that never ends. With a limit of 4 GB or more, which a setting accepts, every sequence of
  puts leaves one file that holds all the records, however long it is: no offset reaches the limit and
  no file is rotated. Whenever some of the records end one header before 4 GB and a record without key
  and value follows them (before any others), the next start reads that record at a position that 32
  bits cannot hold, goes on at the beginning of the file and scans it again without end.\<close>
theorem start_never_ends:
  assumes "libs_ok L" and "fresh_dir F (GetDbPath st)" and "2 ^ 32 \<le> unat (GetMaxFileSize st)"
  shows "\<exists>db replies db1. Bitcask_Create L st F = Inr db \<and> Bitcask_run L (puts kvs) db = Inr (replies, db1)
     \<and> stableFiles db1 = [] \<and> file_content (disk db1) (db_file (GetDbPath st) 0) = enc_log (lib_crc L) kvs
     \<and> (\<forall>rs more. kvs = rs @ ([], []) # more \<and> log_size rs + header_size = 2 ^ 32 \<longrightarrow>
          Bitcask_Create L st (disk db1) = Inl NonTermination)"
proof -
  let ?d = "GetDbPath st" and ?p = "db_file (GetDbPath st) 0"
  obtain db where a: "BitcaskImpl_new L st F = Inr db" "store_ok L db [] [] []" "setting db = st" "pending db = []"
    "dir_ok (disk db) ?d 0"
    by (rule start_fresh [OF assms(1,2)]) blast
  have "one_file L st db []"
    using a by (auto simp: one_file_def store_ok_def files_ok_def holds_log_def handles_ok_def dest: stable_handles_length)
  from one_file_run [OF this assms(3), of kvs] obtain replies db1
    where r: "Bitcask_run L (puts kvs) db = Inr (replies, db1)" "one_file L st db1 kvs" by auto
  have o: "stableFiles db1 = []" "is_regular (disk db1) ?p" "file_content (disk db1) ?p = enc_log (lib_crc L) kvs"
    "usable_dir (disk db1) ?d" "dir_ok (disk db1) ?d 0" using r(2) by (simp_all add: one_file_def)
  have "BitcaskImpl_new L st (disk db1) = Inl NonTermination"
    if "kvs = rs @ ([], []) # more" "log_size rs + header_size = 2 ^ 32" for rs more
    by (rule start_on_wrapping_file [OF o(5,2) usable_dir_file(1) [OF o(4)], of L rs "enc_log (lib_crc L) more"])
      (use o(3) that in simp_all)
  then show ?thesis using a(1) r(1) o(1,3) by (auto simp: Bitcask_Create_def)
qed

section \<open>The property at a concrete store\<close>

theorem start_never_ends_witness:
  "\<exists>v db replies db1. Bitcask_Create example_libs (Setting_new ''db/'' (2 ^ 32) 0 0) no_files = Inr db
     \<and> Bitcask_run example_libs (puts [(''k'', v), ([], []), (''l'', ''w'')]) db = Inr (replies, db1) \<and> stableFiles db1 = []
     \<and> Bitcask_Create example_libs (Setting_new ''db/'' (2 ^ 32) 0 0) (disk db1) = Inl NonTermination"
proof -
  let ?st = "Setting_new ''db/'' (2 ^ 32) 0 0"
  obtain v :: val where v: "length v = 2 ^ 32 - 25" using Ex_list_of_length by blast
  let ?kvs = "[(''k'', v), ([], []), (''l'', ''w'')]"
  have sz: "log_size [(''k'', v)] + header_size = 2 ^ 32" by (simp add: rec_size_def header_size_def v)
  have "2 ^ 32 \<le> unat (GetMaxFileSize ?st)" by (simp add: Setting_new_def GetMaxFileSize_def)
  moreover have "fresh_dir no_files (GetDbPath ?st)"
    by (simp add: Setting_new_def GetDbPath_def fresh_dir_def no_files_def is_dir_def usable_dir_def is_regular_def)
  ultimately obtain db replies db1 where "Bitcask_Create example_libs ?st no_files = Inr db"
    "Bitcask_run example_libs (puts ?kvs) db = Inr (replies, db1)" "stableFiles db1 = []"
    "\<forall>rs more. ?kvs = rs @ ([], []) # more \<and> log_size rs + header_size = 2 ^ 32 \<longrightarrow>
       Bitcask_Create example_libs ?st (disk db1) = Inl NonTermination"
    using start_never_ends [OF libs_ok_example, of no_files ?st ?kvs] by blast
  moreover have "?kvs = [(''k'', v)] @ ([], []) # [(''l'', ''w'')]" by simp
  ultimately show ?thesis using sz by blast
qed

end
