(* ===== verification/BesideDir.thy ===== *)
theory BesideDir
  imports Client
begin

text \<open>
  A database path without a slash at the end, which only the constructor of \<open>Setting\<close> leaves as it is
  (\<open>SetDbPath\<close> appends the slash). The engine appends file names to the path, so its files lie beside
  the directory, while it looks for them in the directory: a start finds the first of them only.
\<close>

text \<open>A path that names a directory without files, or nothing, with nothing that begins like it beside.\<close>

definition beside_dir :: "fsys \<Rightarrow> string \<Rightarrow> bool" where
  "beside_dir F path \<longleftrightarrow> path \<noteq> [] \<and> last path \<noteq> CHR ''/'' \<and> usable_dir F path \<and> distinct (map fst (nodes F))
     \<and> regular_names F path = [] \<and> (\<forall>i. \<not> is_regular F (db_file path i))"

lemma regular_names_slash: "path \<noteq> [] \<Longrightarrow> last path \<noteq> CHR ''/'' \<Longrightarrow> regular_names F path = regular_names F (path @ ''/'')"
  by (simp add: regular_names_def dir_entries_def dir_prefix_def)

text \<open>The files of the engine are not in the directory.\<close>

lemma file_not_in_dir: "path @ ''/'' @ name \<noteq> db_file path i"
proof -
  obtain c cs where "to_string i = c # cs" "is_digit c" by (rule to_string_head)
  then show ?thesis by (auto simp: db_file_def is_digit_def)
qed

lemma beside_dir_grows:
  assumes "beside_dir F path" and "grows path n n' (put_file (db_file path 0) bs F) F'"
  shows "regular_names F' path = []"
proof -
  have p: "path \<noteq> []" "last path \<noteq> CHR ''/''" "distinct (map fst (nodes F))"
    and none: "regular_names F (path @ ''/'') = []"
    using assms(1) regular_names_slash [of path F] by (auto simp: beside_dir_def)
  have d: "is_dir (path @ ''/'')" by (simp add: is_dir_def)
  have dist: "distinct (map fst (nodes (put_file (db_file path 0) bs F)))" using p(3) by simp
  then have "distinct (map fst (nodes F'))" using assms(2) by (simp add: grows_def)
  note names = in_regular_names [OF d this] in_regular_names [OF d p(3)]
  have "name \<notin> set (regular_names F' (path @ ''/''))" for name
    using names(1) [of name] names(2) [of name] none file_not_in_dir [of path name] assms(2)
    unfolding grows_def by auto
  then show ?thesis using regular_names_slash [OF p(1,2), of F'] by (metis last_in_set)
qed

text \<open>A start where no file is found: the active file is the one of number zero.\<close>

lemma start_beside:
  assumes "libs_ok L" and "regular_names F (GetDbPath st) = []" and "log_file (lib_crc L) F (db_file (GetDbPath st) 0) la tail"
  obtains db where "BitcaskImpl_new L st F = Inr db" and "readable_ok L db [] la []"
proof -
  let ?db = "BitcaskImpl_init L st F" and ?d = "GetDbPath st"
  have act: "getActivePathInDir F ?d = db_file ?d 0" and cnt: "stable_count F ?d name = 0" for name
    using assms(2) by (simp_all add: getActivePathInDir_def max_fd_def stable_count_def)
  have stable: "RestoreStableMap L ?db = Inr ?db" by (simp add: RestoreStableMap_def assms(2) Let_def)
  obtain rm am af where r: "RestoreActiveMap L ?db = Inr (True, ?db\<lparr>recordMap := rm, activeMap := am, activeFile := Some af\<rparr>)"
    "af_on (disk ?db) (db_file (GetDbPath (setting ?db)) 0) af"
    "RecordMap_Get (lib_rmap L) rm = RecordMap_Get (lib_rmap L) (recordMap ?db) ++ map_of (rev (file_hints 0 la))"
    "ActiveMap_Get (lib_amap L) am = ActiveMap_Get (lib_amap L) (activeMap ?db) ++ map_of (rev la)"
    by (rule RestoreActiveMap_at [OF assms(1), of ?db 0 la tail]) (use act cnt assms(3) in simp_all)
  let ?r = "?db\<lparr>recordMap := rm, activeMap := am, activeFile := Some af\<rparr>"
  have "index_ok L ?r [] la []"
    using r(3,4) assms(1) by (simp add: index_ok_def index_log_def libs_ok_def index.get_empty active.get_empty)
  moreover have "handles_ok ?r (length ([] :: kvs list)) []" using r(2) by (simp add: handles_ok_def stable_handles_def)
  ultimately have "readable_ok L ?r [] la []"
    using log_file_begins [OF assms(3)] by (simp add: readable_ok_def)
  moreover have "BitcaskImpl_new L st F = Inr ?r" by (simp add: BitcaskImpl_new_def stable r(1))
  ultimately show thesis by (rule that [rotated])
qed

section \<open>What a restart finds\<close>

text \<open>The records of the first file that a sequence of puts fills.\<close>

definition first_file :: "nat \<Rightarrow> kvs \<Rightarrow> kvs" where
  "first_file limit kvs = (case fill limit kvs ([], []) of (ls, la) \<Rightarrow> hd (ls @ [la]))"

text \<open>C31. A setting made by the constructor from a path without a slash at the end puts the data files
  beside the directory of that path, not into it. The store works until it is closed; the next start
  finds no file in the directory, opens the one of number zero as the active file, and every write
  behind the first rotation is gone.\<close>
theorem constructor_path_beside_dir:
  fixes L :: "('am, 'rm) libs"
  assumes "libs_ok L" and "beside_dir F path" and "unat maxFileSize \<le> 2 ^ 31" and "length kvs < 2 ^ 31"
    and "\<forall>r \<in> set kvs. fits_record (fst r) (snd r)"
  shows "\<exists>db replies db1 db2. Bitcask_Create L (Setting_new path maxFileSize percentage sz) F = Inr db
     \<and> Bitcask_run L (puts kvs) db = Inr (replies, db1)
     \<and> is_regular (disk db1) (path @ ''0.db'') \<and> regular_names (disk db1) path = []
     \<and> (\<forall>k. \<exists>db'. Get L k db1 = Inr (abs_get kvs k, db'))
     \<and> reopen L db1 = Inr db2
     \<and> (\<forall>k. \<exists>db'. Get L k db2 = Inr (abs_get (first_file (unat maxFileSize) kvs) k, db'))"
proof -
  let ?st = "Setting_new path maxFileSize percentage sz" and ?n = "unat maxFileSize"
  have p: "GetDbPath ?st = path" "GetMaxFileSize ?st = maxFileSize"
    by (simp_all add: Setting_new_def GetDbPath_def GetMaxFileSize_def)
  have b: "usable_dir F path" "regular_names F path = []" "\<not> is_regular F (db_file path 0)"
    using assms(2) by (simp_all add: beside_dir_def)
  obtain db where db: "BitcaskImpl_new L ?st F = Inr db" "store_ok L db [] [] []"
    "disk db = put_file (db_file path 0) [] F" "setting db = ?st" "pending db = []"
    by (rule start_new_file [OF assms(1), of F ?st, unfolded p, OF b])
  have lim: "limit_of db = ?n" by (simp add: limit_of_def db(4) p)
  obtain ls la where fl: "fill ?n kvs ([], []) = (ls, la)" by fastforce
  obtain replies db1 where r: "Bitcask_run L (puts kvs) db = Inr (replies, db1)" "setting db1 = ?st"
    "store_ok L db1 ls la ([] @ [length ([] :: kvs list)..<length ls])"
    "grows path (length ([] :: kvs list)) (length ls) (disk db) (disk db1)"
    using run_puts [OF assms(1) db(2,5) _ _ _ assms(5), of ls la] assms(3,4) fl
    by (auto simp: lim db(4) p max_record_def)
  let ?F = "disk db1" and ?first = "first_file ?n kvs"
  have files: "files_ok (lib_crc L) ?F path ls la" using r(2,3) by (simp add: store_ok_def p)
  have first: "?first = (ls @ [la]) ! 0" by (simp add: first_file_def fl hd_conv_nth)
  have holds: "holds_log (lib_crc L) ?F (db_file path 0) ?first"
    using files unfolding first by (cases ls) (auto simp: files_ok_def)
  have reg: "is_regular ?F (path @ ''0.db'')"
    using holds by (simp add: holds_log_def db_file_def to_string_zero)
  have names: "regular_names ?F path = []" by (rule beside_dir_grows [OF assms(2) r(4) [unfolded db(3)]])
  have "log_file (lib_crc L) ?F (db_file path 0) ?first []"
    using holds files usable_dir_file(1) [of ?F path 0] by (simp add: log_file_def holds_log_def files_ok_def)
  then obtain db2 where d: "BitcaskImpl_new L ?st ?F = Inr db2" "readable_ok L db2 [] ?first []"
    using start_beside [OF assms(1), of ?F ?st, unfolded p, OF names] by blast
  have whole: "abs_log ls la ([] @ [length ([] :: kvs list)..<length ls]) = kvs" "abs_log [] ?first [] = ?first"
    using fill_concat [OF fl] by (simp_all add: abs_log_def concat_nth_upt)
  have "\<exists>db'. Get L k db1 = Inr (abs_get kvs k, db')" for k
    using Get_readable [OF store_ok_readable [OF r(3)], of k] unfolding whole by metis
  moreover have "\<exists>db'. Get L k db2 = Inr (abs_get ?first k, db')" for k
    using Get_readable [OF d(2), of k] unfolding whole by metis
  moreover have "Bitcask_Create L ?st F = Inr db" "reopen L db1 = Inr db2"
    using db(1) d(1) by (simp_all only: Bitcask_Create_def reopen_def r(2))
  ultimately show ?thesis using r(1) reg names by blast
qed

section \<open>The property at a concrete store\<close>

text \<open>The second write rotates the file of 30 bytes; after the restart it is the last one of its key.\<close>

theorem constructor_path_beside_dir_witness:
  "\<exists>db replies db1 db2 db3. Bitcask_Create example_libs (Setting_new ''data'' 30 0 0) no_files = Inr db
     \<and> Bitcask_run example_libs (puts [(''a'', ''1''), (''b'', ''twenty bytes of text''), (''c'', ''3''), (''b'', ''4'')]) db
         = Inr (replies, db1)
     \<and> reopen example_libs db1 = Inr db2 \<and> Get example_libs ''b'' db2 = Inr (Some ''twenty bytes of text'', db3)"
proof -
  let ?kvs = "[(''a'', ''1''), (''b'', ''twenty bytes of text''), (''c'', ''3''), (''b'', ''4'')]"
  have b: "beside_dir no_files ''data''"
    by (simp add: beside_dir_def no_files_def usable_dir_def regular_names_def dir_entries_def is_regular_def)
  have lost: "abs_get (first_file (unat (30 :: u64)) ?kvs) ''b'' = Some ''twenty bytes of text''"
    by (simp add: first_file_def fill_one_def value_offset_def rec_size_def header_size_def abs_get_def last_write_def
        visible_def TOMBSTONE_def)
  have fits: "unat (30 :: u64) \<le> 2 ^ 31" "length ?kvs < 2 ^ 31" "\<forall>r \<in> set ?kvs. fits_record (fst r) (snd r)" by simp_all
  show ?thesis
    using constructor_path_beside_dir [OF libs_ok_example b fits, of 0 0] lost by metis
qed

end
