(* ===== verification/Batches.thy ===== *)
theory Batches
  imports Client
begin

text \<open>
  Batches of several queued writes (\<open>PutAsync\<close>) committed in one turn of the worker: what a reader
  sees afterwards, what a restart finds, and what goes wrong when the active file rotates before
  the last write of a batch.
\<close>

section \<open>Queueing\<close>

fun Bitcask_PutAsync_all :: "(key \<times> val) list \<Rightarrow> ('am, 'rm) BitcaskImpl \<Rightarrow> ('am, 'rm) BitcaskImpl" where
  "Bitcask_PutAsync_all [] db = db"
| "Bitcask_PutAsync_all ((k, v) # kvs) db = Bitcask_PutAsync_all kvs (snd (Bitcask_PutAsync k v db))"

fun queued_writes :: "nat \<Rightarrow> (key \<times> val) list \<Rightarrow> Write list" where
  "queued_writes i [] = []"
| "queued_writes i ((k, v) # kvs) = \<lparr>w_key = k, w_value = v, w_promise = i\<rparr> # queued_writes (Suc i) kvs"

lemma PutAsync_all: "Bitcask_PutAsync_all kvs db =
    db\<lparr>next_promise := next_promise db + length kvs, pending := pending db @ queued_writes (next_promise db) kvs\<rparr>"
  by (induction kvs db rule: Bitcask_PutAsync_all.induct) (simp_all add: Bitcask_PutAsync_def Put_def)

lemma queued_writes_simps [simp]:
  "batch (queued_writes i kvs) = kvs" "map w_promise (queued_writes i kvs) = [i..<i + length kvs]"
  "length (queued_writes i kvs) = length kvs"
proof (induction kvs arbitrary: i)
  case (Cons kv kvs)
  { case 1 show ?case using Cons by (cases kv) (simp add: batch_def) }
  { case 2 show ?case using Cons by (cases kv) (simp add: upt_rec [of i] del: upt_Suc) }
  { case 3 show ?case using Cons by (cases kv) simp }
qed (simp_all add: batch_def)

lemma limit_of_queue [simp]: "limit_of (db\<lparr>next_promise := i, pending := q\<rparr>) = limit_of db"
  by (simp add: limit_of_def)

text \<open>A turn of the worker on the queue of \<open>kvs\<close> is a commit of \<open>kvs\<close>.\<close>

lemma worker_turn_queued:
  assumes "pending db = []"
  shows "worker_turn L (Bitcask_PutAsync_all kvs db) =
    CommitWrite L (queued_writes (next_promise db) kvs) (db\<lparr>next_promise := next_promise db + length kvs, pending := []\<rparr>)"
  using assms by (simp add: worker_turn_def PutAsync_all)

section \<open>What readers see after a turn\<close>

text \<open>C14. Batches in which only the last write reaches the rotation limit: the turn of the worker returns,
  fulfils exactly the queued promises, in order, and afterwards every key reads as its last write in
  the old logs followed by the batch.\<close>

theorem batch_view:
  fixes L :: "('am, 'rm) libs"
  assumes "libs_ok L" and "store_ok L db ls la ord" and "pending db = []" and "room_for ls la kvs"
    and "rotates_only_last (limit_of db) kvs la"
  shows "\<exists>db'. worker_turn L (Bitcask_PutAsync_all kvs db) = Inr db'
     \<and> fulfilled db' = fulfilled db @ [next_promise db..<next_promise db + length kvs]
     \<and> (\<forall>k. \<exists>db''. Get L k db' = Inr (abs_get (abs_log ls la ord @ kvs) k, db''))"
proof -
  let ?ws = "queued_writes (next_promise db) kvs"
  let ?db = "db\<lparr>next_promise := next_promise db + length kvs, pending := []\<rparr>"
  obtain ls' la' where fl: "fill (limit_of ?db) (batch ?ws) (ls, la) = (ls', la')" by fastforce
  have st: "store_ok L ?db ls la ord" using assms(2) by (simp only: store_ok_queue)
  have room: "room_for ls la (batch ?ws)" and rot: "rotates_only_last (limit_of ?db) (batch ?ws) la"
    using assms(4,5) by (simp_all add: limit_of_def)
  obtain db' where c: "CommitWrite L ?ws ?db = Inr db'" "fulfilled db' = fulfilled ?db @ map w_promise ?ws"
    "store_ok L db' ls' la' (ord @ [length ls..<length ls'])"
    by (rule CommitWrite_store_ok [OF assms(1) st room rot fl])
  have log: "abs_log ls' la' (ord @ [length ls..<length ls']) = abs_log ls la ord @ kvs"
    using abs_log_append [OF store_ok_ord(1) [OF assms(2)] fl] by simp
  have "\<exists>db''. Get L k db' = Inr (abs_get (abs_log ls la ord @ kvs) k, db'')" for k
    using Get_readable [OF store_ok_readable [OF c(3)], of k] unfolding log by blast
  moreover have "worker_turn L (Bitcask_PutAsync_all kvs db) = Inr db'"
    using c(1) worker_turn_queued [OF assms(3)] by simp
  ultimately show ?thesis using c(2) by simp
qed

text \<open>C15. Any batch is durable: however many writes it has and however they rotate the files, a restart
  after the turn reads every write of the old logs and of the batch, as long as at most ten files are
  stable when the turn has ended.\<close>

theorem batch_durable:
  fixes L :: "('am, 'rm) libs"
  assumes "libs_ok L" and "store_ok L db ls la ord" and "dir_ok (disk db) (GetDbPath (setting db)) (length ls)"
    and "pending db = []" and "room_for ls la kvs" and "length (fst (fill (limit_of db) kvs (ls, la))) \<le> 10"
  shows "\<exists>db1 db2. worker_turn L (Bitcask_PutAsync_all kvs db) = Inr db1 \<and> reopen L db1 = Inr db2
     \<and> (\<forall>k. \<exists>db3. Get L k db2 = Inr (abs_get (concat ls @ la @ kvs) k, db3))"
proof -
  let ?ws = "queued_writes (next_promise db) kvs"
  let ?db = "db\<lparr>next_promise := next_promise db + length kvs, pending := []\<rparr>"
  obtain ls' la' where fl: "fill (limit_of ?db) (batch ?ws) (ls, la) = (ls', la')" by fastforce
  have st: "disk_ok L ?db ls la ord" using assms(2) by (simp add: store_ok_disk_ok disk_ok_queue)
  have room: "room_for ls la (batch ?ws)" using assms(5) by simp
  obtain db1 where c: "CommitWrite L ?ws ?db = Inr db1" "same_client ?db db1"
    "files_ok (lib_crc L) (disk db1) (GetDbPath (setting db1)) ls' la'"
    "grows (GetDbPath (setting ?db)) (length ls) (length ls') (disk ?db) (disk db1)"
    by (rule CommitWrite_general [OF assms(1) st room fl])
  have len: "length ls \<le> length ls'" "length ls' \<le> length ls + length kvs"
    using fill_length [OF fl] by simp_all
  have s: "setting db1 = setting db" using c(2) by (simp add: same_client_def)
  have dir: "dir_ok (disk db1) (GetDbPath (setting db1)) (length ls')"
    using dir_ok_grows [OF assms(3) _ len(1)] c(4) s by simp
  have "limit_of ?db = limit_of db" "batch ?ws = kvs" by (simp_all add: limit_of_def)
  then have few: "length ls' \<le> 10" "length ls' < 2 ^ 31" using fl assms(6) by simp_all
  obtain db2 where n: "BitcaskImpl_new L (setting db1) (disk db1) = Inr db2"
    "store_ok L db2 ls' la' (lex_order (length ls'))"
    by (rule restart_ok [OF assms(1) c(3) dir few(2)])
  have "abs_log ls' la' (lex_order (length ls')) = concat ls @ la @ kvs"
    using fill_concat [OF fl] few(1) by (simp add: lex_order_small abs_log_def concat_nth_upt)
  then have "\<exists>db3. Get L k db2 = Inr (abs_get (concat ls @ la @ kvs) k, db3)" for k
    using Get_readable [OF store_ok_readable [OF n(2)], of k] by metis
  moreover have "worker_turn L (Bitcask_PutAsync_all kvs db) = Inr db1"
    using c(1) worker_turn_queued [OF assms(4)] by simp
  ultimately show ?thesis using n(1) by (auto simp: reopen_def Bitcask_Create_def)
qed

section \<open>A rotation before the last write of a batch\<close>

text \<open>C18. If the first of two queued writes fills the active file, the second one lands in the next file
  but is indexed in the old one: reading its key before a restart gives bytes of the old file.\<close>

theorem mid_batch_rotation:
  fixes L :: "('am, 'rm) libs"
  assumes "libs_ok L" and "store_ok L db ls la ord" and "pending db = []" and "room_for ls la [r1, r2]"
    and "limit_of db \<le> value_offset la r1"
    and "value_offset [] r2 + length (snd r2) \<le> log_size (la @ [r1])"
  shows "\<exists>db1 db2. worker_turn L (Bitcask_PutAsync_all [r1, r2] db) = Inr db1
     \<and> Get L (fst r2) db1 = Inr (visible (Some (take (length (snd r2)) (drop (value_offset [] r2)
          (enc_log (lib_crc L) (la @ [r1]))))), db2)"
proof -
  let ?ws = "queued_writes (next_promise db) [r1, r2]" and ?n = "length ls" and ?kvs = "[r1, r2]"
  let ?db = "db\<lparr>next_promise := next_promise db + length ?kvs, pending := []\<rparr>"
  obtain ls' la' where fl: "fill (limit_of ?db) (batch ?ws) (ls, la) = (ls', la')" by fastforce
  have st: "disk_ok L ?db ls la ord" using assms(2) by (simp add: store_ok_disk_ok disk_ok_queue)
  have room: "room_for ls la (batch ?ws)" using assms(4) by simp
  have lim: "limit_of ?db = limit_of db" by simp
  have f1: "fill_one (limit_of db) r1 (ls, la) = (ls @ [la @ [r1]], [])" using assms(5) by (simp add: fill_one_def)
  have fl': "fill_one (limit_of db) r2 (ls @ [la @ [r1]], []) = (ls', la')" using fl lim f1 by simp
  have len: "?n < length ls'" "ls' ! ?n = la @ [r1]" "length ls' < 2 ^ 32"
    using fl' assms(4) by (auto simp: fill_one_def nth_append room_for_def split: if_splits)
  let ?hint = "place_hint ?n (value_offset [] r2) r2"
  have hints: "zip (map fst (batch ?ws)) (place_hints ?n (batch ?ws) (fill_offsets (limit_of ?db) (batch ?ws) (ls, la)))
      = [(fst r1, place_hint ?n (value_offset la r1) r1), (fst r2, ?hint)]"
    by (simp add: f1 place_hints_def)
  obtain db1 where c: "CommitWrite L ?ws ?db = Inr db1" "same_client ?db db1"
    "files_ok (lib_crc L) (disk db1) (GetDbPath (setting db1)) ls' la'"
    "handles_ok db1 (length ls') (ord @ [?n..<length ls'])"
    "RecordMap_Get (lib_rmap L) (recordMap db1) = RecordMap_Get (lib_rmap L) (recordMap ?db) ++ map_of (rev
      [(fst r1, place_hint ?n (value_offset la r1) r1), (fst r2, ?hint)])"
    by (rule CommitWrite_general [OF assms(1) st room fl, unfolded hints])
  let ?d = "GetDbPath (setting db1)"
  have rm: "RecordMap_Get (lib_rmap L) (recordMap db1) (fst r2) = Some ?hint" by (simp add: c(5))
  have small: "value_offset [] r2 < 2 ^ 32" "length (snd r2) < 2 ^ 32"
    using assms(4) by (auto simp: room_for_def value_offset_def rec_size_def)
  have hint: "hint_fd ?hint = word_of_nat ?n" "unat (hint_offset ?hint) = value_offset [] r2"
    "unat (hint_size ?hint) = length (snd r2)"
    using small by (simp_all only: place_hint_def Hint.simps unat_of_nat_u32)
  have fd: "hint_fd ?hint \<noteq> getActiveFD db1"
    using len(1,3) of_nat_u32_eq [of ?n "length ls'"] unfolding hint(1) handles_ok_fd [OF c(4)] by simp
  have js: "?n \<in> set (ord @ [?n..<length ls'])" "\<forall>j \<in> set (ord @ [?n..<length ls']). j < 2 ^ 32"
    using len c(4) by (auto simp: handles_ok_def intro: less_trans)
  have "stable_handles ?d (ord @ [?n..<length ls']) (stableFiles db1)" using c(4) by (simp add: handles_ok_def)
  then obtain sf where sf: "map_of (stableFiles db1) (word_of_nat ?n) = Some sf" "sf_on (db_file ?d ?n) sf"
    using stable_handles_lookup js by blast
  have content: "file_content (disk db1) (db_file ?d ?n) = enc_log (lib_crc L) (la @ [r1])"
    using c(3) len(1,2) by (simp add: files_ok_def holds_log_def)
  then have "unat (hint_offset ?hint) + unat (hint_size ?hint) \<le> length (file_content (disk db1) (db_file ?d ?n))"
    using assms(6) unfolding hint content by (simp only: length_enc_log)
  note slice = StableFile_Read_slice [OF sf(2) this, unfolded hint content]
  define bytes where "bytes = take (length (snd r2)) (drop (value_offset [] r2) (enc_log (lib_crc L) (la @ [r1])))"
  obtain sf' where rd: "StableFile_Read (disk db1) sf (hint_offset ?hint) (hint_size ?hint) = Inr (bytes, sf')"
    using slice unfolding bytes_def by blast
  have "Get L (fst r2) db1 = Inr (visible (Some bytes),
      db1\<lparr>stableFiles := AList.update (hint_fd ?hint) sf' (stableFiles db1)\<rparr>)"
    using rm fd sf(1) rd hint(1) by (simp add: Get_def visible_def Let_def)
  then have "\<exists>db2. Get L (fst r2) db1 = Inr (visible (Some bytes), db2)" by blast
  moreover have "worker_turn L (Bitcask_PutAsync_all ?kvs db) = Inr db1"
    using c(1) worker_turn_queued [OF assms(3)] by simp
  ultimately show ?thesis unfolding bytes_def by blast
qed

section \<open>The properties at a concrete store\<close>

text \<open>The engine on an empty directory with a rotation limit of 30 bytes.\<close>

lemma example_store:
  obtains db where "Bitcask_Create example_libs example_setting no_files = Inr db"
    and "store_ok example_libs db [] [] []" and "pending db = []" and "limit_of db = 30"
    and "dir_ok (disk db) (GetDbPath (setting db)) 0"
proof -
  obtain db where "BitcaskImpl_new example_libs example_setting no_files = Inr db"
    "store_ok example_libs db [] [] []" "setting db = example_setting" "pending db = []"
    "dir_ok (disk db) (GetDbPath example_setting) 0"
    by (rule start_fresh [of example_libs no_files example_setting]) simp_all
  then show thesis using that by (simp add: Bitcask_Create_def limit_of_def)
qed

theorem batch_view_witness:
  "\<exists>db db1 db2. Bitcask_Create example_libs example_setting no_files = Inr db
     \<and> worker_turn example_libs (Bitcask_PutAsync_all [(''a'', ''1''), (''b'', ''2''), (''a'', ''3'')] db) = Inr db1
     \<and> Get example_libs ''a'' db1 = Inr (Some ''3'', db2)"
proof -
  let ?kvs = "[(''a'', ''1''), (''b'', ''2''), (''a'', ''3'')]"
  obtain db where db: "Bitcask_Create example_libs example_setting no_files = Inr db"
    "store_ok example_libs db [] [] []" "pending db = []" "limit_of db = 30"
    by (rule example_store)
  have room: "room_for [] [] ?kvs" by (simp add: room_for_def rec_size_def header_size_def)
  have rot: "rotates_only_last (limit_of db) ?kvs []"
    by (simp add: db(4) rotates_only_last_Cons value_offset_def rec_size_def header_size_def)
  have "abs_get (abs_log [] [] [] @ ?kvs) ''a'' = Some ''3''"
    by (simp add: abs_log_def abs_get_def last_write_def visible_def TOMBSTONE_def)
  with batch_view [OF libs_ok_example db(2,3) room rot] db(1) show ?thesis by metis
qed

text \<open>Twelve writes that fill four files.\<close>

theorem batch_durable_witness:
  "\<exists>db db1 db2 db3. Bitcask_Create example_libs example_setting no_files = Inr db
     \<and> worker_turn example_libs (Bitcask_PutAsync_all [(''a'', ''1''), (''b'', ''2''), (''b'', ''2''), (''b'', ''2''), (''b'', ''2''), (''b'', ''2''),
      (''b'', ''2''), (''b'', ''2''), (''b'', ''2''), (''b'', ''2''), (''b'', ''2''), (''b'', ''2'')] db) = Inr db1
     \<and> reopen example_libs db1 = Inr db2 \<and> Get example_libs ''a'' db2 = Inr (Some ''1'', db3)"
proof -
  let ?kvs = "[(''a'', ''1''), (''b'', ''2''), (''b'', ''2''), (''b'', ''2''), (''b'', ''2''), (''b'', ''2''),
      (''b'', ''2''), (''b'', ''2''), (''b'', ''2''), (''b'', ''2''), (''b'', ''2''), (''b'', ''2'')]"
  obtain db where db: "Bitcask_Create example_libs example_setting no_files = Inr db"
    "store_ok example_libs db [] [] []" "pending db = []" "limit_of db = 30"
    "dir_ok (disk db) (GetDbPath (setting db)) 0"
    by (rule example_store)
  have room: "room_for [] [] ?kvs" by (simp add: room_for_def rec_size_def header_size_def)
  have dir: "dir_ok (disk db) (GetDbPath (setting db)) (length ([] :: kvs list))" using db(5) by simp
  have few: "length (fst (fill (limit_of db) ?kvs ([], []))) \<le> 10"
    by (simp add: db(4) fill_one_def value_offset_def rec_size_def header_size_def)
  have "abs_get (concat [] @ [] @ ?kvs) ''a'' = Some ''1''"
    by (simp add: abs_get_def last_write_def visible_def TOMBSTONE_def)
  with batch_durable [OF libs_ok_example db(2) dir db(3) room few] db(1) show ?thesis by metis
qed

text \<open>The value read back for \<open>d\<close> is a piece of the key of the record before.\<close>

theorem mid_batch_rotation_witness:
  "\<exists>db db1 db2. Bitcask_Create example_libs example_setting no_files = Inr db
     \<and> worker_turn example_libs (Bitcask_PutAsync_all [(''key of 18 letters!'', ''xyz''), (''d'', ''9'')] db) = Inr db1
     \<and> Get example_libs ''d'' db1 = Inr (Some ''e'', db2)"
proof -
  let ?r1 = "(''key of 18 letters!'', ''xyz'')" and ?r2 = "(''d'', ''9'')"
  obtain db where db: "Bitcask_Create example_libs example_setting no_files = Inr db"
    "store_ok example_libs db [] [] []" "pending db = []" "limit_of db = 30"
    by (rule example_store)
  have room: "room_for [] [] [?r1, ?r2]" by (simp add: room_for_def rec_size_def header_size_def)
  have full: "limit_of db \<le> value_offset [] ?r1" by (simp add: db(4) value_offset_def header_size_def)
  have bound: "value_offset [] ?r2 + length (snd ?r2) \<le> log_size ([] @ [?r1])"
    by (simp add: value_offset_def rec_size_def header_size_def)
  have "take (length (snd ?r2)) (drop (value_offset [] ?r2) (enc_log (lib_crc example_libs) ([] @ [?r1]))) = ''e''"
    by (simp add: value_offset_def enc_record_def header_size_def)
  moreover have "visible (Some ''e'') = Some ''e''" by (simp add: visible_def TOMBSTONE_def)
  ultimately show ?thesis
    using mid_batch_rotation [OF libs_ok_example db(2,3) room full bound] db(1) by auto
qed

end
