(* ===== verification/Concurrency.thy ===== *)
theory Concurrency
  imports Batches
begin

text \<open>
  The threads of src/BitcaskImpl.cpp: clients that queue writes, read and wait on futures, the commit
  worker (\<open>CommitWorker\<close>) and the destructor. A step is a critical section of \<open>_mtx\<close> or a stretch of
  the worker between two of them; steps of different threads interleave freely. Clients are not
  known by name: a client that waits on a future is the event \<open>Waited\<close> of its number. A commit is one
  step here and the destructor only clears the flag; theory \<open>Threads\<close> takes a commit apart, and theory
  \<open>Shutdown\<close> has the rest of the destructor.
\<close>

section \<open>The step relation\<close>

text \<open>The worker: before the swap of the queue, before the commit of its batch, before the test of
  \<open>_running\<close>, and after the loop.\<close>

datatype worker = AtSwap | AtCommit "Write list" | AtCheck | Exited

record ('am, 'rm) system =
  engine :: "('am, 'rm) BitcaskImpl"
  worker :: worker

datatype event =
    PutCalled key val nat
  | DeleteCalled key "nat option"
  | GetCalled key "val option"
  | Waited nat
  | Swapped
  | Committed
  | Checked
  | Destroyed  \<comment> \<open>the destructor sets \<open>_running\<close> to false\<close>

inductive sys_step :: "('am, 'rm) libs \<Rightarrow> ('am, 'rm) system \<Rightarrow> event \<Rightarrow> ('am, 'rm) system \<Rightarrow> bool"
  for L :: "('am, 'rm) libs" where
  put: "running (engine s) \<Longrightarrow> Put k v (engine s) = (p, db) \<Longrightarrow>
     sys_step L s (PutCalled k v p) (s\<lparr>engine := db\<rparr>)"
| delete: "running (engine s) \<Longrightarrow> Delete_enqueue L k (engine s) = (r, db) \<Longrightarrow>
     sys_step L s (DeleteCalled k r) (s\<lparr>engine := db\<rparr>)"
| get: "running (engine s) \<Longrightarrow> Get L k (engine s) = Inr (r, db) \<Longrightarrow>
     sys_step L s (GetCalled k r) (s\<lparr>engine := db\<rparr>)"
| wait: "p \<in> set (fulfilled (engine s)) \<Longrightarrow> sys_step L s (Waited p) s"
| swap: "worker s = AtSwap \<Longrightarrow>
     sys_step L s Swapped (s\<lparr>engine := (engine s)\<lparr>pending := []\<rparr>, worker := AtCommit (pending (engine s))\<rparr>)"
| commit: "worker s = AtCommit ws \<Longrightarrow> CommitWrite L ws (engine s) = Inr db \<Longrightarrow>
     sys_step L s Committed (s\<lparr>engine := db, worker := AtCheck\<rparr>)"
| check: "worker s = AtCheck \<Longrightarrow>
     sys_step L s Checked (s\<lparr>worker := (if running (engine s) then AtSwap else Exited)\<rparr>)"
| destroy: "running (engine s) \<Longrightarrow>
     sys_step L s Destroyed (s\<lparr>engine := (engine s)\<lparr>running := False\<rparr>\<rparr>)"

inductive_cases sys_stepE: "sys_step L s e s'"
inductive_simps sys_step_simps:
  "sys_step L s Swapped s'" "sys_step L s Committed s'" "sys_step L s Checked s'" "sys_step L s Destroyed s'"
  "sys_step L s (PutCalled k v p) s'" "sys_step L s (Waited p) s'"

text \<open>The writes an event queues.\<close>

fun queued_by :: "event \<Rightarrow> Write list" where
  "queued_by (PutCalled k v p) = [\<lparr>w_key = k, w_value = v, w_promise = p\<rparr>]"
| "queued_by (DeleteCalled k (Some p)) = [\<lparr>w_key = k, w_value = TOMBSTONE, w_promise = p\<rparr>]"
| "queued_by _ = []"

definition queued :: "event list \<Rightarrow> Write list" where
  "queued es = concat (map queued_by es)"

lemma queued_simps [simp]: "queued [] = []" "queued (es @ [e]) = queued es @ queued_by e"
  by (simp_all add: queued_def)

text \<open>The runs of the system from a state.\<close>

inductive sys_run :: "('am, 'rm) libs \<Rightarrow> ('am, 'rm) system \<Rightarrow> event list \<Rightarrow> ('am, 'rm) system \<Rightarrow> bool"
  for L :: "('am, 'rm) libs" and s0 :: "('am, 'rm) system" where
  start: "sys_run L s0 [] s0"
| step: "sys_run L s0 es s \<Longrightarrow> sys_step L s e s' \<Longrightarrow> sys_run L s0 (es @ [e]) s'"

text \<open>The writes the worker holds.\<close>

fun in_flight :: "worker \<Rightarrow> Write list" where
  "in_flight (AtCommit ws) = ws"
| "in_flight _ = []"

section \<open>The invariant of the queue\<close>

text \<open>
  \<open>done\<close> are the writes committed so far. Every queued write is, in the order of queueing, committed,
  in the worker's hands or in the queue; promises are numbered in that order and fulfilled in it.
\<close>

definition queue_inv :: "Write list \<Rightarrow> Write list \<Rightarrow> ('am, 'rm) system \<Rightarrow> bool" where
  "queue_inv h committed s \<longleftrightarrow> h = committed @ in_flight (worker s) @ pending (engine s)
     \<and> map w_promise h = [0..<next_promise (engine s)]
     \<and> fulfilled (engine s) = map w_promise committed"

lemma Get_client:
  assumes "Get L k db = Inr (r, db')"
  shows "pending db' = pending db \<and> next_promise db' = next_promise db \<and> fulfilled db' = fulfilled db
     \<and> running db' = running db \<and> setting db' = setting db \<and> disk db' = disk db"
  using assms by (auto simp: Get_def Let_def split: option.splits if_splits sum.splits)

lemma publish_client:
  "pending (publish L lw ws hs db) = pending db \<and> next_promise (publish L lw ws hs db) = next_promise db
   \<and> running (publish L lw ws hs db) = running db
   \<and> (length hs = length ws \<longrightarrow> fulfilled (publish L lw ws hs db) = fulfilled db @ map w_promise ws)"
proof -
  have "pending (fold (publish_one L lw) (zip [i..<i + length ws] (zip ws hs)) db) = pending db
     \<and> next_promise (fold (publish_one L lw) (zip [i..<i + length ws] (zip ws hs)) db) = next_promise db
     \<and> running (fold (publish_one L lw) (zip [i..<i + length ws] (zip ws hs)) db) = running db
     \<and> (length hs = length ws \<longrightarrow>
          fulfilled (fold (publish_one L lw) (zip [i..<i + length ws] (zip ws hs)) db) = fulfilled db @ map w_promise ws)" for i
  proof (induction ws hs arbitrary: i db rule: list_induct2')
    case (4 w ws h hs)
    have "zip [i..<i + length (w # ws)] (zip (w # ws) (h # hs)) = (i, w, h) # zip [Suc i..<Suc i + length ws] (zip ws hs)"
      by (simp add: upt_rec [of i] del: upt_Suc)
    with "4.IH" [of "Suc i"] show ?case
      by (simp add: publish_one_def Let_def)
  qed simp_all
  from this [of 0] show ?thesis by (simp add: publish_def)
qed

lemma commit_loop_records:
  "commit_loop ext d m fd ws cs = Inr cs' \<Longrightarrow> length (cs_records cs') = length (cs_records cs) + length ws"
proof (induction ws arbitrary: cs)
  case (Cons w ws)
  then obtain cs1 where c: "commit_one ext d m fd w cs = Inr cs1" "commit_loop ext d m fd ws cs1 = Inr cs'"
    by (auto split: sum.splits)
  have "length (cs_records cs1) = Suc (length (cs_records cs))"
    using c(1) by (auto simp: commit_one_def rotate_files_def Let_def split: option.splits sum.splits if_splits prod.splits)
  with Cons.IH [OF c(2)] show ?case by simp
qed simp

text \<open>A commit that returns fulfils the promises of its batch, whatever the state of the files.\<close>

lemma CommitWrite_client:
  assumes "CommitWrite L ws db = Inr db'"
  shows "pending db' = pending db \<and> next_promise db' = next_promise db \<and> running db' = running db
     \<and> fulfilled db' = fulfilled db @ map w_promise ws"
proof -
  obtain cs where cs: "commit_files L ws db = Inr cs"
    "db' = publish L (cs_last cs) ws (cs_records cs)
      (clear_active L (cs_new cs) (insert_stable (cs_new cs) (db\<lparr>disk := cs_disk cs, activeFile := cs_active cs\<rparr>)))"
    using assms by (auto simp: CommitWrite_def Let_def split: sum.splits)
  have "length (cs_records cs) = length ws"
    using commit_loop_records [OF cs(1) [unfolded commit_files_def]] by (simp add: commit_start_def)
  then show ?thesis
    unfolding cs(2) by (simp add: publish_client clear_active_def insert_stable_def)
qed

lemma queue_inv_step:
  assumes "queue_inv h committed s" and "sys_step L s e s'"
  shows "\<exists>committed'. queue_inv (h @ queued_by e) committed' s'"
  using assms(2)
proof cases
  case (put k v p db)
  then show ?thesis using assms(1) by (intro exI [of _ committed]) (auto simp: queue_inv_def Put_def)
next
  case (delete k r db)
  then show ?thesis using assms(1)
    by (intro exI [of _ committed]) (auto simp: queue_inv_def Delete_enqueue_def Put_def split: option.splits)
next
  case (get k r db)
  from Get_client [OF get(4)] show ?thesis using get assms(1)
    by (intro exI [of _ committed]) (auto simp: queue_inv_def)
next
  case (wait p)
  then show ?thesis using assms(1) by (intro exI [of _ committed]) simp
next
  case swap
  then show ?thesis using assms(1) by (intro exI [of _ committed]) (auto simp: queue_inv_def)
next
  case (commit ws db)
  from CommitWrite_client [OF commit(4)] show ?thesis using commit assms(1)
    by (intro exI [of _ "committed @ ws"]) (auto simp: queue_inv_def)
next
  case check
  then show ?thesis using assms(1) by (intro exI [of _ committed]) (auto simp: queue_inv_def)
next
  case destroy
  then show ?thesis using assms(1) by (intro exI [of _ committed]) (auto simp: queue_inv_def)
qed

definition initial_system :: "('am, 'rm) BitcaskImpl \<Rightarrow> ('am, 'rm) system" where
  "initial_system db = \<lparr>engine = db, worker = AtSwap\<rparr>"

definition just_started :: "('am, 'rm) BitcaskImpl \<Rightarrow> bool" where
  "just_started db \<longleftrightarrow> pending db = [] \<and> fulfilled db = [] \<and> next_promise db = 0 \<and> running db"

lemma queue_inv_run:
  assumes "sys_run L (initial_system db) es s" and "just_started db"
  shows "\<exists>committed. queue_inv (queued es) committed s"
  using assms(1)
proof induction
  case start
  show ?case using assms(2) by (auto simp: queue_inv_def initial_system_def just_started_def)
next
  case (step es s e s')
  then show ?case using queue_inv_step by (metis queued_simps(2))
qed

section \<open>The invariant of the data files\<close>

text \<open>The data files hold the committed writes; the size bound is on all writes ever queued.\<close>

definition disk_inv :: "('am, 'rm) libs \<Rightarrow> Write list \<Rightarrow> ('am, 'rm) BitcaskImpl \<Rightarrow> bool" where
  "disk_inv L committed db \<longleftrightarrow> (\<exists>ls la ord. disk_ok L db ls la ord \<and> concat ls @ la = batch committed
     \<and> length ls \<le> length committed)"

definition small_history :: "Write list \<Rightarrow> bool" where
  "small_history h \<longleftrightarrow> log_size (batch h) < 2 ^ 32"

lemma batch_append [simp]: "batch (xs @ ys) = batch xs @ batch ys"
  by (simp add: batch_def)

lemma small_history_prefix: "small_history (xs @ ys) \<Longrightarrow> small_history xs"
  by (simp add: small_history_def)

lemma log_size_length: "length rs \<le> log_size rs"
  by (induction rs) (simp_all add: rec_size_def header_size_def)

lemma commit_returns:
  assumes "libs_ok L" and "disk_inv L committed db" and "small_history (committed @ ws)"
  obtains db' where "CommitWrite L ws db = Inr db'" and "disk_inv L (committed @ ws) db'"
proof -
  obtain ls la ord where d: "disk_ok L db ls la ord" "concat ls @ la = batch committed" "length ls \<le> length committed"
    using assms(2) by (auto simp: disk_inv_def)
  have total: "log_size (concat ls @ la) + log_size (batch ws) < 2 ^ 32"
    using assms(3) unfolding small_history_def d(2) by simp
  moreover have "length (committed @ ws) \<le> log_size (batch (committed @ ws))"
    using log_size_length [of "batch (committed @ ws)"] by simp
  ultimately have room: "room_for ls la (batch ws)"
    using d(3) assms(3) by (simp add: room_for_def small_history_def)
  obtain ls' la' where fl: "fill (limit_of db) (batch ws) (ls, la) = (ls', la')" by fastforce
  obtain db' where c: "CommitWrite L ws db = Inr db'"
    "files_ok (lib_crc L) (disk db') (GetDbPath (setting db')) ls' la'"
    "handles_ok db' (length ls') (ord @ [length ls..<length ls'])"
    by (rule CommitWrite_general [OF assms(1) d(1) room fl])
  have "disk_ok L db' ls' la' (ord @ [length ls..<length ls'])" using c(2,3) by (simp add: disk_ok_def)
  moreover have "concat ls' @ la' = batch (committed @ ws)" using fill_concat [OF fl] d(2) by simp
  moreover have "length ls' \<le> length (committed @ ws)" using fill_length [OF fl] d(3) by simp
  ultimately have "disk_inv L (committed @ ws) db'" unfolding disk_inv_def by blast
  with c(1) show thesis by (rule that)
qed

lemma StableFile_Read_on:
  assumes "StableFile_Read F sf off n = Inr (v, sf')" and "sf_on p sf" shows "sf_on p sf'"
proof -
  obtain fh where fh: "sf_file sf = Some fh" "st_file fh = Some p" using assms(2) by (auto simp: sf_on_def)
  obtain ok buf s where r: "ReadFile_buf F (st_seekg (unat off) (st_clear fh)) (unat n) = (ok, buf, s)"
    by (metis prod_cases3)
  have "st_file s = Some p" using st_file_ReadFile_buf [OF r] fh(2) by simp
  then show ?thesis
    using assms(1) fh(1) r by (auto simp: StableFile_Read_def ReadValueFromFile_def sf_on_def Let_def split: if_splits)
qed

lemma Get_moves_stream:
  assumes "Get L k db = Inr (r, db')" and "db' \<noteq> db"
  shows "\<exists>(h :: Hint) sf v sf'. map_of (stableFiles db) (hint_fd h) = Some sf
     \<and> StableFile_Read (disk db) sf (hint_offset h) (hint_size h) = Inr (v, sf')
     \<and> db' = db\<lparr>stableFiles := AList.update (hint_fd h) sf' (stableFiles db)\<rparr>"
proof -
  obtain h where h: "RecordMap_Get (lib_rmap L) (recordMap db) k = Some h" "hint_fd h \<noteq> getActiveFD db"
    using assms by (auto simp: Get_def Let_def split: option.splits if_splits)
  obtain sf where sf: "map_of (stableFiles db) (hint_fd h) = Some sf"
    using assms h by (auto simp: Get_def split: option.splits)
  obtain v sf' where r: "StableFile_Read (disk db) sf (hint_offset h) (hint_size h) = Inr (v, sf')"
    using assms(1) h sf by (auto simp: Get_def split: sum.splits)
  have "db' = db\<lparr>stableFiles := AList.update (hint_fd h) sf' (stableFiles db)\<rparr>"
    using assms(1) h sf r by (simp add: Get_def Let_def split: if_splits)
  with sf r show ?thesis by blast
qed

lemma Get_disk_ok:
  assumes "disk_ok L db ls la ord" and "Get L k db = Inr (r, db')"
  shows "disk_ok L db' ls la ord"
proof (cases "db' = db")
  case False
  then obtain h :: Hint and sf v sf' where g: "map_of (stableFiles db) (hint_fd h) = Some sf"
    "StableFile_Read (disk db) sf (hint_offset h) (hint_size h) = Inr (v, sf')"
    "db' = db\<lparr>stableFiles := AList.update (hint_fd h) sf' (stableFiles db)\<rparr>"
    using Get_moves_stream [OF assms(2) False] by blast
  let ?d = "GetDbPath (setting db)"
  have h: "handles_ok db (length ls) ord" using assms(1) by (simp add: disk_ok_def)
  then have sh: "stable_handles ?d ord (stableFiles db)" and lt: "\<forall>j \<in> set ord. j < 2 ^ 32"
    unfolding handles_ok_def by fastforce+
  have "hint_fd h \<in> fst ` set (stableFiles db)" using g(1) by (metis domI dom_map_of_conv_image_fst)
  then obtain j where j: "j \<in> set ord" "hint_fd h = word_of_nat j"
    unfolding stable_handles_dom [OF sh] by blast
  obtain sf1 where "map_of (stableFiles db) (word_of_nat j) = Some sf1" "sf_on (db_file ?d j) sf1"
    by (rule stable_handles_lookup [OF sh lt j(1)])
  then have "sf_on (db_file ?d j) sf" using g(1) j(2) by simp
  then have "sf_on (db_file ?d j) sf'" by (rule StableFile_Read_on [OF g(2)])
  from stable_update_ok [OF h j(1) this] have "handles_ok db' (length ls) ord" unfolding g(3) j(2) .
  then show ?thesis using assms(1) g(3) by (simp add: disk_ok_def)
qed (use assms(1) in simp)

lemma disk_inv_cong:
  "disk_inv L c db \<Longrightarrow> disk db' = disk db \<Longrightarrow> setting db' = setting db \<Longrightarrow> stableFiles db' = stableFiles db \<Longrightarrow>
   activeFile db' = activeFile db \<Longrightarrow> disk_inv L c db'"
  by (auto simp: disk_inv_def disk_ok_def handles_ok_def)

text \<open>Both invariants together.\<close>

definition sys_inv :: "('am, 'rm) libs \<Rightarrow> Write list \<Rightarrow> Write list \<Rightarrow> ('am, 'rm) system \<Rightarrow> bool" where
  "sys_inv L h committed s \<longleftrightarrow> queue_inv h committed s \<and> disk_inv L committed (engine s)"

lemma committed_prefix: "queue_inv h committed s \<Longrightarrow> committed = take (length (fulfilled (engine s))) h"
  by (auto simp: queue_inv_def)

lemma sys_inv_step:
  fixes L :: "('am, 'rm) libs"
  assumes "libs_ok L" and "sys_inv L h committed s" and "sys_step L s e s'" and "small_history (h @ queued_by e)"
  shows "\<exists>committed'. sys_inv L (h @ queued_by e) committed' s'"
proof -
  have q: "queue_inv h committed s" and d: "disk_inv L committed (engine s)"
    using assms(2) by (simp_all add: sys_inv_def)
  obtain committed' where q': "queue_inv (h @ queued_by e) committed' s'"
    using queue_inv_step [OF q assms(3)] by blast
  have same: "committed' = committed" if "fulfilled (engine s') = fulfilled (engine s)"
  proof -
    have "length (fulfilled (engine s)) \<le> length h"
      using q unfolding queue_inv_def by (metis length_append length_map le_add1)
    then show ?thesis using committed_prefix [OF q'] committed_prefix [OF q] that by simp
  qed
  have "disk_inv L committed' (engine s')"
    using assms(3)
  proof cases
    case (put k v p db)
    then show ?thesis using same d disk_inv_cong [OF d, of db] by (auto simp: Put_def)
  next
    case (delete k r db)
    then show ?thesis
      using same d disk_inv_cong [OF d, of db] by (auto simp: Delete_enqueue_def Put_def split: option.splits)
  next
    case (get k r db)
    obtain ls la ord where "disk_ok L (engine s) ls la ord" "concat ls @ la = batch committed"
      "length ls \<le> length committed"
      using d by (auto simp: disk_inv_def)
    with Get_disk_ok [OF _ get(4)] have "disk_inv L committed db" unfolding disk_inv_def by blast
    then show ?thesis using same get Get_client [OF get(4)] by simp
  next
    case (wait p)
    then show ?thesis using same d by simp
  next
    case swap
    then show ?thesis using same disk_inv_cong [OF d] by simp
  next
    case (commit ws db)
    have h: "h = committed @ ws @ pending (engine s)" using q commit(3) by (simp add: queue_inv_def)
    then have "small_history (committed @ ws)"
      using assms(4) small_history_prefix [of "committed @ ws"] by simp
    then obtain db1 where db1: "CommitWrite L ws (engine s) = Inr db1" "disk_inv L (committed @ ws) db1"
      by (rule commit_returns [OF assms(1) d])
    have "fulfilled db = map w_promise committed @ map w_promise ws"
      using CommitWrite_client [OF commit(4)] q by (simp add: queue_inv_def)
    then have "committed' = committed @ ws"
      using committed_prefix [OF q'] commit h by simp
    then show ?thesis using db1 commit by simp
  next
    case check
    then show ?thesis using same d by simp
  next
    case destroy
    then show ?thesis using same disk_inv_cong [OF d] by simp
  qed
  with q' show ?thesis by (auto simp: sys_inv_def)
qed

lemma sys_inv_run:
  fixes L :: "('am, 'rm) libs"
  assumes "libs_ok L" and "sys_run L (initial_system db) es s" and "just_started db" and "disk_inv L [] db"
    and "small_history (queued es)"
  shows "\<exists>committed. sys_inv L (queued es) committed s"
  using assms(2,5)
proof induction
  case start
  show ?case using assms(3,4)
    by (auto simp: sys_inv_def queue_inv_def initial_system_def just_started_def)
next
  case (step es s e s')
  then obtain committed where "sys_inv L (queued es) committed s"
    using small_history_prefix by auto
  from sys_inv_step [OF assms(1) this step.hyps(2)] step.prems show ?case by simp
qed

text \<open>The start of the examples and of the properties: the engine on a fresh directory.\<close>

lemma fresh_system:
  fixes L :: "('am, 'rm) libs"
  assumes "libs_ok L" and "fresh_dir F (GetDbPath s)" and "Bitcask_Create L s F = Inr db"
  shows "just_started db" and "store_ok L db [] [] []" and "disk_inv L [] db" and "setting db = s"
proof -
  obtain db' where n: "BitcaskImpl_new L s F = Inr db'" "store_ok L db' [] [] []" "setting db' = s" "running db'"
    "pending db' = []" "fulfilled db' = []" "next_promise db' = 0"
    by (rule start_fresh [OF assms(1,2)])
  then have eq: "db' = db" using assms(3) by (simp add: Bitcask_Create_def)
  show "just_started db" using n eq by (simp add: just_started_def)
  show "store_ok L db [] [] []" and "setting db = s" using n(2,3) eq by simp_all
  then have "disk_ok L db [] [] []" by (simp add: store_ok_disk_ok)
  moreover have "concat [] @ [] = batch []" by (simp add: batch_def)
  ultimately show "disk_inv L [] db" unfolding disk_inv_def by (metis list.size(3) order.refl)
qed

section \<open>Progress of the worker\<close>

text \<open>From the test of \<open>_running\<close> and from the swap, what the worker's own steps reach.\<close>

lemma worker_swap_commit:
  fixes L :: "('am, 'rm) libs"
  assumes "libs_ok L" and "sys_inv L h committed s" and "worker s = AtSwap" and "small_history h"
    and "sys_run L s0 es s"
  shows "\<exists>s'. sys_run L s0 (es @ [Swapped, Committed]) s' \<and> fulfilled (engine s') = [0..<next_promise (engine s)]"
proof -
  let ?ws = "pending (engine s)" and ?db = "(engine s)\<lparr>pending := []\<rparr>"
  let ?s1 = "s\<lparr>engine := ?db, worker := AtCommit ?ws\<rparr>"
  have q: "h = committed @ ?ws" "map w_promise h = [0..<next_promise (engine s)]"
    "fulfilled (engine s) = map w_promise committed" and d: "disk_inv L committed ?db"
    using assms(2,3) disk_inv_cong [of L committed "engine s" ?db] by (auto simp: sys_inv_def queue_inv_def)
  have small: "small_history (committed @ ?ws)" using assms(4) q(1) by simp
  obtain db' where c: "CommitWrite L ?ws ?db = Inr db'" by (rule commit_returns [OF assms(1) d small])
  have "sys_step L s Swapped ?s1" by (rule sys_step.swap [OF assms(3)])
  moreover have "sys_step L ?s1 Committed (?s1\<lparr>engine := db', worker := AtCheck\<rparr>)"
    by (rule sys_step.commit [of _ ?ws]) (use c in simp_all)
  ultimately have "sys_run L s0 ((es @ [Swapped]) @ [Committed]) (?s1\<lparr>engine := db', worker := AtCheck\<rparr>)"
    using assms(5) sys_run.step by metis
  moreover have "fulfilled db' = [0..<next_promise (engine s)]"
  proof -
    have "fulfilled db' = map w_promise (committed @ ?ws)"
      using CommitWrite_client [OF c] q(3) by simp
    then show ?thesis using q(1,2) by metis
  qed
  ultimately show ?thesis by force
qed

lemma worker_check_swap:
  assumes "worker s = AtCheck" and "running (engine s)" and "sys_inv L h committed s" and "sys_run L s0 es s"
  shows "sys_run L s0 (es @ [Checked]) (s\<lparr>worker := AtSwap\<rparr>) \<and> sys_inv L h committed (s\<lparr>worker := AtSwap\<rparr>)"
proof -
  have "sys_step L s Checked (s\<lparr>worker := AtSwap\<rparr>)"
    using sys_step.check [OF assms(1), of L] assms(2) by simp
  then show ?thesis
    using sys_run.step [OF assms(4)] assms(1,3) by (auto simp: sys_inv_def queue_inv_def)
qed

lemma worker_fulfils_all:
  fixes L :: "('am, 'rm) libs"
  assumes "libs_ok L" and "sys_inv L h committed s" and "running (engine s)" and "small_history h"
    and "sys_run L s0 es s" and "worker s \<noteq> Exited"
  shows "\<exists>es' s'. sys_run L s0 (es @ es') s' \<and> set es' \<subseteq> {Swapped, Committed, Checked} \<and> length es' \<le> 4
     \<and> fulfilled (engine s') = [0..<next_promise (engine s)]"
proof -
  have from_swap: "\<exists>es' s'. sys_run L s0 (es1 @ es') s' \<and> set es' \<subseteq> {Swapped, Committed, Checked} \<and> length es' \<le> 2
      \<and> fulfilled (engine s') = [0..<next_promise (engine s1)]"
    if "sys_inv L h c s1" "worker s1 = AtSwap" "sys_run L s0 es1 s1" for s1 es1 c
    using worker_swap_commit [OF assms(1) that(1,2) assms(4) that(3)]
    by (intro exI [of _ "[Swapped, Committed]"]) auto
  have from_check: "\<exists>es' s'. sys_run L s0 (es1 @ es') s' \<and> set es' \<subseteq> {Swapped, Committed, Checked} \<and> length es' \<le> 3
      \<and> fulfilled (engine s') = [0..<next_promise (engine s1)]"
    if c: "sys_inv L h c s1" "worker s1 = AtCheck" "sys_run L s0 es1 s1" "running (engine s1)" for s1 es1 c
  proof -
    obtain es' s' where r: "sys_run L s0 ((es1 @ [Checked]) @ es') s'" "set es' \<subseteq> {Swapped, Committed, Checked}"
      "length es' \<le> 2" "fulfilled (engine s') = [0..<next_promise (engine s1)]"
      using from_swap [of c "s1\<lparr>worker := AtSwap\<rparr>" "es1 @ [Checked]"]
        worker_check_swap [OF c(2,4,1,3)] by auto
    then show ?thesis by (intro exI [of _ "Checked # es'"] exI [of _ s']) auto
  qed
  show ?thesis
  proof (cases "worker s")
    case AtSwap
    obtain es' s' where "sys_run L s0 (es @ es') s'" "set es' \<subseteq> {Swapped, Committed, Checked}" "length es' \<le> 2"
      "fulfilled (engine s') = [0..<next_promise (engine s)]"
      using from_swap [OF assms(2) AtSwap assms(5)] by blast
    then show ?thesis by (intro exI [of _ es'] exI [of _ s']) simp
  next
    case (AtCommit ws)
    have small: "small_history (committed @ ws)"
      using assms(2,4) AtCommit small_history_prefix [of "committed @ ws"] by (auto simp: sys_inv_def queue_inv_def)
    obtain db' where c: "CommitWrite L ws (engine s) = Inr db'"
      using commit_returns [OF assms(1) _ small] assms(2) by (auto simp: sys_inv_def)
    let ?s1 = "s\<lparr>engine := db', worker := AtCheck\<rparr>"
    have st: "sys_step L s Committed ?s1" by (rule sys_step.commit [OF AtCommit c])
    obtain c1 where inv: "sys_inv L h c1 ?s1"
      using sys_inv_step [OF assms(1,2) st] assms(4) by auto
    note cl = CommitWrite_client [OF c]
    obtain es' s' where r: "sys_run L s0 ((es @ [Committed]) @ es') s'" "set es' \<subseteq> {Swapped, Committed, Checked}"
      "length es' \<le> 3" "fulfilled (engine s') = [0..<next_promise (engine ?s1)]"
      using from_check [OF inv _ sys_run.step [OF assms(5) st]] cl assms(3) by auto
    then show ?thesis using cl by (intro exI [of _ "Committed # es'"] exI [of _ s']) auto
  next
    case AtCheck
    obtain es' s' where "sys_run L s0 (es @ es') s'" "set es' \<subseteq> {Swapped, Committed, Checked}" "length es' \<le> 3"
      "fulfilled (engine s') = [0..<next_promise (engine s)]"
      using from_check [OF assms(2) AtCheck assms(5,3)] by blast
    then show ?thesis by (intro exI [of _ es'] exI [of _ s']) simp
  next
    case Exited
    with assms(6) show ?thesis by simp
  qed
qed

text \<open>The worker leaves its loop only after the destructor has begun.\<close>

lemma exited_not_running:
  assumes "sys_run L (initial_system db) es s" and "just_started db"
  shows "worker s = Exited \<longrightarrow> \<not> running (engine s)"
  using assms(1)
proof induction
  case start
  show ?case by (simp add: initial_system_def)
next
  case (step es s e s')
  from step.hyps(2) step.IH show ?case
    by cases (auto simp: Put_def Delete_enqueue_def split: option.splits if_splits dest: Get_client CommitWrite_client)
qed

section \<open>Reads while no batch rotates before its last write\<close>

text \<open>
  The calm runs: in every commit at most the last write of the batch reaches the rotation limit. The
  logs that the commits before it have left are a function of the writes committed.
\<close>

definition filled :: "nat \<Rightarrow> Write list \<Rightarrow> kvs list \<times> kvs" where
  "filled limit ws = fill limit (batch ws) ([], [])"

definition calm :: "nat \<Rightarrow> Write list \<Rightarrow> ('am, 'rm) system \<Rightarrow> event \<Rightarrow> bool" where
  "calm limit h s e \<longleftrightarrow> (e = Committed \<longrightarrow> rotates_only_last limit (batch (in_flight (worker s)))
     (snd (filled limit (take (length (fulfilled (engine s))) h))))"

inductive calm_run :: "('am, 'rm) libs \<Rightarrow> nat \<Rightarrow> ('am, 'rm) system \<Rightarrow> event list \<Rightarrow> ('am, 'rm) system \<Rightarrow> bool"
  for L :: "('am, 'rm) libs" and limit :: nat and s0 :: "('am, 'rm) system" where
  calm_start: "calm_run L limit s0 [] s0"
| calm_step: "calm_run L limit s0 es s \<Longrightarrow> sys_step L s e s' \<Longrightarrow> calm limit (queued es) s e \<Longrightarrow>
     calm_run L limit s0 (es @ [e]) s'"

lemma calm_run_run: "calm_run L limit s0 es s \<Longrightarrow> sys_run L s0 es s"
  by (induction rule: calm_run.induct) (auto intro: sys_run.intros)

definition calm_inv :: "('am, 'rm) libs \<Rightarrow> Setting \<Rightarrow> Write list \<Rightarrow> ('am, 'rm) BitcaskImpl \<Rightarrow> bool" where
  "calm_inv L st committed db \<longleftrightarrow> setting db = st \<and> (\<exists>ord ls la. store_ok L db ls la ord
     \<and> filled (unat (GetMaxFileSize st)) committed = (ls, la) \<and> abs_log ls la ord = batch committed)"

lemma calm_inv_cong:
  "calm_inv L st c db \<Longrightarrow> disk db' = disk db \<Longrightarrow> setting db' = setting db \<Longrightarrow> stableFiles db' = stableFiles db \<Longrightarrow>
   activeFile db' = activeFile db \<Longrightarrow> recordMap db' = recordMap db \<Longrightarrow> activeMap db' = activeMap db \<Longrightarrow> calm_inv L st c db'"
  unfolding calm_inv_def store_ok_def handles_ok_def index_ok_def by (elim conjE) simp

lemma calm_inv_Get:
  assumes "calm_inv L st c db" and "Get L k db = Inr (r, db')"
  shows "r = abs_get (batch c) k" and "calm_inv L st c db'"
proof -
  obtain ord ls la where c: "setting db = st" "store_ok L db ls la ord"
    "filled (unat (GetMaxFileSize st)) c = (ls, la)" "abs_log ls la ord = batch c"
    using assms(1) unfolding calm_inv_def by blast
  obtain db1 where g: "Get L k db = Inr (abs_get (abs_log ls la ord) k, db1)"
    "only_streams (GetDbPath (setting db)) ord db db1"
    by (rule Get_readable [OF store_ok_readable [OF c(2)]])
  then have eq: "db1 = db'" and r: "r = abs_get (batch c) k" using assms(2) c(4) by simp_all
  have "setting db' = setting db" using Get_client [OF assms(2)] by blast
  then show "calm_inv L st c db'"
    using only_streams_store_ok [OF c(2) g(2)] c unfolding eq calm_inv_def by auto
  show "r = abs_get (batch c) k" by (rule r)
qed

lemma fill_sizes: "fill limit rs (ls, la) = (ls', la') \<Longrightarrow> log_size la' \<le> log_size la + log_size rs"
proof (induction rs arbitrary: ls la)
  case (Cons r rs)
  obtain ls1 la1 where f: "fill_one limit r (ls, la) = (ls1, la1)" by fastforce
  with Cons.IH [of ls1 la1] Cons.prems fill_one_size [OF f] show ?case by simp
qed simp

lemma calm_inv_commit:
  fixes L :: "('am, 'rm) libs"
  assumes "libs_ok L" and "calm_inv L st c db" and "small_history (c @ ws)"
    and "rotates_only_last (unat (GetMaxFileSize st)) (batch ws) (snd (filled (unat (GetMaxFileSize st)) c))"
    and "CommitWrite L ws db = Inr db'"
  shows "calm_inv L st (c @ ws) db'"
proof -
  let ?m = "unat (GetMaxFileSize st)"
  obtain ord ls la where c: "setting db = st" "store_ok L db ls la ord" "filled ?m c = (ls, la)"
    "abs_log ls la ord = batch c"
    using assms(2) unfolding calm_inv_def by blast
  have lim: "limit_of db = ?m" using c(1) by (simp add: limit_of_def)
  obtain ls' la' where fl: "fill ?m (batch ws) (ls, la) = (ls', la')" by fastforce
  have fl_c: "fill ?m (batch c) ([], []) = (ls, la)" using c(3) by (simp add: filled_def)
  have "length (batch (c @ ws)) \<le> log_size (batch (c @ ws))" by (rule log_size_length)
  then have room: "room_for ls la (batch ws)"
    using fill_sizes [OF fl_c] fill_length [OF fl_c] assms(3) by (simp add: room_for_def small_history_def)
  have rot: "rotates_only_last (limit_of db) (batch ws) la" using assms(4) c(3) lim by simp
  obtain db1 where d: "CommitWrite L ws db = Inr db1" "same_client db db1"
    "store_ok L db1 ls' la' (ord @ [length ls..<length ls'])"
    by (rule CommitWrite_store_ok [OF assms(1) c(2) room rot fl [folded lim]])
  have "filled ?m (c @ ws) = (ls', la')" using fl_c fl by (simp add: filled_def fill_append)
  moreover have "abs_log ls' la' (ord @ [length ls..<length ls']) = batch (c @ ws)"
    using abs_log_append [OF store_ok_ord(1) [OF c(2)] fl] c(4) by simp
  moreover have "setting db1 = st" using d(2) c(1) by (simp add: same_client_def)
  ultimately have "calm_inv L st (c @ ws) db1" using d(3) unfolding calm_inv_def by blast
  then show ?thesis using d(1) assms(5) by simp
qed

lemma calm_inv_step:
  fixes L :: "('am, 'rm) libs"
  assumes "libs_ok L" and "queue_inv h c s" and "calm_inv L st c (engine s)" and "sys_step L s e s'"
    and "queue_inv (h @ queued_by e) c' s'" and "small_history h" and "calm (unat (GetMaxFileSize st)) h s e"
  shows "calm_inv L st c' (engine s')"
proof -
  have le: "length (fulfilled (engine s)) \<le> length h"
    using assms(2) unfolding queue_inv_def by (metis length_append length_map le_add1)
  note pre = committed_prefix [OF assms(5)] committed_prefix [OF assms(2)]
  have same: "c' = c" if "fulfilled (engine s') = fulfilled (engine s)"
    using le pre that by simp
  note cong = calm_inv_cong [OF assms(3)]
  show ?thesis
    using assms(4)
  proof cases
    case (put k v p db)
    then show ?thesis using same cong [of db] by (auto simp: Put_def)
  next
    case (delete k r db)
    then show ?thesis using same cong [of db] by (auto simp: Delete_enqueue_def Put_def split: option.splits)
  next
    case (get k r db)
    then show ?thesis using same calm_inv_Get(2) [OF assms(3) get(4)] Get_client [OF get(4)] by simp
  next
    case (wait p)
    then show ?thesis using same assms(3) by simp
  next
    case swap
    then show ?thesis using same cong by simp
  next
    case (commit ws db)
    have h: "h = c @ ws @ pending (engine s)" using assms(2) commit(3) by (simp add: queue_inv_def)
    have small: "small_history (c @ ws)"
      using assms(6) small_history_prefix [of "c @ ws"] by (simp add: h)
    have rot: "rotates_only_last (unat (GetMaxFileSize st)) (batch ws) (snd (filled (unat (GetMaxFileSize st)) c))"
      using assms(7) commit(1,3) pre(2) by (simp add: calm_def)
    have "fulfilled db = map w_promise c @ map w_promise ws"
      using CommitWrite_client [OF commit(4)] assms(2) by (simp add: queue_inv_def)
    then have "c' = c @ ws" using pre(1) commit h by simp
    then show ?thesis using calm_inv_commit [OF assms(1,3) small rot commit(4)] commit by simp
  next
    case check
    then show ?thesis using same assms(3) by simp
  next
    case destroy
    then show ?thesis using same cong by simp
  qed
qed

lemma calm_inv_run:
  fixes L :: "('am, 'rm) libs"
  assumes "libs_ok L" and "calm_run L (unat (GetMaxFileSize st)) (initial_system db) es s" and "just_started db"
    and "calm_inv L st [] db" and "small_history (queued es)"
  shows "\<exists>c. queue_inv (queued es) c s \<and> calm_inv L st c (engine s)"
  using assms(2,5)
proof induction
  case calm_start
  show ?case using assms(3,4) by (auto simp: queue_inv_def initial_system_def just_started_def)
next
  case (calm_step es s e s')
  then obtain c where c: "queue_inv (queued es) c s" "calm_inv L st c (engine s)"
    using small_history_prefix by auto
  have small: "small_history (queued es)" using calm_step.prems small_history_prefix by auto
  obtain c' where q': "queue_inv (queued es @ queued_by e) c' s'" using queue_inv_step [OF c(1) calm_step.hyps(2)] by blast
  from calm_inv_step [OF assms(1) c calm_step.hyps(2) q' small calm_step.hyps(3)] q' show ?case by auto
qed

lemma calm_inv_start: "setting db = st \<Longrightarrow> store_ok L db [] [] [] \<Longrightarrow> calm_inv L st [] db"
  unfolding calm_inv_def by (rule conjI, assumption, rule exI [of _ "[]"])
    (simp add: filled_def batch_def abs_log_def)

text \<open>Commits of at most one write are calm.\<close>

lemma calm_single: "length (in_flight (worker s)) \<le> 1 \<Longrightarrow> calm limit h s e"
  by (cases "in_flight (worker s)") (auto simp: calm_def batch_def)

lemma calm_run_single:
  assumes "sys_run L (initial_system db) es s" and "just_started db" and "length (queued es) \<le> 1"
  shows "calm_run L limit (initial_system db) es s"
  using assms(1,3)
proof induction
  case start
  show ?case by (rule calm_start)
next
  case (step es s e s')
  obtain c where "queue_inv (queued es) c s" using queue_inv_run [OF step.hyps(1) assms(2)] by blast
  then have "length (in_flight (worker s)) \<le> length (queued es)" by (simp add: queue_inv_def)
  then have "calm limit (queued es) s e" using step.prems by (intro calm_single) simp
  with step.IH step.hyps(2) step.prems show ?case by (intro calm_step) simp_all
qed

section \<open>Properties of the threads\<close>

text \<open>Progress: while the store is open, the worker alone fulfils every promise handed out so far
  within four of its steps; no commit faults.\<close>

lemma worker_progress:
  fixes L :: "('am, 'rm) libs"
  assumes "libs_ok L" and "fresh_dir F (GetDbPath st)" and "Bitcask_Create L st F = Inr db"
    and "sys_run L (initial_system db) es s" and "small_history (queued es)" and "running (engine s)"
  shows "\<exists>es' s'. sys_run L (initial_system db) (es @ es') s' \<and> set es' \<subseteq> {Swapped, Committed, Checked}
     \<and> length es' \<le> 4 \<and> fulfilled (engine s') = [0..<next_promise (engine s)]"
proof -
  note fresh = fresh_system [OF assms(1-3)]
  obtain c where c: "sys_inv L (queued es) c s"
    using sys_inv_run [OF assms(1,4) fresh(1,3) assms(5)] by blast
  have "worker s \<noteq> Exited" using exited_not_running [OF assms(4) fresh(1)] assms(6) by blast
  from worker_fulfils_all [OF assms(1) c assms(6,5,4) this] show ?thesis .
qed

text \<open>Reads under concurrency: as long as no commit rotates the active file before the last write of
  its batch, a \<open>Get\<close> at any moment returns the last write of its key among exactly the writes whose
  futures are ready.\<close>

lemma get_sees_committed:
  fixes L :: "('am, 'rm) libs"
  assumes "libs_ok L" and "fresh_dir F (GetDbPath st)" and "Bitcask_Create L st F = Inr db"
    and "calm_run L (unat (GetMaxFileSize st)) (initial_system db) es s" and "small_history (queued es)"
    and "sys_step L s (GetCalled k r) s'"
  shows "r = abs_get (batch (take (length (fulfilled (engine s))) (queued es))) k"
proof -
  note fresh = fresh_system [OF assms(1-3)]
  obtain c where c: "queue_inv (queued es) c s" "calm_inv L st c (engine s)"
    using calm_inv_run [OF assms(1,4) fresh(1) calm_inv_start [OF fresh(4,2)] assms(5)] by blast
  obtain db' where "Get L k (engine s) = Inr (r, db')" using assms(6) by (auto elim: sys_stepE)
  from calm_inv_Get(1) [OF c(2) this] committed_prefix [OF c(1)] show ?thesis by simp
qed

section \<open>A read that overlaps a rotation\<close>

text \<open>
  \<open>Get\<close> holds a shared lock; the worker publishes a commit under a shared lock or none, so the two
  overlap. The two stages of \<open>Get\<close>: the lookup of the hint with the test against \<open>getActiveFD\<close>, and
  the read of the value.
\<close>

datatype get_stage = Miss | InActive | InStable Hint

definition Get_lookup :: "('am, 'rm) libs \<Rightarrow> key \<Rightarrow> ('am, 'rm) BitcaskImpl \<Rightarrow> get_stage" where
  "Get_lookup L k db = (case RecordMap_Get (lib_rmap L) (recordMap db) k of
       None \<Rightarrow> Miss
     | Some record \<Rightarrow> if hint_fd record = getActiveFD db then InActive else InStable record)"

definition Get_finish :: "('am, 'rm) libs \<Rightarrow> key \<Rightarrow> get_stage \<Rightarrow> ('am, 'rm) BitcaskImpl
    \<Rightarrow> (val option \<times> ('am, 'rm) BitcaskImpl) outcome" where
  "Get_finish L k stage db = (case stage of
       Miss \<Rightarrow> Inr (None, db)
     | InActive \<Rightarrow>
         let v = ActiveMap_Get (lib_amap L) (activeMap db) k in if v = Some TOMBSTONE then Inr (None, db) else Inr (v, db)
     | InStable record \<Rightarrow>
         (case map_of (stableFiles db) (hint_fd record) of
            None \<Rightarrow> Inr (None, db)
          | Some sf \<Rightarrow>
              (case StableFile_Read (disk db) sf (hint_offset record) (hint_size record) of
                 Inl e \<Rightarrow> Inl e
               | Inr (v, sf) \<Rightarrow>
                   let db = db\<lparr>stableFiles := AList.update (hint_fd record) sf (stableFiles db)\<rparr>
                   in if v = TOMBSTONE then Inr (None, db) else Inr (Some v, db))))"

text \<open>The two stages without a commit between them are \<open>Get\<close>.\<close>

lemma get_stages: "Get L k db = Get_finish L k (Get_lookup L k db) db"
  by (simp add: Get_def Get_lookup_def Get_finish_def Let_def split: option.splits)

text \<open>C20. With a commit that rotates the active file between the stages, \<open>Get\<close> reports a key as absent
  that is present before and after: the map of the active file has been cleared in between.\<close>

theorem get_misses_during_rotation:
  fixes L :: "('am, 'rm) libs"
  assumes "libs_ok L" and "store_ok L db ls la ord" and "room_for ls la (batch [w])"
    and "limit_of db \<le> value_offset la (w_key w, w_value w)"
    and "last_write la k = Some v" and "v \<noteq> TOMBSTONE" and "w_key w \<noteq> k"
  shows "\<exists>db' db1 db2. CommitWrite L [w] db = Inr db'
     \<and> Get L k db = Inr (Some v, db1) \<and> Get L k db' = Inr (Some v, db2)
     \<and> Get_finish L k (Get_lookup L k db) db' = Inr (None, db')"
proof -
  let ?r = "(w_key w, w_value w)"
  have b: "batch [w] = [?r]" by (simp add: batch_def)
  have fl: "fill (limit_of db) (batch [w]) (ls, la) = (ls @ [la @ [?r]], [])"
    using assms(4) by (simp add: b fill_one_def)
  have rot: "rotates_only_last (limit_of db) (batch [w]) la" by (simp add: b)
  obtain db' where c: "CommitWrite L [w] db = Inr db'"
    "store_ok L db' (ls @ [la @ [?r]]) [] (ord @ [length ls..<length (ls @ [la @ [?r]])])"
    by (rule CommitWrite_store_ok [OF assms(1-3) rot fl])
  let ?log = "abs_log ls la ord"
  have vis: "visible (Some v) = Some v" using assms(6) by (simp add: visible_def)
  have before: "last_write ?log k = Some v" using assms(5) by (simp add: abs_log_def last_write_append)
  have log': "abs_log (ls @ [la @ [?r]]) [] (ord @ [length ls..<length (ls @ [la @ [?r]])]) = ?log @ [?r]"
    using abs_log_append [OF store_ok_ord(1) [OF assms(2)] fl] by (simp add: b)
  have after: "last_write (?log @ [?r]) k = Some v"
    using before assms(7) by (simp add: last_write_snoc)
  have get: "\<exists>db1. Get L k db = Inr (Some v, db1)"
    using Get_readable [OF store_ok_readable [OF assms(2)], of k] before vis by (metis abs_get_def)
  have get': "\<exists>db2. Get L k db' = Inr (Some v, db2)"
    using Get_readable [OF store_ok_readable [OF c(2)], of k] after vis unfolding log' by (metis abs_get_def)
  have ix: "index_ok L db ls la ord" using assms(2) by (simp add: store_ok_def)
  have "map_of (rev (file_hints (length ls) la)) k \<noteq> None"
    using map_of_hints_dom [of "length ls" la k] assms(5) by (simp add: last_write_def)
  then obtain h where h: "map_of (rev (file_hints (length ls) la)) k = Some h" by auto
  then have "hint_fd h = word_of_nat (length ls)" by (metis file_hints_fd map_of_SomeD set_rev)
  moreover have "map_of (rev (index_log ls la ord)) k = Some h"
    unfolding index_log_def map_of_rev_append h by simp
  ultimately have "Get_lookup L k db = InActive"
    using index_ok_lookup(1) [OF ix, of k] store_ok_ord(5) [OF assms(2)] by (simp add: Get_lookup_def)
  moreover have "ActiveMap_Get (lib_amap L) (activeMap db') k = None"
    using c(2) by (simp add: store_ok_def index_ok_def)
  ultimately have "Get_finish L k (Get_lookup L k db) db' = Inr (None, db')"
    by (simp add: Get_finish_def Let_def)
  with c(1) get get' show ?thesis by blast
qed

section \<open>The properties at a concrete system\<close>

lemma example_run:
  obtains db s where "Bitcask_Create example_libs example_setting no_files = Inr db"
    and "sys_run example_libs (initial_system db) [PutCalled ''k'' ''v'' 0] s"
    and "running (engine s)" and "next_promise (engine s) = 1" and "worker s = AtSwap"
proof -
  obtain db where db: "Bitcask_Create example_libs example_setting no_files = Inr db" by (rule example_store)
  have "just_started db" using fresh_system(1) [OF libs_ok_example _ db] by simp
  then have j: "running db" "next_promise db = 0" by (simp_all add: just_started_def)
  let ?s = "initial_system db" and ?db = "snd (Put ''k'' ''v'' db)"
  have "sys_step example_libs ?s (PutCalled ''k'' ''v'' 0) (?s\<lparr>engine := ?db\<rparr>)"
    by (rule sys_step.put) (use j in \<open>simp_all add: initial_system_def Put_def\<close>)
  from sys_run.step [OF sys_run.start this] show thesis
    using that [OF db] j by (simp add: initial_system_def Put_def)
qed

lemma example_history: "queued [PutCalled ''k'' ''v'' 0, Swapped, Committed] = queued [PutCalled ''k'' ''v'' 0]"
  "small_history (queued [PutCalled ''k'' ''v'' 0])" "log_size (batch (queued [PutCalled ''k'' ''v'' 0])) = 14"
  by (simp_all add: queued_def small_history_def batch_def rec_size_def header_size_def)

lemma example_committed:
  obtains db s where "Bitcask_Create example_libs example_setting no_files = Inr db"
    and "sys_run example_libs (initial_system db) [PutCalled ''k'' ''v'' 0, Swapped, Committed] s"
    and "fulfilled (engine s) = [0]" and "running (engine s)"
proof -
  obtain db s where r: "Bitcask_Create example_libs example_setting no_files = Inr db"
    "sys_run example_libs (initial_system db) [PutCalled ''k'' ''v'' 0] s"
    "running (engine s)" "next_promise (engine s) = 1" "worker s = AtSwap"
    by (rule example_run)
  note fresh = fresh_system [OF libs_ok_example _ r(1)]
  obtain c where c: "sys_inv example_libs (queued [PutCalled ''k'' ''v'' 0]) c s"
    using sys_inv_run [OF libs_ok_example r(2) fresh(1,3) example_history(2)] by auto
  obtain s' where s': "sys_run example_libs (initial_system db) ([PutCalled ''k'' ''v'' 0] @ [Swapped, Committed]) s'"
    "fulfilled (engine s') = [0..<1]"
    using worker_swap_commit [OF libs_ok_example c r(5) example_history(2) r(2)] r(4) by auto
  have "running (engine s')"
  proof (rule ccontr)
    assume "\<not> running (engine s')"
    have "running (engine s2)" if "sys_run example_libs (initial_system db) es s2" "Destroyed \<notin> set es" for es s2
      using that
    proof induction
      case start
      then show ?case using fresh(1) by (simp add: just_started_def initial_system_def)
    next
      case (step es s1 e s2)
      from step.hyps(2) step.IH step.prems show ?case
        by cases (auto simp: Put_def Delete_enqueue_def split: option.splits dest: Get_client CommitWrite_client)
    qed
    from this [OF s'(1)] \<open>\<not> running (engine s')\<close> show False by simp
  qed
  with r(1) s' show thesis by (intro that [of db s']) simp_all
qed

lemma worker_progress_example:
  "\<exists>db es' s'. sys_run example_libs (initial_system db) ([PutCalled ''k'' ''v'' 0] @ es') s' \<and> fulfilled (engine s') = [0]"
proof -
  obtain db s where r: "Bitcask_Create example_libs example_setting no_files = Inr db"
    "sys_run example_libs (initial_system db) [PutCalled ''k'' ''v'' 0] s"
    "running (engine s)" "next_promise (engine s) = 1"
    by (rule example_run)
  have fresh: "fresh_dir no_files (GetDbPath example_setting)" by simp
  from worker_progress [OF libs_ok_example fresh r(1,2) example_history(2) r(3)] r(4) show ?thesis by fastforce
qed

lemma get_sees_committed_example:
  "\<exists>db s s'. sys_run example_libs (initial_system db) [PutCalled ''k'' ''v'' 0, Swapped, Committed] s
     \<and> sys_step example_libs s (GetCalled ''k'' (Some ''v'')) s'"
proof -
  let ?es = "[PutCalled ''k'' ''v'' 0, Swapped, Committed]"
  obtain db s where r: "Bitcask_Create example_libs example_setting no_files = Inr db"
    "sys_run example_libs (initial_system db) ?es s" "fulfilled (engine s) = [0]" "running (engine s)"
    by (rule example_committed)
  have fresh: "fresh_dir no_files (GetDbPath example_setting)" by simp
  note f = fresh_system [OF libs_ok_example fresh r(1)]
  have small: "small_history (queued ?es)" "length (queued ?es) \<le> 1"
    using example_history by (simp_all add: queued_def)
  have calm: "calm_run example_libs (unat (GetMaxFileSize example_setting)) (initial_system db) ?es s"
    by (rule calm_run_single [OF r(2) f(1) small(2)])
  obtain c where "calm_inv example_libs example_setting c (engine s)"
    using calm_inv_run [OF libs_ok_example calm f(1) calm_inv_start [OF f(4,2)] small(1)] by blast
  then obtain ord ls la where "store_ok example_libs (engine s) ls la ord" unfolding calm_inv_def by blast
  then obtain v db' where g: "Get example_libs ''k'' (engine s) = Inr (v, db')"
    using Get_readable [OF store_ok_readable] by metis
  have st: "sys_step example_libs s (GetCalled ''k'' v) (s\<lparr>engine := db'\<rparr>)"
    by (rule sys_step.get [OF r(4) g])
  have "v = abs_get (batch (take (length (fulfilled (engine s))) (queued ?es))) ''k''"
    by (rule get_sees_committed [OF libs_ok_example fresh r(1) calm small(1) st])
  also have "\<dots> = Some ''v''"
    by (simp add: r(3) queued_def batch_def abs_get_def last_write_def visible_def TOMBSTONE_def)
  finally show ?thesis using r(2) st by blast
qed

theorem get_misses_during_rotation_witness:
  "\<exists>db db' db1. CommitWrite example_libs [\<lparr>w_key = ''large'', w_value = ''twenty bytes of text'', w_promise = 1\<rparr>] db = Inr db'
     \<and> Get example_libs ''k'' db = Inr (Some ''v'', db1)
     \<and> Get_finish example_libs ''k'' (Get_lookup example_libs ''k'' db) db' = Inr (None, db')"
proof -
  obtain db0 where d0: "store_ok example_libs db0 [] [] []" "limit_of db0 = 30" by (rule example_store)
  let ?w = "\<lparr>w_key = ''k'', w_value = ''v'', w_promise = 0\<rparr>"
  let ?w2 = "\<lparr>w_key = ''large'', w_value = ''twenty bytes of text'', w_promise = 1\<rparr>"
  have fl: "fill (limit_of db0) (batch [?w]) ([], []) = ([], [(''k'', ''v'')])"
    by (simp add: d0(2) batch_def fill_one_def value_offset_def header_size_def)
  have room: "room_for [] [] (batch [?w])" and rot: "rotates_only_last (limit_of db0) (batch [?w]) []"
    by (simp_all add: room_for_def batch_def rec_size_def header_size_def)
  obtain db where d: "same_client db0 db" "store_ok example_libs db [] [(''k'', ''v'')] ([] @ [length ([]::kvs list)..<length ([]::kvs list)])"
    by (rule CommitWrite_store_ok [OF libs_ok_example d0(1) room rot fl])
  have st: "store_ok example_libs db [] [(''k'', ''v'')] []" using d(2) by simp
  have lim: "limit_of db = 30" using d(1) d0(2) by (simp add: same_client_def limit_of_def)
  have room2: "room_for [] [(''k'', ''v'')] (batch [?w2])"
    by (simp add: room_for_def batch_def rec_size_def header_size_def)
  have full: "limit_of db \<le> value_offset [(''k'', ''v'')] (w_key ?w2, w_value ?w2)"
    by (simp add: lim value_offset_def rec_size_def header_size_def)
  have lw: "last_write [(''k'', ''v'')] ''k'' = Some ''v''" and ne: "''v'' \<noteq> TOMBSTONE" "w_key ?w2 \<noteq> ''k''"
    by (simp_all add: last_write_def TOMBSTONE_def)
  from get_misses_during_rotation [OF libs_ok_example st room2 full lw ne] show ?thesis by blast
qed

end
