(* ===== verification/Threads.thy ===== *)
theory Threads
  imports Concurrency
begin

text \<open>
  The threads of src/BitcaskImpl.cpp in small steps. Theory \<open>Concurrency\<close> takes a commit for one step;
  here the worker is between any two statements of \<open>CommitWrite\<close> that touch shared state, and a
  \<open>Get\<close> between any two of its own, as the locks of the code allow: \<open>Put\<close> and the locked part of
  \<open>Delete\<close> hold \<open>_mtx\<close> exclusively and so exclude each \<open>Get\<close>, which holds it shared; the worker takes
  it shared or not at all and excludes nobody but them. Reads and writes of one variable are atomic.
\<close>

section \<open>Get in steps\<close>

text \<open>\<open>StableFile::Read\<close> positions the stream of the file, then reads from it.\<close>

definition StableFile_seek :: "stable_file \<Rightarrow> offset \<Rightarrow> stable_file outcome" where
  "StableFile_seek sf off = (case sf_file sf of None \<Rightarrow> Inl NullDeref
     | Some file \<Rightarrow> Inr (sf\<lparr>sf_file := Some (st_seekg (unat off) (st_clear file))\<rparr>))"

definition StableFile_take :: "fsys \<Rightarrow> stable_file \<Rightarrow> u32 \<Rightarrow> (val \<times> stable_file) outcome" where
  "StableFile_take F sf sz = (case sf_file sf of None \<Rightarrow> Inl NullDeref
     | Some file \<Rightarrow> let (value, file) = ReadValueFromFile F file (unat sz)
                   in Inr (value, sf\<lparr>sf_file := Some file\<rparr>))"

lemma StableFile_Read_steps: "StableFile_Read F sf off sz =
    (case StableFile_seek sf off of Inl e \<Rightarrow> Inl e | Inr sf \<Rightarrow> StableFile_take F sf sz)"
  by (simp add: StableFile_Read_def StableFile_seek_def StableFile_take_def Let_def split: option.splits)

text \<open>
  A reader has looked up the hint, has compared its number with \<open>getActiveFD\<close> (the stages of theory
  \<open>Concurrency\<close>), or has positioned the stream of a stable file.
\<close>

datatype reader = Looked "Hint option" | Staged get_stage | Sought Hint

definition compare_fd :: "('am, 'rm) BitcaskImpl \<Rightarrow> Hint option \<Rightarrow> get_stage" where
  "compare_fd db r = (case r of None \<Rightarrow> Miss
     | Some record \<Rightarrow> if hint_fd record = getActiveFD db then InActive else InStable record)"

text \<open>One step of a reader: where it is afterwards, or what it returns.\<close>

fun Get_step :: "('am, 'rm) libs \<Rightarrow> key \<Rightarrow> reader \<Rightarrow> ('am, 'rm) BitcaskImpl
    \<Rightarrow> ((reader + val option) \<times> ('am, 'rm) BitcaskImpl) outcome" where
  "Get_step L k (Looked r) db = Inr (Inl (Staged (compare_fd db r)), db)"
| "Get_step L k (Staged Miss) db = Inr (Inr None, db)"
| "Get_step L k (Staged InActive) db =
     (let v = ActiveMap_Get (lib_amap L) (activeMap db) k
      in Inr (Inr (if v = Some TOMBSTONE then None else v), db))"
| "Get_step L k (Staged (InStable record)) db =
     (case map_of (stableFiles db) (hint_fd record) of
        None \<Rightarrow> Inr (Inr None, db)
      | Some sf \<Rightarrow>
          (case StableFile_seek sf (hint_offset record) of Inl e \<Rightarrow> Inl e
           | Inr sf \<Rightarrow> Inr (Inl (Sought record),
               db\<lparr>stableFiles := AList.update (hint_fd record) sf (stableFiles db)\<rparr>)))"
| "Get_step L k (Sought record) db =
     (case map_of (stableFiles db) (hint_fd record) of
        None \<Rightarrow> Inl NullDeref
      | Some sf \<Rightarrow>
          (case StableFile_take (disk db) sf (hint_size record) of Inl e \<Rightarrow> Inl e
           | Inr (v, sf) \<Rightarrow> Inr (Inr (if v = TOMBSTONE then None else Some v),
               db\<lparr>stableFiles := AList.update (hint_fd record) sf (stableFiles db)\<rparr>)))"

text \<open>A reader that runs alone.\<close>

fun Get_alone :: "nat \<Rightarrow> ('am, 'rm) libs \<Rightarrow> key \<Rightarrow> reader \<Rightarrow> ('am, 'rm) BitcaskImpl
    \<Rightarrow> (val option \<times> ('am, 'rm) BitcaskImpl) outcome" where
  "Get_alone 0 L k r db = Inl NonTermination"
| "Get_alone (Suc n) L k r db = (case Get_step L k r db of
      Inl e \<Rightarrow> Inl e
    | Inr (Inl r, db) \<Rightarrow> Get_alone n L k r db
    | Inr (Inr v, db) \<Rightarrow> Inr (v, db))"

lemma update_update: "AList.update k b (AList.update k a m) = AList.update k b m"
  by (induction m) auto

lemma compare_Looked: "compare_fd db (RecordMap_Get (lib_rmap L) (recordMap db) k) = Get_lookup L k db"
  by (simp add: compare_fd_def Get_lookup_def)

lemma map_of_update [simp]: "map_of (AList.update k v m) k = Some v"
  by (induction m) auto

lemma Get_alone_staged: "Get_alone (Suc (Suc n)) L k (Staged stage) db = Get_finish L k stage db"
proof (cases stage)
  case (InStable h)
  show ?thesis
  proof (cases "map_of (stableFiles db) (hint_fd h)")
    case (Some sf)
    then show ?thesis
      by (simp add: InStable Get_finish_def StableFile_Read_steps update_update Let_def split: sum.split)
  qed (simp add: InStable Get_finish_def)
qed (simp_all add: Get_finish_def Let_def)

lemma Get_alone_is_Get: "Get_alone 3 L k (Looked (RecordMap_Get (lib_rmap L) (recordMap db) k)) db = Get L k db"
  unfolding numeral_3_eq_3 Get_alone.simps(2) [of "Suc (Suc 0)"] Get_step.simps(1)
  by (simp only: compare_Looked Get_alone_staged get_stages sum.case prod.case)

section \<open>The worker in steps\<close>

text \<open>
  The points of \<open>CommitWorker\<close> and \<open>CommitWrite\<close>: before the swap; in the first loop, with the batch,
  the writes left and the locals of the function; before the insertion of the new stable files; before
  the clearing of the active map; in the last loop, before each of its three statements; before the
  test of \<open>_running\<close>; after the loop.
\<close>

datatype statement = PutActive | PutIndex | SetPromise

datatype point = TakeBatch | WriteFiles "Write list" "Write list" commit_state
  | InsertStable "Write list" commit_state | ClearActive "Write list" commit_state
  | Publish statement "Write list" commit_state nat | TestRunning | Gone

text \<open>The members \<open>_activeFile\<close> and the files are shared; the other fields of \<open>commit_state\<close> are locals.\<close>

definition commit_write :: "('am, 'rm) libs \<Rightarrow> Write \<Rightarrow> commit_state \<Rightarrow> ('am, 'rm) BitcaskImpl
    \<Rightarrow> (commit_state \<times> ('am, 'rm) BitcaskImpl) outcome" where
  "commit_write L w cs db =
     (case commit_one (lib_crc L) (GetDbPath (setting db)) (GetMaxFileSize (setting db)) (getActiveFD db) w
        (cs\<lparr>cs_disk := disk db, cs_active := activeFile db\<rparr>) of
        Inl e \<Rightarrow> Inl e
      | Inr cs \<Rightarrow> Inr (cs, db\<lparr>disk := cs_disk cs, activeFile := cs_active cs\<rparr>))"

fun commit_step :: "('am, 'rm) libs \<Rightarrow> point \<Rightarrow> ('am, 'rm) BitcaskImpl \<Rightarrow> (point \<times> ('am, 'rm) BitcaskImpl) outcome" where
  "commit_step L TakeBatch db = Inr (WriteFiles (pending db) (pending db) (commit_start db), db\<lparr>pending := []\<rparr>)"
| "commit_step L (WriteFiles ws (w # left) cs) db =
     (case commit_write L w cs db of Inl e \<Rightarrow> Inl e | Inr (cs, db) \<Rightarrow> Inr (WriteFiles ws left cs, db))"
| "commit_step L (WriteFiles ws [] cs) db = Inr (InsertStable ws cs, db)"
| "commit_step L (InsertStable ws cs) db = Inr (ClearActive ws cs, insert_stable (cs_new cs) db)"
| "commit_step L (ClearActive ws cs) db = Inr (Publish PutActive ws cs 0, clear_active L (cs_new cs) db)"
| "commit_step L (Publish PutActive ws cs i) db =
     (if i < length ws
      then Inr (Publish PutIndex ws cs i,
        if i \<ge> cs_last cs
        then db\<lparr>activeMap := ActiveMap_Put (lib_amap L) (w_key (ws ! i)) (w_value (ws ! i)) (activeMap db)\<rparr> else db)
      else Inr (TestRunning, db))"
| "commit_step L (Publish PutIndex ws cs i) db = Inr (Publish SetPromise ws cs i,
     db\<lparr>recordMap := RecordMap_Put (lib_rmap L) (w_key (ws ! i)) (cs_records cs ! i) (recordMap db)\<rparr>)"
| "commit_step L (Publish SetPromise ws cs i) db = Inr (Publish PutActive ws cs (Suc i),
     db\<lparr>fulfilled := fulfilled db @ [w_promise (ws ! i)]\<rparr>)"
| "commit_step L TestRunning db = Inr (if running db then TakeBatch else Gone, db)"
| "commit_step L Gone db = Inr (Gone, db)"

text \<open>A worker that runs alone, up to the test of \<open>_running\<close>.\<close>

fun commit_alone :: "nat \<Rightarrow> ('am, 'rm) libs \<Rightarrow> point \<Rightarrow> ('am, 'rm) BitcaskImpl \<Rightarrow> ('am, 'rm) BitcaskImpl outcome" where
  "commit_alone n L TestRunning db = Inr db"
| "commit_alone 0 L p db = Inl NonTermination"
| "commit_alone (Suc n) L p db = (case commit_step L p db of
      Inl e \<Rightarrow> Inl e | Inr (p, db) \<Rightarrow> commit_alone n L p db)"

lemma alone_step: "p \<noteq> TestRunning \<Longrightarrow> commit_alone (Suc n) L p db =
    (case commit_step L p db of Inl e \<Rightarrow> Inl e | Inr (p, db) \<Rightarrow> commit_alone n L p db)"
  by (cases p) simp_all

lemma alone_writes:
  assumes "cs_disk cs = disk db" and "cs_active cs = activeFile db"
  shows "commit_alone (Suc (length left) + n) L (WriteFiles ws left cs) db =
    (case commit_loop (lib_crc L) (GetDbPath (setting db)) (GetMaxFileSize (setting db)) (getActiveFD db) left cs of
       Inl e \<Rightarrow> Inl e
     | Inr cs \<Rightarrow> commit_alone n L (InsertStable ws cs) (db\<lparr>disk := cs_disk cs, activeFile := cs_active cs\<rparr>))"
  using assms
proof (induction left arbitrary: cs db)
  case (Cons w left)
  have eq: "cs\<lparr>cs_disk := disk db, cs_active := activeFile db\<rparr> = cs" using Cons.prems by (cases cs) simp
  show ?case
  proof (cases "commit_one (lib_crc L) (GetDbPath (setting db)) (GetMaxFileSize (setting db)) (getActiveFD db) w cs")
    case (Inr cs1)
    with Cons.IH [of cs1 "db\<lparr>disk := cs_disk cs1, activeFile := cs_active cs1\<rparr>"] show ?thesis
      by (simp add: commit_write_def eq getActiveFD_def split: sum.splits)
  qed (simp add: commit_write_def eq)
qed simp

lemma alone_publish_one: "i < length ws \<Longrightarrow>
    commit_alone (Suc (Suc (Suc m))) L (Publish PutActive ws cs i) db =
      commit_alone m L (Publish PutActive ws cs (Suc i)) (publish_one L (cs_last cs) (i, ws ! i, cs_records cs ! i) db)"
  by (simp add: publish_one_def Let_def)

lemma alone_publish:
  assumes "length (cs_records cs) = length ws" and "i \<le> length ws"
  shows "commit_alone (Suc (3 * (length ws - i))) L (Publish PutActive ws cs i) db =
    Inr (fold (publish_one L (cs_last cs)) (zip [i..<length ws] (drop i (zip ws (cs_records cs)))) db)"
  using assms(2)
proof (induction "length ws - i" arbitrary: i db)
  case 0
  then show ?case by simp
next
  case (Suc m)
  then have i: "i < length ws" and m: "m = length ws - Suc i" by simp_all
  have d: "drop i (zip ws (cs_records cs)) = (ws ! i, cs_records cs ! i) # drop (Suc i) (zip ws (cs_records cs))"
    using i assms(1) by (simp add: Cons_nth_drop_Suc [symmetric])
  have n: "Suc (3 * (length ws - i)) = Suc (Suc (Suc (Suc (3 * (length ws - Suc i)))))" using i by linarith
  show ?case
    unfolding n alone_publish_one [OF i] using Suc.hyps(1) [OF m] i d by (simp add: upt_conv_Cons)
qed

lemma commit_alone_is_commit:
  "commit_alone (4 * length ws + 4) L (WriteFiles ws ws (commit_start db)) db = CommitWrite L ws db"
proof -
  have n: "4 * length ws + 4 = Suc (length ws) + Suc (Suc (Suc (3 * length ws)))" by simp
  have files: "commit_loop (lib_crc L) (GetDbPath (setting db)) (GetMaxFileSize (setting db)) (getActiveFD db) ws (commit_start db)
      = commit_files L ws db"
    by (simp add: commit_files_def)
  have "cs_disk (commit_start db) = disk db" "cs_active (commit_start db) = activeFile db"
    by (simp_all add: commit_start_def)
  note w = alone_writes [OF this, of ws _ L ws, unfolded files]
  show ?thesis
  proof (cases "commit_files L ws db")
    case (Inl e)
    show ?thesis unfolding n w by (simp add: Inl CommitWrite_def)
  next
    case (Inr cs)
    have "length (cs_records cs) = length ws"
      using commit_loop_records [OF Inr [unfolded commit_files_def]] by (simp add: commit_start_def)
    note pub = alone_publish [OF this le0, unfolded diff_zero drop_0]
    have "commit_alone (Suc (Suc (Suc m))) L (InsertStable ws cs) X =
        commit_alone (Suc m) L (Publish PutActive ws cs 0) (clear_active L (cs_new cs) (insert_stable (cs_new cs) X))"
      for m and X :: "('a, 'b) BitcaskImpl" by (simp split del: if_split)
    then show ?thesis unfolding n w using pub by (simp only: Inr CommitWrite_def publish_def Let_def sum.case)
  qed
qed

lemma commit_start_cong: "disk db' = disk db \<Longrightarrow> activeFile db' = activeFile db \<Longrightarrow> commit_start db' = commit_start db"
  by (simp add: commit_start_def)

lemma commit_alone_is_turn: "commit_alone (4 * length (pending db) + 5) L TakeBatch db = worker_turn L db"
proof -
  have "commit_start (db\<lparr>pending := []\<rparr>) = commit_start db" by (rule commit_start_cong) simp_all
  with commit_alone_is_commit [of "pending db" L "db\<lparr>pending := []\<rparr>"] show ?thesis
    using alone_step [of TakeBatch "4 * length (pending db) + 4" L db]
    by (simp add: worker_turn_def add.commute del: commit_alone.simps)
qed

section \<open>The step relation\<close>

text \<open>The readers are numbered; each has its key and its place in \<open>Get\<close>.\<close>

record ('am, 'rm) threads =
  store :: "('am, 'rm) BitcaskImpl"
  point :: point
  readers :: "nat \<rightharpoonup> key \<times> reader"

datatype happening =
    PutBy key val nat
  | DeleteBy key "nat option"
  | GetCall nat key
  | GetMoves nat
  | GetReturns nat "val option"
  | WorkerMoves
  | DestroyedBy

inductive thread_step :: "('am, 'rm) libs \<Rightarrow> ('am, 'rm) threads \<Rightarrow> happening \<Rightarrow> ('am, 'rm) threads \<Rightarrow> bool"
  for L :: "('am, 'rm) libs" where
  put: "running (store s) \<Longrightarrow> readers s = Map.empty \<Longrightarrow> Put k v (store s) = (p, db) \<Longrightarrow>
     thread_step L s (PutBy k v p) (s\<lparr>store := db\<rparr>)"
| delete: "running (store s) \<Longrightarrow> readers s = Map.empty \<Longrightarrow> Delete_enqueue L k (store s) = (r, db) \<Longrightarrow>
     thread_step L s (DeleteBy k r) (s\<lparr>store := db\<rparr>)"
| get_call: "running (store s) \<Longrightarrow> readers s t = None \<Longrightarrow>
     thread_step L s (GetCall t k)
       (s\<lparr>readers := (readers s)(t \<mapsto> (k, Looked (RecordMap_Get (lib_rmap L) (recordMap (store s)) k)))\<rparr>)"
| get_move: "readers s t = Some (k, r) \<Longrightarrow> Get_step L k r (store s) = Inr (Inl r', db) \<Longrightarrow>
     thread_step L s (GetMoves t) (s\<lparr>store := db, readers := (readers s)(t \<mapsto> (k, r'))\<rparr>)"
| get_return: "readers s t = Some (k, r) \<Longrightarrow> Get_step L k r (store s) = Inr (Inr v, db) \<Longrightarrow>
     thread_step L s (GetReturns t v) (s\<lparr>store := db, readers := (readers s)(t := None)\<rparr>)"
| work: "point s \<noteq> Gone \<Longrightarrow> commit_step L (point s) (store s) = Inr (p, db) \<Longrightarrow>
     thread_step L s WorkerMoves (s\<lparr>store := db, point := p\<rparr>)"
| destroy: "running (store s) \<Longrightarrow>
     thread_step L s DestroyedBy (s\<lparr>store := (store s)\<lparr>running := False\<rparr>\<rparr>)"

inductive_cases thread_stepE: "thread_step L s e s'"
inductive_simps thread_step_simps:
  "thread_step L s (PutBy k v p) s'" "thread_step L s (GetCall t k) s'" "thread_step L s WorkerMoves s'"
  "thread_step L s (GetMoves t) s'" "thread_step L s (GetReturns t v) s'"

fun written_by :: "happening \<Rightarrow> Write list" where
  "written_by (PutBy k v p) = [\<lparr>w_key = k, w_value = v, w_promise = p\<rparr>]"
| "written_by (DeleteBy k (Some p)) = [\<lparr>w_key = k, w_value = TOMBSTONE, w_promise = p\<rparr>]"
| "written_by _ = []"

definition history :: "happening list \<Rightarrow> Write list" where
  "history es = concat (map written_by es)"

lemma history_simps [simp]: "history [] = []" "history (es @ es') = history es @ history es'"
  "history (e # es) = written_by e @ history es"
  by (simp_all add: history_def)

inductive thread_run :: "('am, 'rm) libs \<Rightarrow> ('am, 'rm) threads \<Rightarrow> happening list \<Rightarrow> ('am, 'rm) threads \<Rightarrow> bool"
  for L :: "('am, 'rm) libs" and s0 :: "('am, 'rm) threads" where
  run_start: "thread_run L s0 [] s0"
| run_step: "thread_run L s0 es s \<Longrightarrow> thread_step L s e s' \<Longrightarrow> thread_run L s0 (es @ [e]) s'"

definition started :: "('am, 'rm) BitcaskImpl \<Rightarrow> ('am, 'rm) threads" where
  "started db = \<lparr>store = db, point = TakeBatch, readers = Map.empty\<rparr>"

section \<open>The queue and the promises\<close>

text \<open>What the worker holds: the batch, the part of it written to the files, the part fulfilled.\<close>

fun held :: "point \<Rightarrow> Write list" where
  "held (WriteFiles ws left cs) = ws"
| "held (InsertStable ws cs) = ws"
| "held (ClearActive ws cs) = ws"
| "held (Publish st ws cs i) = ws"
| "held _ = []"

fun unwritten :: "point \<Rightarrow> Write list" where
  "unwritten (WriteFiles ws left cs) = left"
| "unwritten _ = []"

fun set_count :: "point \<Rightarrow> nat" where
  "set_count (Publish st ws cs i) = i"
| "set_count _ = 0"

text \<open>
  Every write queued is of a finished batch (\<open>past\<close>), of the batch in the worker's hands or in the
  queue, in this order; promises are numbered in it and fulfilled in it.
\<close>

definition order_inv :: "Write list \<Rightarrow> Write list \<Rightarrow> ('am, 'rm) threads \<Rightarrow> bool" where
  "order_inv h past s \<longleftrightarrow> h = past @ held (point s) @ pending (store s)
     \<and> map w_promise h = [0..<next_promise (store s)]
     \<and> fulfilled (store s) = map w_promise (past @ take (set_count (point s)) (held (point s)))
     \<and> (\<exists>done. held (point s) = done @ unwritten (point s))
     \<and> set_count (point s) \<le> length (held (point s))
     \<and> (\<forall>st ws cs i. point s = Publish st ws cs i \<and> st \<noteq> PutActive \<longrightarrow> i < length ws)"

lemma order_inv_numbers:
  assumes "order_inv h past s"
  shows "length h = next_promise (store s)" and "fulfilled (store s) = [0..<length past + set_count (point s)]"
    and "length past + set_count (point s) \<le> length h"
proof -
  have h: "h = past @ held (point s) @ pending (store s)" and num: "map w_promise h = [0..<next_promise (store s)]"
    and ful: "fulfilled (store s) = map w_promise (past @ take (set_count (point s)) (held (point s)))"
    and le: "set_count (point s) \<le> length (held (point s))"
    using assms unfolding order_inv_def by blast+
  show len: "length h = next_promise (store s)" using num by (metis length_map length_upt diff_zero)
  show bound: "length past + set_count (point s) \<le> length h" unfolding h using le by simp
  have "past @ take (set_count (point s)) (held (point s)) = take (length past + set_count (point s)) h"
    unfolding h using le by simp
  then have "fulfilled (store s) = take (length past + set_count (point s)) (map w_promise h)"
    unfolding ful by (simp only: take_map)
  then show "fulfilled (store s) = [0..<length past + set_count (point s)]"
    unfolding num using bound len by (simp add: take_upt)
qed

lemma Put_fields: "Put k v db = (p, db') \<Longrightarrow>
    db' = db\<lparr>next_promise := Suc p, pending := pending db @ [\<lparr>w_key = k, w_value = v, w_promise = p\<rparr>]\<rparr> \<and> p = next_promise db"
  by (auto simp: Put_def)

lemma Delete_fields: "Delete_enqueue L k db = (r, db') \<Longrightarrow>
    (case r of None \<Rightarrow> db' = db
     | Some p \<Rightarrow> p = next_promise db \<and>
         db' = db\<lparr>next_promise := Suc p, pending := pending db @ [\<lparr>w_key = k, w_value = TOMBSTONE, w_promise = p\<rparr>]\<rparr>)"
  by (auto simp: Delete_enqueue_def Put_def split: option.splits)

text \<open>A reader only moves the stream of a stable file.\<close>

definition stream_moved :: "('am, 'rm) BitcaskImpl \<Rightarrow> ('am, 'rm) BitcaskImpl \<Rightarrow> bool" where
  "stream_moved db db' \<longleftrightarrow> db' = db \<or> (\<exists>fd sf sf'. map_of (stableFiles db) fd = Some sf
     \<and> (\<forall>p. sf_on p sf \<longrightarrow> sf_on p sf') \<and> db' = db\<lparr>stableFiles := AList.update fd sf' (stableFiles db)\<rparr>)"

lemma StableFile_seek_on: "StableFile_seek sf off = Inr sf' \<Longrightarrow> sf_on p sf \<Longrightarrow> sf_on p sf'"
  by (auto simp: StableFile_seek_def sf_on_def)

lemma StableFile_take_on: "StableFile_take F sf n = Inr (v, sf') \<Longrightarrow> sf_on p sf \<Longrightarrow> sf_on p sf'"
  by (auto simp: StableFile_take_def sf_on_def ReadValueFromFile_def Let_def
      split: prod.splits if_splits dest!: st_file_ReadFile_buf)

lemma Get_step_moves: "Get_step L k r db = Inr (x, db') \<Longrightarrow> stream_moved db db'"
proof (induction L k r db rule: Get_step.induct)
  case (4 L k h db)
  show ?case
  proof (cases "map_of (stableFiles db) (hint_fd h)")
    case None
    then show ?thesis using 4 by (simp add: stream_moved_def)
  next
    case (Some sf)
    then obtain sf' where "StableFile_seek sf (hint_offset h) = Inr sf'"
        "db' = db\<lparr>stableFiles := AList.update (hint_fd h) sf' (stableFiles db)\<rparr>"
      using 4 by (auto split: sum.splits)
    then show ?thesis using Some StableFile_seek_on unfolding stream_moved_def by blast
  qed
next
  case (5 L k h db)
  then obtain sf v sf' where "map_of (stableFiles db) (hint_fd h) = Some sf"
      "StableFile_take (disk db) sf (hint_size h) = Inr (v, sf')"
      "db' = db\<lparr>stableFiles := AList.update (hint_fd h) sf' (stableFiles db)\<rparr>"
    by (auto split: option.splits sum.splits prod.splits)
  then show ?case using StableFile_take_on unfolding stream_moved_def by blast
qed (auto simp: stream_moved_def Let_def)

lemma stream_moved_fields: "stream_moved db db' \<Longrightarrow> pending db' = pending db \<and> next_promise db' = next_promise db
    \<and> fulfilled db' = fulfilled db \<and> running db' = running db \<and> setting db' = setting db \<and> disk db' = disk db
    \<and> activeFile db' = activeFile db \<and> activeMap db' = activeMap db \<and> recordMap db' = recordMap db"
  by (auto simp: stream_moved_def)

lemma stream_moved_handles:
  assumes "stream_moved db db'" and "stable_handles d ord (stableFiles db)" and "\<forall>j \<in> set ord. j < 2 ^ 32"
  shows "stable_handles d ord (stableFiles db')"
proof (cases "db' = db")
  case False
  then obtain fd sf sf' where m: "map_of (stableFiles db) fd = Some sf" "\<forall>p. sf_on p sf \<longrightarrow> sf_on p sf'"
      "db' = db\<lparr>stableFiles := AList.update fd sf' (stableFiles db)\<rparr>"
    using assms(1) unfolding stream_moved_def by blast
  have "fd \<in> fst ` set (stableFiles db)" using m(1) by (metis domI dom_map_of_conv_image_fst)
  then obtain j where j: "j \<in> set ord" "fd = word_of_nat j" unfolding stable_handles_dom [OF assms(2)] by blast
  obtain sf1 where "map_of (stableFiles db) (word_of_nat j) = Some sf1" "sf_on (db_file d j) sf1"
    by (rule stable_handles_lookup [OF assms(2,3) j(1)])
  then have "sf_on (db_file d j) sf'" using m(1,2) j(2) by simp
  from stable_handles_update [OF assms(2,3) j(1) this] show ?thesis by (simp add: m(3) j(2))
qed (use assms(2) in simp)

text \<open>The steps of the worker at the queue.\<close>

lemma commit_write_fields: "commit_write L w cs db = Inr (cs', db') \<Longrightarrow> pending db' = pending db
    \<and> next_promise db' = next_promise db \<and> fulfilled db' = fulfilled db \<and> running db' = running db
    \<and> setting db' = setting db \<and> stableFiles db' = stableFiles db \<and> activeMap db' = activeMap db
    \<and> recordMap db' = recordMap db"
  by (auto simp: commit_write_def split: sum.splits)

lemma order_inv_work:
  assumes "order_inv h past s" and "commit_step L (point s) (store s) = Inr (p, db)" and "point s \<noteq> Gone"
  shows "order_inv h (if p = TestRunning then past @ held (point s) else past) (s\<lparr>store := db, point := p\<rparr>)"
proof (cases "point s")
  case (WriteFiles ws left cs)
  show ?thesis
  proof (cases left)
    case Nil
    then show ?thesis using assms WriteFiles by (auto simp: order_inv_def)
  next
    case (Cons w left')
    obtain cs' where c: "commit_write L w cs (store s) = Inr (cs', db)" "p = WriteFiles ws left' cs'"
      using assms(2) WriteFiles Cons by (auto split: sum.splits)
    show ?thesis using assms(1) WriteFiles Cons c(2) commit_write_fields [OF c(1)]
      by (auto simp: order_inv_def)
  qed
next
  case (Publish st ws cs i)
  show ?thesis
  proof (cases st)
    case PutActive
    then show ?thesis using assms Publish by (auto simp: order_inv_def split: if_splits)
  next
    case PutIndex
    then show ?thesis using assms Publish by (auto simp: order_inv_def)
  next
    case SetPromise
    then show ?thesis using assms Publish by (auto simp: order_inv_def take_Suc_conv_app_nth)
  qed
qed (use assms in \<open>auto simp: order_inv_def insert_stable_def clear_active_def split: if_splits\<close>)

section \<open>The files while the worker is between two steps\<close>

definition written :: "point \<Rightarrow> Write list" where
  "written p = take (length (held p) - length (unwritten p)) (held p)"

lemma written_simps [simp]:
  "written (WriteFiles (pre @ left) left cs) = pre" "written (InsertStable ws cs) = ws"
  "written (ClearActive ws cs) = ws" "written (Publish st ws cs i) = ws"
  "written TakeBatch = []" "written TestRunning = []" "written Gone = []" "written (WriteFiles ws [] cs) = ws"
  by (simp_all add: written_def)

text \<open>
  In the first loop the files made by rotations are not yet in \<open>_stableFiles\<close>: the members know the
  first \<open>m\<close> files, the locals the others.
\<close>

definition in_loop :: "('am, 'rm) libs \<Rightarrow> ('am, 'rm) BitcaskImpl \<Rightarrow> commit_state \<Rightarrow> kvs list \<Rightarrow> kvs \<Rightarrow> nat list \<Rightarrow> bool" where
  "in_loop L db cs ls la ord \<longleftrightarrow> (\<exists>m. m < 2 ^ 32 \<and> distinct ord \<and> set ord = {..<m}
     \<and> stable_handles (GetDbPath (setting db)) ord (stableFiles db)
     \<and> loop_inv (lib_crc L) (GetDbPath (setting db)) m (cs\<lparr>cs_disk := disk db, cs_active := activeFile db\<rparr>) ls la)"

fun files_at :: "('am, 'rm) libs \<Rightarrow> point \<Rightarrow> ('am, 'rm) BitcaskImpl \<Rightarrow> kvs list \<Rightarrow> kvs \<Rightarrow> nat list \<Rightarrow> bool" where
  "files_at L (WriteFiles ws left cs) db ls la ord = in_loop L db cs ls la ord"
| "files_at L (InsertStable ws cs) db ls la ord = in_loop L db cs ls la ord"
| "files_at L p db ls la ord = disk_ok L db ls la ord"

definition files_inv :: "('am, 'rm) libs \<Rightarrow> kvs \<Rightarrow> nat \<Rightarrow> Write list \<Rightarrow> ('am, 'rm) threads \<Rightarrow> bool" where
  "files_inv L base n past s \<longleftrightarrow> limit_of (store s) \<le> 2 ^ 31 \<and> (\<exists>ls la ord.
     concat ls @ la = base @ batch (past @ written (point s))
   \<and> length ls \<le> n + length (past @ written (point s))
   \<and> log_size la < limit_of (store s) + max_record
   \<and> dir_ok (disk (store s)) (GetDbPath (setting (store s))) (length ls)
   \<and> files_at L (point s) (store s) ls la ord)"

lemma files_at_files_ok: "files_at L p db ls la ord \<Longrightarrow> files_ok (lib_crc L) (disk db) (GetDbPath (setting db)) ls la"
  by (cases p) (auto simp: in_loop_def loop_inv_def disk_ok_def)

text \<open>Moving a stream or queueing a write changes nothing of this.\<close>

lemma files_at_cong:
  assumes "files_at L p db ls la ord" and "disk db' = disk db" and "activeFile db' = activeFile db"
    and "setting db' = setting db"
    and "stable_handles (GetDbPath (setting db)) ord (stableFiles db) \<Longrightarrow> \<forall>j \<in> set ord. j < 2 ^ 32 \<Longrightarrow>
      stable_handles (GetDbPath (setting db)) ord (stableFiles db')"
  shows "files_at L p db' ls la ord"
proof -
  have loop: "in_loop L db' cs ls la ord" if "in_loop L db cs ls la ord" for cs
  proof -
    obtain m where m: "m < 2 ^ 32" "distinct ord" "set ord = {..<m}"
      "stable_handles (GetDbPath (setting db)) ord (stableFiles db)"
      "loop_inv (lib_crc L) (GetDbPath (setting db)) m (cs\<lparr>cs_disk := disk db, cs_active := activeFile db\<rparr>) ls la"
      using \<open>in_loop L db cs ls la ord\<close> unfolding in_loop_def by blast
    have "\<forall>j \<in> set ord. j < 2 ^ 32" using m(1,3) by auto
    then show ?thesis using m assms(5) unfolding in_loop_def assms(2-4) by blast
  qed
  have disk: "disk_ok L db' ls la ord" if d: "disk_ok L db ls la ord"
  proof -
    have h: "handles_ok db (length ls) ord" using d by (simp add: disk_ok_def)
    then have "\<forall>j \<in> set ord. j < 2 ^ 32" unfolding handles_ok_def by fastforce
    then have "stable_handles (GetDbPath (setting db)) ord (stableFiles db')"
      using h assms(5) unfolding handles_ok_def by blast
    then have "handles_ok db' (length ls) ord"
      using h unfolding handles_ok_def assms(2-4) by blast
    then show ?thesis using d unfolding disk_ok_def assms(2-4) by blast
  qed
  show ?thesis using assms(1) loop disk by (cases p) auto
qed

lemma files_inv_cong:
  assumes "files_inv L base n past s" and "stream_moved (store s) db \<or> (disk db = disk (store s)
      \<and> setting db = setting (store s) \<and> stableFiles db = stableFiles (store s) \<and> activeFile db = activeFile (store s))"
    and "store s' = db" and "point s' = point s"
  shows "files_inv L base n past s'"
proof -
  have same: "disk db = disk (store s)" "setting db = setting (store s)" "activeFile db = activeFile (store s)"
    using assms(2) stream_moved_fields by blast+
  have h: "stable_handles d ord (stableFiles (store s)) \<Longrightarrow> \<forall>j \<in> set ord. j < 2 ^ 32 \<Longrightarrow> stable_handles d ord (stableFiles db)"
    for d ord using assms(2) stream_moved_handles by (metis (no_types, lifting))
  have at: "files_at L (point s) (store s) ls la ord \<Longrightarrow> files_at L (point s) db ls la ord" for ls la ord
    using files_at_cong [OF _ same(1,3,2)] h by blast
  show ?thesis using assms(1) at unfolding files_inv_def assms(3,4) limit_of_def same by blast
qed

lemma loop_inv_of: "loop_inv ext d m (cs\<lparr>cs_disk := disk db, cs_active := activeFile db\<rparr>) ls la \<longleftrightarrow>
    files_ok ext (disk db) d ls la \<and> length ls = m + length (cs_new cs) \<and> stable_handles d [m..<length ls] (cs_new cs)
    \<and> (\<exists>af. activeFile db = Some af \<and> af_on (disk db) (db_file d (length ls)) af)"
  by (simp add: loop_inv_def)

lemma stable_count_fd:
  assumes "stable_handles d ord (stableFiles db)" and "distinct ord" and "set ord = {..<m}"
  shows "getActiveFD db = word_of_nat m"
proof -
  have "length (stableFiles db) = m"
    using stable_handles_length [OF assms(1)] distinct_card [OF assms(2)] assms(3) by simp
  then show ?thesis by (simp add: getActiveFD_def)
qed

lemma in_loop_new: "in_loop L db cs ls la ord \<Longrightarrow> length ls = card (set ord) + length (cs_new cs)"
  unfolding in_loop_def loop_inv_def by (elim exE conjE) simp

lemma commit_write_ok:
  assumes "in_loop L db cs ls la ord" and "limit_of db \<le> 2 ^ 31" and "log_size la < limit_of db + max_record"
    and "fits_record (w_key w) (w_value w)" and "Suc (length ls) < 2 ^ 32"
    and "dir_ok (disk db) (GetDbPath (setting db)) (length ls)"
    and "fill_one (limit_of db) (w_key w, w_value w) (ls, la) = (ls', la')"
  obtains cs' db' where "commit_write L w cs db = Inr (cs', db')"
    and "in_loop L db' cs' ls' la' ord" and "dir_ok (disk db') (GetDbPath (setting db)) (length ls')"
    and "log_size la' < limit_of db + max_record" and "length ls' \<le> Suc (length ls)"
    and "cs_records cs' = cs_records cs @ [place_hint (card (set ord)) (value_offset la (w_key w, w_value w)) (w_key w, w_value w)]"
    and "cs_last cs' = (if length ls' = length ls then cs_last cs else Suc (cs_idx cs))"
    and "cs_idx cs' = Suc (cs_idx cs)"
proof -
  let ?d = "GetDbPath (setting db)" and ?r = "(w_key w, w_value w)"
  let ?cs = "cs\<lparr>cs_disk := disk db, cs_active := activeFile db\<rparr>"
  obtain m where m: "m < 2 ^ 32" "distinct ord" "set ord = {..<m}" "stable_handles ?d ord (stableFiles db)"
    and inv: "loop_inv (lib_crc L) ?d m ?cs ls la"
    using assms(1) unfolding in_loop_def by blast
  have size: "log_size la + rec_size ?r < 2 ^ 32"
    using assms(2-4) by (simp add: fits_record_def max_record_def)
  obtain cs' where c: "commit_one (lib_crc L) ?d (GetMaxFileSize (setting db)) (word_of_nat m) w ?cs = Inr cs'"
    "loop_inv (lib_crc L) ?d m cs' ls' la'"
    "cs_records cs' = cs_records ?cs @ [place_hint m (value_offset la ?r) ?r]"
    "cs_last cs' = (if length ls' = length ls then cs_last ?cs else Suc (cs_idx ?cs))"
    "cs_idx cs' = Suc (cs_idx ?cs)"
    "grows ?d (length ls) (length ls') (cs_disk ?cs) (cs_disk cs')"
    by (rule commit_one_ok [OF inv size assms(5) refl assms(7) [unfolded limit_of_def]])
  let ?db = "db\<lparr>disk := cs_disk cs', activeFile := cs_active cs'\<rparr>"
  have ret: "commit_write L w cs db = Inr (cs', ?db)"
    by (simp add: commit_write_def stable_count_fd [OF m(4,2,3)] c(1))
  have "cs'\<lparr>cs_disk := disk ?db, cs_active := activeFile ?db\<rparr> = cs'" by (cases cs') simp
  then have loop: "in_loop L ?db cs' ls' la' ord" using m c(2) by (auto simp: in_loop_def)
  have len: "length ls \<le> length ls'" "length ls' \<le> Suc (length ls)"
    using assms(7) by (auto simp: fill_one_def split: if_splits)
  have dir: "dir_ok (disk ?db) ?d (length ls')" using dir_ok_grows [OF assms(6) _ len(1)] c(6) by simp
  have small: "log_size la' < limit_of db + max_record"
    using assms(7,4) by (auto simp: fill_one_def value_offset_def fits_record_def rec_size_def max_record_def split: if_splits)
  show thesis
    by (rule that [OF ret loop dir small len(2)]) (use c(3-5) m(3) in simp_all)
qed

lemma batch_snoc [simp]: "batch [w] = [(w_key w, w_value w)]"
  by (simp add: batch_def)

lemma loop_to_disk:
  assumes "in_loop L db cs ls la ord" and "length ls < 2 ^ 32"
  shows "disk_ok L (insert_stable (cs_new cs) db) ls la (ord @ [length ord..<length ls])"
proof -
  let ?d = "GetDbPath (setting db)" and ?cs = "cs\<lparr>cs_disk := disk db, cs_active := activeFile db\<rparr>"
  obtain m where m: "m < 2 ^ 32" "distinct ord" "set ord = {..<m}" "stable_handles ?d ord (stableFiles db)"
    and inv: "loop_inv (lib_crc L) ?d m ?cs ls la"
    using assms(1) unfolding in_loop_def by blast
  have ins: "fold insert_new (cs_new cs) (stableFiles db) = stableFiles db @ cs_new cs"
    "stable_handles ?d (ord @ [m..<length ls]) (stableFiles db @ cs_new cs)"
    using stable_insert [OF m inv assms(2)] by simp_all
  note parts = inv [unfolded loop_inv_of]
  have le: "m \<le> length ls" unfolding parts [THEN conjunct2, THEN conjunct1] by (rule le_add1)
  have set: "set (ord @ [m..<length ls]) = {..<length ls}" unfolding set_append m(3) using le by auto
  have dist: "distinct (ord @ [m..<length ls])" unfolding distinct_append m(3) using m(2) by auto
  have fields: "disk (insert_stable (cs_new cs) db) = disk db" "activeFile (insert_stable (cs_new cs) db) = activeFile db"
    "setting (insert_stable (cs_new cs) db) = setting db"
    "stableFiles (insert_stable (cs_new cs) db) = stableFiles db @ cs_new cs"
    using ins(1) by (simp_all add: insert_stable_def)
  have len: "length ord = m" using distinct_card [OF m(2)] unfolding m(3) by simp
  show ?thesis
    unfolding disk_ok_def handles_ok_def fields len using parts ins(2) set dist assms(2) by blast
qed

definition fitting :: "nat \<Rightarrow> Write list \<Rightarrow> bool" where
  "fitting n h \<longleftrightarrow> (\<forall>w \<in> set h. fits_record (w_key w) (w_value w)) \<and> n + length h < 2 ^ 31"

lemma fitting_prefix: "fitting n (h @ h') \<Longrightarrow> fitting n h"
  by (simp add: fitting_def)

lemma disk_ok_fields:
  "disk_ok L db ls la ord \<Longrightarrow> disk db' = disk db \<Longrightarrow> activeFile db' = activeFile db \<Longrightarrow> setting db' = setting db \<Longrightarrow>
     stableFiles db' = stableFiles db \<Longrightarrow> disk_ok L db' ls la ord"
  unfolding disk_ok_def handles_ok_def by (elim conjE) simp

text \<open>The next state of the invariant when the worker moves from a point without a loop.\<close>

lemma files_inv_next:
  assumes "files_inv L base n past s" and "disk db = disk (store s)" and "setting db = setting (store s)"
    and "past' @ written p = past @ written (point s)"
    and "\<And>ls la ord. length ls < 2 ^ 31 \<Longrightarrow> files_at L (point s) (store s) ls la ord \<Longrightarrow> \<exists>ord'. files_at L p db ls la ord'"
    and "n + length (past @ written (point s)) < 2 ^ 31"
  shows "files_inv L base n past' (s\<lparr>store := db, point := p\<rparr>)"
proof -
  obtain ls la ord where i: "concat ls @ la = base @ batch (past @ written (point s))"
    "length ls \<le> n + length (past @ written (point s))" "log_size la < limit_of (store s) + max_record"
    "dir_ok (disk (store s)) (GetDbPath (setting (store s))) (length ls)"
    "files_at L (point s) (store s) ls la ord" and lim: "limit_of (store s) \<le> 2 ^ 31"
    using assms(1) unfolding files_inv_def by blast
  have "length ls < 2 ^ 31" using i(2) assms(6) by (rule le_less_trans)
  from assms(5) [OF this i(5)] obtain ord' where "files_at L p db ls la ord'" ..
  moreover have st: "store (s\<lparr>store := db, point := p\<rparr>) = db" "point (s\<lparr>store := db, point := p\<rparr>) = p" by simp_all
  ultimately show ?thesis
    unfolding files_inv_def st limit_of_def assms(2,3,4) using i(1-4) lim unfolding limit_of_def by blast
qed

lemma files_inv_write:
  assumes "files_inv L base n past s" and "point s = WriteFiles (pre @ w # left) (w # left) cs"
    and "fitting n (past @ pre @ w # left)"
  obtains cs' db where "commit_write L w cs (store s) = Inr (cs', db)"
    and "files_inv L base n past (s\<lparr>store := db, point := WriteFiles (pre @ w # left) left cs'\<rparr>)"
proof -
  let ?db = "store s"
  have wr: "written (WriteFiles (pre @ w # left) (w # left) cs) = pre" by simp
  have wr': "written (WriteFiles (pre @ w # left) left cs') = pre @ [w]" for cs'
    using written_simps(1) [of "pre @ [w]" left cs'] by simp
  obtain ls la ord where i: "concat ls @ la = base @ batch (past @ pre)"
    "length ls \<le> n + length (past @ pre)" "log_size la < limit_of ?db + max_record"
    "dir_ok (disk ?db) (GetDbPath (setting ?db)) (length ls)" "in_loop L ?db cs ls la ord"
    and lim: "limit_of ?db \<le> 2 ^ 31"
    using assms(1) unfolding files_inv_def wr assms(2) files_at.simps by blast
  obtain ls' la' where f: "fill_one (limit_of ?db) (w_key w, w_value w) (ls, la) = (ls', la')" by fastforce
  have fit: "fits_record (w_key w) (w_value w)" and len: "Suc (length ls) < 2 ^ 32"
    using assms(3) i(2) by (auto simp: fitting_def)
  obtain cs' db where c: "commit_write L w cs ?db = Inr (cs', db)" "in_loop L db cs' ls' la' ord"
    "dir_ok (disk db) (GetDbPath (setting ?db)) (length ls')" "log_size la' < limit_of ?db + max_record"
    "length ls' \<le> Suc (length ls)"
    by (rule commit_write_ok [OF i(5) lim i(3) fit len i(4) f])
  have st: "setting db = setting ?db" using commit_write_fields [OF c(1)] by simp
  have "concat ls' @ la' = base @ batch (past @ pre @ [w])"
    using f i(1) by (auto simp: fill_one_def split: if_splits)
  moreover have "length ls' \<le> n + length (past @ pre @ [w])" using c(5) i(2) by simp
  moreover have new: "store (s\<lparr>store := db, point := p\<rparr>) = db" "point (s\<lparr>store := db, point := p\<rparr>) = p" for p
    by simp_all
  ultimately have "files_inv L base n past (s\<lparr>store := db, point := WriteFiles (pre @ w # left) left cs'\<rparr>)"
    unfolding files_inv_def new wr' files_at.simps limit_of_def st
    using c(2-4) lim unfolding limit_of_def by blast
  with c(1) show thesis by (rule that)
qed

lemma start_in_loop:
  assumes "disk_ok L db ls la ord"
  shows "in_loop L (db\<lparr>pending := []\<rparr>) (commit_start db) ls la ord"
proof -
  have h: "length ls < 2 ^ 32" "distinct ord" "set ord = {..<length ls}"
    "stable_handles (GetDbPath (setting db)) ord (stableFiles db)"
    "\<exists>af. activeFile db = Some af \<and> af_on (disk db) (db_file (GetDbPath (setting db)) (length ls)) af"
    using assms unfolding disk_ok_def handles_ok_def by blast+
  have "loop_inv (lib_crc L) (GetDbPath (setting db)) (length ls) (commit_start db) ls la"
    using assms h(5) by (simp add: loop_inv_def commit_start_def stable_handles_def disk_ok_def)
  then show ?thesis using h(1-4) by (auto simp: in_loop_def commit_start_def)
qed

text \<open>Every step of the worker returns and keeps the invariant of the files.\<close>

lemma worker_moves:
  assumes "order_inv h past s" and "files_inv L base n past s" and "fitting n h"
  obtains p db where "commit_step L (point s) (store s) = Inr (p, db)"
    and "files_inv L base n (if p = TestRunning then past @ held (point s) else past) (s\<lparr>store := db, point := p\<rparr>)"
proof -
  have h: "h = past @ held (point s) @ pending (store s)" using assms(1) by (simp add: order_inv_def)
  have "length (written (point s)) \<le> length (held (point s))" by (simp add: written_def)
  then have room: "n + length (past @ written (point s)) < 2 ^ 31"
    using assms(3) h by (simp add: fitting_def)
  note next_inv = files_inv_next [OF assms(2) _ _ _ _ room]
  show thesis
  proof (cases "point s")
    case TakeBatch
    have "files_inv L base n past (s\<lparr>store := (store s)\<lparr>pending := []\<rparr>,
        point := WriteFiles (pending (store s)) (pending (store s)) (commit_start (store s))\<rparr>)"
    proof (rule next_inv)
      fix ls la ord assume "files_at L (point s) (store s) ls la ord"
      then have "disk_ok L (store s) ls la ord" by (simp add: TakeBatch)
      from start_in_loop [OF this]
      show "\<exists>ord'. files_at L (WriteFiles (pending (store s)) (pending (store s)) (commit_start (store s)))
          ((store s)\<lparr>pending := []\<rparr>) ls la ord'" by auto
    qed (simp_all add: TakeBatch written_def)
    then show thesis using that TakeBatch by simp
  next
    case (WriteFiles ws left cs)
    show thesis
    proof (cases left)
      case Nil
      have "files_inv L base n past (s\<lparr>store := store s, point := InsertStable ws cs\<rparr>)"
        by (rule next_inv) (auto simp: WriteFiles Nil)
      then show thesis using that WriteFiles Nil by simp
    next
      case (Cons w left')
      obtain pre where ws: "ws = pre @ w # left'" using assms(1) WriteFiles Cons by (auto simp: order_inv_def)
      have "fitting n (past @ pre @ w # left')"
        using assms(3) fitting_prefix [of n "past @ ws" "pending (store s)"] by (simp add: h WriteFiles ws)
      from files_inv_write [OF assms(2) WriteFiles [unfolded Cons ws] this]
      obtain cs' db where "commit_write L w cs (store s) = Inr (cs', db)"
        "files_inv L base n past (s\<lparr>store := db, point := WriteFiles (pre @ w # left') left' cs'\<rparr>)" by blast
      then show thesis using that WriteFiles Cons ws by simp
    qed
  next
    case (InsertStable ws cs)
    have "files_inv L base n past (s\<lparr>store := insert_stable (cs_new cs) (store s), point := ClearActive ws cs\<rparr>)"
    proof (rule next_inv)
      fix ls :: "kvs list" and la ord
      assume "length ls < 2 ^ 31" and "files_at L (point s) (store s) ls la ord"
      then have "in_loop L (store s) cs ls la ord" "length ls < 2 ^ 32" by (simp_all add: InsertStable)
      from loop_to_disk [OF this]
      show "\<exists>ord'. files_at L (ClearActive ws cs) (insert_stable (cs_new cs) (store s)) ls la ord'" by auto
    qed (simp_all add: InsertStable insert_stable_def)
    then show thesis using that InsertStable by simp
  next
    case (ClearActive ws cs)
    have "files_inv L base n past (s\<lparr>store := clear_active L (cs_new cs) (store s), point := Publish PutActive ws cs 0\<rparr>)"
    proof (rule next_inv)
      fix ls :: "kvs list" and la ord assume "files_at L (point s) (store s) ls la ord"
      then have "disk_ok L (store s) ls la ord" by (simp add: ClearActive)
      then have "disk_ok L (clear_active L (cs_new cs) (store s)) ls la ord"
        by (rule disk_ok_fields) (simp_all add: clear_active_def)
      then show "\<exists>ord'. files_at L (Publish PutActive ws cs 0) (clear_active L (cs_new cs) (store s)) ls la ord'" by auto
    qed (simp_all add: ClearActive clear_active_def)
    then show thesis using that ClearActive by simp
  next
    case (Publish st ws cs i)
    have "\<exists>p db. commit_step L (point s) (store s) = Inr (p, db)"
      by (cases st; cases "i < length ws") (simp_all add: Publish)
    then obtain p db where c1: "commit_step L (point s) (store s) = Inr (p, db)" by blast
    then have c: "disk db = disk (store s)" "activeFile db = activeFile (store s)" "setting db = setting (store s)"
      "stableFiles db = stableFiles (store s)" and p: "p = TestRunning \<or> (\<exists>st' j. p = Publish st' ws cs j)"
      by (cases st; cases "i < length ws"; cases "cs_last cs \<le> i"; force simp: Publish)+
    have at: "disk_ok L db ls la ord" if "disk_ok L (store s) ls la ord" for ls la ord
      using disk_ok_fields [OF that c] .
    have "files_inv L base n (if p = TestRunning then past @ held (point s) else past) (s\<lparr>store := db, point := p\<rparr>)"
    proof (rule next_inv)
      fix ls :: "kvs list" and la ord assume "files_at L (point s) (store s) ls la ord"
      then have "disk_ok L db ls la ord" using at by (simp add: Publish)
      then show "\<exists>ord'. files_at L p db ls la ord'" using p by auto
    qed (use p c in \<open>auto simp: Publish\<close>)
    with c1 show thesis by (rule that)
  next
    case TestRunning
    have "files_inv L base n past (s\<lparr>store := store s, point := if running (store s) then TakeBatch else Gone\<rparr>)"
      by (rule next_inv) (auto simp: TestRunning)
    then show thesis using that TestRunning by (auto split: if_splits)
  next
    case Gone
    have "files_inv L base n past (s\<lparr>store := store s, point := Gone\<rparr>)"
      by (rule next_inv) (auto simp: Gone)
    then show thesis using that Gone by simp
  qed
qed

section \<open>The invariant of every run\<close>

text \<open>No reader is left without its file.\<close>

definition readers_inv :: "('am, 'rm) threads \<Rightarrow> bool" where
  "readers_inv s \<longleftrightarrow> (\<forall>t k h. readers s t = Some (k, Sought h) \<longrightarrow> map_of (stableFiles (store s)) (hint_fd h) \<noteq> None)"

definition thread_inv :: "('am, 'rm) libs \<Rightarrow> kvs \<Rightarrow> nat \<Rightarrow> Write list \<Rightarrow> ('am, 'rm) threads \<Rightarrow> bool" where
  "thread_inv L base n h s \<longleftrightarrow> readers_inv s \<and> (\<exists>past. order_inv h past s \<and> files_inv L base n past s)"

lemma insert_new_keeps: "map_of m fd \<noteq> None \<Longrightarrow> map_of (fold insert_new new m) fd \<noteq> None"
proof (induction new arbitrary: m)
  case (Cons e new)
  have "map_of (insert_new e m) fd \<noteq> None" using Cons.prems by (auto simp: insert_new_def map_add_def split: option.split)
  then show ?case using Cons.IH by simp
qed simp

lemma commit_step_keeps_files:
  "commit_step L p db = Inr (p', db') \<Longrightarrow> map_of (stableFiles db) fd \<noteq> None \<Longrightarrow> map_of (stableFiles db') fd \<noteq> None"
  using insert_new_keeps
  by (induction L p db rule: commit_step.induct)
    (auto simp: insert_stable_def clear_active_def split: sum.splits if_splits dest!: commit_write_fields)

lemma update_keeps: "map_of m fd \<noteq> None \<Longrightarrow> map_of (AList.update fd' sf m) fd \<noteq> None"
  by (cases "fd' = fd") (auto simp: update_conv')

lemma stream_moved_keeps: "stream_moved db db' \<Longrightarrow> map_of (stableFiles db) fd \<noteq> None \<Longrightarrow> map_of (stableFiles db') fd \<noteq> None"
  unfolding stream_moved_def
proof (elim disjE exE conjE)
  fix fd' sf sf' assume "map_of (stableFiles db) fd \<noteq> None"
    and db': "db' = db\<lparr>stableFiles := AList.update fd' sf' (stableFiles db)\<rparr>"
  then show "map_of (stableFiles db') fd \<noteq> None" using update_keeps [of "stableFiles db" fd fd' sf'] by simp
qed simp

lemma Get_step_sought: "Get_step L k r db = Inr (Inl (Sought h), db') \<Longrightarrow> map_of (stableFiles db') (hint_fd h) \<noteq> None"
  by (induction L k r db rule: Get_step.induct) (auto simp: Let_def split: option.splits sum.splits)

lemma readers_inv_step: "readers_inv s \<Longrightarrow> thread_step L s e s' \<Longrightarrow> readers_inv s'"
proof (erule thread_stepE)
  fix t k r r' db
  assume i: "readers_inv s" and s': "s' = s\<lparr>store := db, readers := (readers s)(t \<mapsto> (k, r'))\<rparr>"
    and g: "Get_step L k r (store s) = Inr (Inl r', db)"
  show "readers_inv s'" unfolding readers_inv_def s'
    using i stream_moved_keeps [OF Get_step_moves [OF g]] Get_step_sought [of L k r "store s" _ db] g
    by (auto simp: readers_inv_def split: if_splits)
next
  fix t k r v db
  assume i: "readers_inv s" and s': "s' = s\<lparr>store := db, readers := (readers s)(t := None)\<rparr>"
    and g: "Get_step L k r (store s) = Inr (Inr v, db)"
  show "readers_inv s'" unfolding readers_inv_def s'
    using i stream_moved_keeps [OF Get_step_moves [OF g]] by (auto simp: readers_inv_def split: if_splits)
next
  fix p db
  assume i: "readers_inv s" and s': "s' = s\<lparr>store := db, point := p\<rparr>"
    and c: "commit_step L (point s) (store s) = Inr (p, db)"
  show "readers_inv s'" unfolding readers_inv_def s'
    using i commit_step_keeps_files [OF c] by (auto simp: readers_inv_def)
qed (auto simp: readers_inv_def dest: Put_fields Delete_fields split: option.splits)

lemma order_inv_fields:
  "order_inv h past s \<Longrightarrow> pending db = pending (store s) \<Longrightarrow> next_promise db = next_promise (store s) \<Longrightarrow>
     fulfilled db = fulfilled (store s) \<Longrightarrow> store s' = db \<Longrightarrow> point s' = point s \<Longrightarrow> order_inv h past s'"
  by (auto simp: order_inv_def)

lemma order_inv_queue:
  assumes "order_inv h past s" and "p = next_promise (store s)"
    and "w = \<lparr>w_key = k, w_value = v, w_promise = p\<rparr>"
  shows "order_inv (h @ [w]) past (s\<lparr>store := (store s)\<lparr>next_promise := Suc p, pending := pending (store s) @ [w]\<rparr>\<rparr>)"
  using assms by (auto simp: order_inv_def)

text \<open>A step of a client moves a stream or leaves the files and the maps alone.\<close>

definition client_moved :: "('am, 'rm) BitcaskImpl \<Rightarrow> ('am, 'rm) BitcaskImpl \<Rightarrow> bool" where
  "client_moved db db' \<longleftrightarrow> stream_moved db db' \<or> (disk db' = disk db \<and> setting db' = setting db
     \<and> stableFiles db' = stableFiles db \<and> activeFile db' = activeFile db
     \<and> activeMap db' = activeMap db \<and> recordMap db' = recordMap db)"

lemma client_step:
  assumes "thread_step L s e s'" and "e \<noteq> WorkerMoves"
  shows "point s' = point s" and "client_moved (store s) (store s')"
proof -
  have "point s' = point s \<and> client_moved (store s) (store s')"
    using assms
    by cases (auto simp: client_moved_def split: option.splits dest: Put_fields Delete_fields Get_step_moves)
  then show "point s' = point s" and "client_moved (store s) (store s')" by auto
qed

text \<open>The finished batches after a step.\<close>

definition next_past :: "Write list \<Rightarrow> ('am, 'rm) threads \<Rightarrow> happening \<Rightarrow> ('am, 'rm) threads \<Rightarrow> Write list" where
  "next_past past s e s' = (if e = WorkerMoves \<and> point s' = TestRunning then past @ held (point s) else past)"

lemma order_inv_step:
  fixes L :: "('am, 'rm) libs"
  assumes "order_inv h past s" and "thread_step L s e s'"
  shows "order_inv (h @ written_by e) (next_past past s e s') s'"
  using assms(2)
proof cases
  case (put k v p db)
  then show ?thesis
    using order_inv_queue [OF assms(1), of p _ k v] Put_fields [OF put(5)] by (auto simp: next_past_def)
next
  case (delete k r db)
  then show ?thesis
    using order_inv_queue [OF assms(1), of _ _ k TOMBSTONE] Delete_fields [OF delete(5)] assms(1)
    by (auto simp: next_past_def split: option.splits)
next
  case (get_call t k)
  then show ?thesis using assms(1) by (auto simp: order_inv_def next_past_def)
next
  case (get_move t k r r' db)
  then show ?thesis
    using order_inv_fields [OF assms(1), of db s'] stream_moved_fields [OF Get_step_moves [OF get_move(4)]]
    by (simp add: next_past_def)
next
  case (get_return t k r v db)
  then show ?thesis
    using order_inv_fields [OF assms(1), of db s'] stream_moved_fields [OF Get_step_moves [OF get_return(4)]]
    by (simp add: next_past_def)
next
  case (work p db)
  then show ?thesis using order_inv_work [OF assms(1) work(4,3)] by (simp add: next_past_def)
next
  case destroy
  then show ?thesis using assms(1) by (auto simp: order_inv_def next_past_def)
qed

lemma thread_inv_step:
  fixes L :: "('am, 'rm) libs"
  assumes "thread_inv L base n h s" and "thread_step L s e s'" and "fitting n (h @ written_by e)"
  shows "thread_inv L base n (h @ written_by e) s'"
proof -
  obtain past where i: "order_inv h past s" "files_inv L base n past s"
    using assms(1) by (auto simp: thread_inv_def)
  have "files_inv L base n (next_past past s e s') s'"
  proof (cases "e = WorkerMoves")
    case True
    then obtain p db where work: "commit_step L (point s) (store s) = Inr (p, db)" "s' = s\<lparr>store := db, point := p\<rparr>"
      using assms(2) by (auto simp: thread_step_simps)
    have fit: "fitting n h" using assms(3) by (rule fitting_prefix)
    obtain p' db' where "commit_step L (point s) (store s) = Inr (p', db')"
      "files_inv L base n (if p' = TestRunning then past @ held (point s) else past) (s\<lparr>store := db', point := p'\<rparr>)"
      by (rule worker_moves [OF i fit])
    then show ?thesis using work True by (simp add: next_past_def)
  next
    case False
    note c = client_step [OF assms(2) False]
    have "files_inv L base n past s'"
      by (rule files_inv_cong [OF i(2) _ refl c(1)]) (use c(2) in \<open>auto simp: client_moved_def\<close>)
    then show ?thesis using False by (simp add: next_past_def)
  qed
  then show ?thesis using order_inv_step [OF i(1) assms(2)] readers_inv_step assms(1,2) by (auto simp: thread_inv_def)
qed

text \<open>The state a store is in when it has been opened: what a start or a restart leaves.\<close>

definition opened :: "('am, 'rm) libs \<Rightarrow> kvs list \<Rightarrow> kvs \<Rightarrow> nat list \<Rightarrow> ('am, 'rm) BitcaskImpl \<Rightarrow> bool" where
  "opened L ls la ord db \<longleftrightarrow> libs_ok L \<and> just_started db \<and> store_ok L db ls la ord
     \<and> dir_ok (disk db) (GetDbPath (setting db)) (length ls)
     \<and> limit_of db \<le> 2 ^ 31 \<and> log_size la < limit_of db + max_record"

lemma thread_inv_started:
  assumes "opened L ls la ord db"
  shows "thread_inv L (concat ls @ la) (length ls) [] (started db)"
proof -
  have "order_inv [] [] (started db)"
    using assms by (simp add: opened_def order_inv_def started_def just_started_def)
  moreover have "files_inv L (concat ls @ la) (length ls) [] (started db)"
    using assms by (auto simp: opened_def files_inv_def started_def store_ok_disk_ok batch_def)
  ultimately show ?thesis by (auto simp: thread_inv_def readers_inv_def started_def)
qed

lemma thread_inv_run:
  assumes "opened L ls la ord db" and "thread_run L (started db) es s" and "fitting (length ls) (history es)"
  shows "thread_inv L (concat ls @ la) (length ls) (history es) s"
  using assms(2,3)
proof (induction rule: thread_run.induct)
  case run_start
  show ?case using thread_inv_started [OF assms(1)] by simp
next
  case (run_step es s e s')
  then show ?case using thread_inv_step fitting_prefix by fastforce
qed

section \<open>Properties of the small steps\<close>

lemma files_at_handles: "files_at L p db ls la ord \<Longrightarrow> stable_handles (GetDbPath (setting db)) ord (stableFiles db)"
  by (cases p) (auto simp: in_loop_def disk_ok_def handles_ok_def)

lemma stable_handles_open: "stable_handles d ord m \<Longrightarrow> map_of m fd = Some sf \<Longrightarrow> \<exists>fh. sf_file sf = Some fh"
  unfolding stable_handles_def
  by (induction rule: list_all2_induct) (auto simp: sf_on_def split: if_splits)

lemma Get_step_returns:
  assumes "stable_handles d ord (stableFiles db)"
    and "\<And>h. r = Sought h \<Longrightarrow> map_of (stableFiles db) (hint_fd h) \<noteq> None"
  shows "\<exists>x db'. Get_step L k r db = Inr (x, db')"
proof (cases r)
  case (Looked rec)
  then show ?thesis by simp
next
  case (Staged stage)
  show ?thesis
  proof (cases stage)
    case (InStable h)
    show ?thesis
    proof (cases "map_of (stableFiles db) (hint_fd h)")
      case (Some sf)
      obtain fh where "sf_file sf = Some fh" using stable_handles_open [OF assms(1) Some] by blast
      then show ?thesis by (simp add: Staged InStable Some StableFile_seek_def)
    qed (simp add: Staged InStable)
  qed (simp_all add: Staged Let_def)
next
  case (Sought h)
  obtain sf where sf: "map_of (stableFiles db) (hint_fd h) = Some sf" using assms(2) [OF Sought] by auto
  obtain fh where "sf_file sf = Some fh" using stable_handles_open [OF assms(1) sf] by blast
  then show ?thesis by (simp add: Sought sf StableFile_take_def Let_def split: prod.split)
qed

text \<open>C8. No thread faults or gets stuck. However the worker and the readers are interleaved, the worker
  can take its next step until it has left its loop, and every \<open>Get\<close> under way can take its next step or
  return: no null handler is used and no stable file disappears.\<close>
theorem threads_never_fault:
  assumes "opened L ls0 la0 ord0 db" and "thread_run L (started db) es s"
    and "fitting (length ls0) (history es)"
  shows "(point s \<noteq> Gone \<longrightarrow> (\<exists>s'. thread_step L s WorkerMoves s'))
     \<and> (\<forall>t k r. readers s t = Some (k, r) \<longrightarrow>
          (\<exists>s'. thread_step L s (GetMoves t) s') \<or> (\<exists>v s'. thread_step L s (GetReturns t v) s'))"
proof -
  obtain past where i: "readers_inv s" "order_inv (history es) past s"
    "files_inv L (concat ls0 @ la0) (length ls0) past s"
    using thread_inv_run [OF assms] unfolding thread_inv_def by blast
  have "\<exists>s'. thread_step L s WorkerMoves s'" if "point s \<noteq> Gone"
    using worker_moves [OF i(2,3) assms(3)] thread_step.work [OF that] by metis
  moreover have "(\<exists>s'. thread_step L s (GetMoves t) s') \<or> (\<exists>v s'. thread_step L s (GetReturns t v) s')"
    if r: "readers s t = Some (k, r)" for t k r
  proof -
    obtain ls la ord where "files_at L (point s) (store s) ls la ord" using i(3) unfolding files_inv_def by blast
    then have h: "stable_handles (GetDbPath (setting (store s))) ord (stableFiles (store s))"
      by (rule files_at_handles)
    have "map_of (stableFiles (store s)) (hint_fd h) \<noteq> None" if "r = Sought h" for h
      using i(1) r that unfolding readers_inv_def by blast
    from Get_step_returns [OF h this] obtain x db' where "Get_step L k r (store s) = Inr (x, db')" by blast
    then show ?thesis using thread_step.get_move [OF r] thread_step.get_return [OF r] by (cases x) blast+
  qed
  ultimately show ?thesis by blast
qed

text \<open>The files and the futures at any moment of a run.\<close>

lemma run_files:
  assumes "opened L ls0 la0 ord0 db" and "thread_run L (started db) es s"
    and "fitting (length ls0) (history es)"
  obtains m c ls la where "fulfilled (store s) = [0..<m]" and "m \<le> c" and "c \<le> length (history es)"
    and "files_ok (lib_crc L) (disk (store s)) (GetDbPath (setting (store s))) ls la"
    and "concat ls @ la = concat ls0 @ la0 @ batch (take c (history es))"
    and "dir_ok (disk (store s)) (GetDbPath (setting (store s))) (length ls)" and "length ls < 2 ^ 31"
proof -
  obtain past where o: "order_inv (history es) past s"
    and f: "files_inv L (concat ls0 @ la0) (length ls0) past s"
    using thread_inv_run [OF assms] unfolding thread_inv_def by blast
  obtain ls la ord where l: "concat ls @ la = (concat ls0 @ la0) @ batch (past @ written (point s))"
    "files_at L (point s) (store s) ls la ord" "length ls \<le> length ls0 + length (past @ written (point s))"
    "dir_ok (disk (store s)) (GetDbPath (setting (store s))) (length ls)"
    using f unfolding files_inv_def by blast
  let ?m = "length (past @ take (set_count (point s)) (held (point s)))"
  let ?c = "length (past @ written (point s))"
  have h: "history es = past @ held (point s) @ pending (store s)" using o by (simp add: order_inv_def)
  have "?m = length past + set_count (point s)" using o by (auto simp: order_inv_def)
  then have ful: "fulfilled (store s) = [0..<?m]" using order_inv_numbers(2) [OF o] by simp
  have "set_count (point s) \<le> length (written (point s))" using o
    by (cases "point s") (auto simp: order_inv_def written_def)
  then have le: "?m \<le> ?c" by simp
  have pre: "take ?c (history es) = past @ written (point s)" unfolding h by (simp add: written_def)
  have "?c \<le> length (history es)" unfolding h by (simp add: written_def)
  moreover from this have "length ls < 2 ^ 31" using l(3) assms(3) by (simp add: fitting_def)
  ultimately show thesis using that [OF ful le _ files_at_files_ok [OF l(2)] _ l(4)] l(1) pre by simp
qed

text \<open>C7. A write is on disk before its future is ready. At every moment of every interleaving the
  futures that are ready are those of the first \<open>m\<close> writes queued, and the data files hold exactly what
  they held when the store was opened followed by the first \<open>c\<close> writes queued, with \<open>m \<le> c\<close>.\<close>
theorem ready_after_written:
  assumes "opened L ls0 la0 ord0 db" and "thread_run L (started db) es s"
    and "fitting (length ls0) (history es)"
  shows "\<exists>m c ls la. fulfilled (store s) = [0..<m] \<and> m \<le> c \<and> c \<le> length (history es)
     \<and> files_ok (lib_crc L) (disk (store s)) (GetDbPath (setting (store s))) ls la
     \<and> concat ls @ la = concat ls0 @ la0 @ batch (take c (history es))"
  by (rule run_files [OF assms]) blast

text \<open>The small steps are steps of the functions modelled as a whole: a worker that runs alone makes
  exactly the turn of \<open>CommitWorker\<close> in at most \<open>4 n + 5\<close> steps for \<open>n\<close> queued writes, and a reader
  alone is \<open>Get\<close> in at most three.\<close>

lemma small_steps_alone:
  "commit_alone (4 * length (pending db) + 5) L TakeBatch db = worker_turn L db
   \<and> Get_alone 3 L k (Looked (RecordMap_Get (lib_rmap L) (recordMap db) k)) db = Get L k db"
  using commit_alone_is_turn Get_alone_is_Get by blast

section \<open>The properties at a concrete system\<close>

lemma worker_turn_run:
  assumes "commit_alone n L (point s) (store s) = Inr db" and "thread_run L s0 es s" and "point s \<noteq> Gone"
  shows "\<exists>m s'. thread_run L s0 (es @ replicate m WorkerMoves) s' \<and> store s' = db \<and> point s' = TestRunning
     \<and> readers s' = readers s"
  using assms
proof (induction n arbitrary: s es)
  case 0
  then show ?case by (cases "point s") (force intro: exI [of _ "0::nat"])+
next
  case (Suc n)
  show ?case
  proof (cases "point s = TestRunning")
    case True
    then show ?thesis using Suc.prems by (intro exI [of _ 0] exI [of _ s]) simp
  next
    case False
    then obtain p db1 where c: "commit_step L (point s) (store s) = Inr (p, db1)" "commit_alone n L p db1 = Inr db"
      using Suc.prems(1) by (auto simp: alone_step split: sum.splits)
    let ?s = "s\<lparr>store := db1, point := p\<rparr>"
    have run: "thread_run L s0 (es @ [WorkerMoves]) ?s"
      by (rule run_step [OF Suc.prems(2) thread_step.work [OF Suc.prems(3) c(1)]])
    have "p \<noteq> Gone" using c(1) False Suc.prems(3)
      by (cases "(L, point s, store s)" rule: commit_step.cases) (auto split: sum.splits if_splits)
    then obtain m s' where "thread_run L s0 ((es @ [WorkerMoves]) @ replicate m WorkerMoves) s'" "store s' = db"
      "point s' = TestRunning" "readers s' = readers s"
      using Suc.IH [of ?s, OF _ run] c(2) by auto
    then show ?thesis by (intro exI [of _ "Suc m"] exI [of _ s']) simp
  qed
qed

lemma example_opened:
  obtains db where "opened example_libs [] [] [] db" and "setting db = example_setting"
    and "Bitcask_Create example_libs example_setting no_files = Inr db"
proof -
  obtain db where db: "Bitcask_Create example_libs example_setting no_files = Inr db" by (rule example_store)
  have fresh: "fresh_dir no_files (GetDbPath example_setting)" by simp
  note f = fresh_system [OF libs_ok_example fresh db]
  have "dir_ok (disk db) (GetDbPath (setting db)) (length ([] :: kvs list))"
    using start_fresh [OF libs_ok_example fresh] db f(4) by (metis Bitcask_Create_def list.size(3) sum.inject(2))
  then have "opened example_libs [] [] [] db"
    using f by (simp add: opened_def libs_ok_example limit_of_def max_record_def)
  with f(4) db show thesis using that by blast
qed

lemma store_ok_fields:
  "store_ok L db ls la ord \<Longrightarrow> disk db' = disk db \<Longrightarrow> activeFile db' = activeFile db \<Longrightarrow> setting db' = setting db \<Longrightarrow>
     stableFiles db' = stableFiles db \<Longrightarrow> recordMap db' = recordMap db \<Longrightarrow> activeMap db' = activeMap db \<Longrightarrow>
     store_ok L db' ls la ord"
  using disk_ok_fields [of L db ls la ord db'] by (simp add: store_ok_disk_ok index_ok_def)

lemma example_threads:
  obtains db s where "opened example_libs [] [] [] db" and "setting db = example_setting"
    and "thread_run example_libs (started db) [PutBy k v 0] s"
    and "point s = TakeBatch" and "readers s = Map.empty" and "running (store s)"
    and "pending (store s) = [\<lparr>w_key = k, w_value = v, w_promise = 0\<rparr>]" and "fulfilled (store s) = []"
    and "store_ok example_libs (store s) [] [] []" and "setting (store s) = example_setting"
proof -
  obtain db where db: "opened example_libs [] [] [] db" "setting db = example_setting" by (rule example_opened)
  then have j: "running db" "next_promise db = 0" "pending db = []" "fulfilled db = []"
    "store_ok example_libs db [] [] []"
    by (simp_all add: opened_def just_started_def)
  let ?s = "started db" and ?db = "snd (Put k v db)"
  have "thread_step example_libs ?s (PutBy k v 0) (?s\<lparr>store := ?db\<rparr>)"
    by (rule thread_step.put) (use j in \<open>simp_all add: started_def Put_def\<close>)
  note run = run_step [OF run_start this]
  have "store_ok example_libs ?db [] [] []" by (rule store_ok_fields [OF j(5)]) (simp_all add: Put_def)
  with run show thesis using that [OF db] j db(2) by (simp add: started_def Put_def)
qed

lemma history_moves: "history (replicate m WorkerMoves) = []"
  by (induction m) simp_all

lemma example_moves_history: "history ([PutBy k v 0] @ replicate m WorkerMoves) = [\<lparr>w_key = k, w_value = v, w_promise = 0\<rparr>]"
  by (simp add: history_moves)

lemma example_written: "fitting 0 (history ([PutBy ''k'' ''v'' 0] @ replicate m WorkerMoves))"
  "history ([PutBy ''k'' ''v'' 0] @ replicate m WorkerMoves) = [\<lparr>w_key = ''k'', w_value = ''v'', w_promise = 0\<rparr>]"
  by (simp_all add: history_moves fitting_def)

text \<open>The worker commits the one write of the example, with or without a rotation.\<close>

lemma example_commit:
  assumes "fits_record k v" and "fill_one 30 (k, v) ([], []) = (ls, la)"
  obtains db s m where "opened example_libs [] [] [] db" and "setting db = example_setting"
    and "thread_run example_libs (started db) ([PutBy k v 0] @ replicate m WorkerMoves) s"
    and "point s = TestRunning" and "readers s = Map.empty" and "running (store s)" and "fulfilled (store s) = [0]"
    and "store_ok example_libs (store s) ls la [0..<length ls]"
proof -
  obtain db s where e: "opened example_libs [] [] [] db" "setting db = example_setting"
    "thread_run example_libs (started db) [PutBy k v 0] s" "point s = TakeBatch" "readers s = Map.empty"
    "pending (store s) = [\<lparr>w_key = k, w_value = v, w_promise = 0\<rparr>]" "fulfilled (store s) = []"
    "running (store s)" "store_ok example_libs (store s) [] [] []" "setting (store s) = example_setting"
    by (rule example_threads)
  have t: "worker_turn example_libs (store s) = commit_alone 9 example_libs TakeBatch (store s)"
    using commit_alone_is_turn [of "store s" example_libs] e(6) by simp
  let ?db = "(store s)\<lparr>pending := []\<rparr>"
  have st: "store_ok example_libs ?db [] [] []" by (rule store_ok_fields [OF e(9)]) simp_all
  have b: "batch (pending (store s)) = [(k, v)]" by (simp add: e(6) batch_def)
  have room: "room_for [] [] (batch (pending (store s)))"
    using assms(1) by (simp add: b room_for_def fits_record_def max_record_def)
  have fl: "fill (limit_of ?db) (batch (pending (store s))) ([], []) = (ls, la)"
    using assms(2) e(10) by (simp add: b limit_of_def)
  have rot: "rotates_only_last (limit_of ?db) (batch (pending (store s))) []" by (simp add: b)
  obtain db' where w: "CommitWrite example_libs (pending (store s)) ?db = Inr db'"
    "store_ok example_libs db' ls la ([] @ [length ([] :: kvs list)..<length ls])"
    by (rule CommitWrite_store_ok [OF libs_ok_example st room rot fl])
  have f: "fulfilled db' = [0]" "running db'"
    using CommitWrite_client [OF w(1)] e(6-8) by simp_all
  have "commit_alone 9 example_libs (point s) (store s) = Inr db'" using t w(1) e(4) by (simp add: worker_turn_def)
  from worker_turn_run [OF this e(3)] e(4,5) obtain m s' where
    "thread_run example_libs (started db) ([PutBy k v 0] @ replicate m WorkerMoves) s'"
    "store s' = db'" "point s' = TestRunning" "readers s' = Map.empty" by auto
  with e(1,2) f w(2) show thesis using that by simp
qed

lemma fits_kv: "fits_record ''k'' ''v''"
  by simp

lemma example_turn:
  obtains db s m where "opened example_libs [] [] [] db" and "setting db = example_setting"
    and "thread_run example_libs (started db) ([PutBy ''k'' ''v'' 0] @ replicate m WorkerMoves) s"
    and "point s = TestRunning" and "readers s = Map.empty" and "running (store s)" and "fulfilled (store s) = [0]"
proof -
  obtain ls la where "fill_one 30 (''k'', ''v'') ([], []) = (ls, la)" by fastforce
  from example_commit [OF _ this] that show thesis by (metis fits_kv)
qed

theorem threads_never_fault_witness:
  "\<exists>db s s'. thread_run example_libs (started db) [PutBy ''k'' ''v'' 0] s \<and> point s = TakeBatch
     \<and> thread_step example_libs s WorkerMoves s'"
proof -
  obtain db s where e: "opened example_libs [] [] [] db"
    "thread_run example_libs (started db) [PutBy ''k'' ''v'' 0] s" "point s = TakeBatch"
    by (rule example_threads)
  have "fitting (length ([] :: kvs list)) (history [PutBy ''k'' ''v'' 0])" using example_written(1) [of 0] by simp
  from threads_never_fault [OF e(1,2) this] e(2,3) show ?thesis by (metis point.distinct(11))
qed

theorem ready_after_written_witness:
  "\<exists>db s m ls la. thread_run example_libs (started db) ([PutBy ''k'' ''v'' 0] @ replicate m WorkerMoves) s
     \<and> fulfilled (store s) = [0] \<and> files_ok sum_crc (disk (store s)) (GetDbPath (setting (store s))) ls la
     \<and> concat ls @ la = [(''k'', ''v'')]"
proof -
  obtain db s m where e: "opened example_libs [] [] [] db"
    "thread_run example_libs (started db) ([PutBy ''k'' ''v'' 0] @ replicate m WorkerMoves) s" "fulfilled (store s) = [0]"
    by (rule example_turn)
  let ?h = "history ([PutBy ''k'' ''v'' 0] @ replicate m WorkerMoves)"
  have fit: "fitting (length ([] :: kvs list)) ?h" using example_written(1) by simp
  obtain n c ls la where r: "fulfilled (store s) = [0..<n]" "n \<le> c" "c \<le> length ?h"
    "files_ok (lib_crc example_libs) (disk (store s)) (GetDbPath (setting (store s))) ls la"
    "concat ls @ la = concat [] @ [] @ batch (take c ?h)"
    using ready_after_written [OF e(1,2) fit] by blast
  have "length [0..<n] = 1" using r(1) e(3) by (metis One_nat_def length_Cons list.size(3))
  then have "c = 1" using r(2,3) unfolding example_written(2) by simp
  then have "concat ls @ la = [(''k'', ''v'')]" using r(5) unfolding example_written(2) by simp
  with e(2,3) r(4) show ?thesis by (auto simp: example_libs_def)
qed

end
