(* ===== verification/Simulation.thy ===== *)
theory Simulation
  imports Threads
begin

text \<open>
  The two models of the threads agree: every run of the system of theory \<open>Concurrency\<close>, in which the
  worker commits a batch in one step and a read is one step, is a run of the small steps of theory
  \<open>Threads\<close> in which nobody comes between. So every state that the large steps reach is reached by
  the small ones, and what holds of all small-step runs holds of the large ones.
\<close>

text \<open>Where the worker of the large steps stands in the small ones.\<close>

fun place :: "worker \<Rightarrow> ('am, 'rm) BitcaskImpl \<Rightarrow> point" where
  "place AtSwap db = TakeBatch"
| "place (AtCommit ws) db = WriteFiles ws ws (commit_start db)"
| "place AtCheck db = TestRunning"
| "place Exited db = Gone"

definition threads_of :: "('am, 'rm) system \<Rightarrow> ('am, 'rm) threads" where
  "threads_of s = \<lparr>store = engine s, point = place (worker s) (engine s), readers = Map.empty\<rparr>"

lemma place_cong: "disk db' = disk db \<Longrightarrow> activeFile db' = activeFile db \<Longrightarrow> place w db' = place w db"
  by (cases w) (simp_all add: commit_start_def)

lemma threads_of_simps [simp]: "store (threads_of s) = engine s" "point (threads_of s) = place (worker s) (engine s)"
  "readers (threads_of s) = Map.empty"
  by (simp_all add: threads_of_def)

lemma Get_files: "Get L k db = Inr (v, db') \<Longrightarrow> disk db' = disk db \<and> activeFile db' = activeFile db"
  by (auto simp: Get_def Let_def split: option.splits if_splits sum.splits)

text \<open>A read without interruption.\<close>

lemma reader_run:
  assumes "Get_alone n L k r (store s) = Inr (v, db)" and "thread_run L s0 es s" and "readers s = [t \<mapsto> (k, r)]"
  shows "\<exists>m. thread_run L s0 (es @ replicate m (GetMoves t) @ [GetReturns t v]) (s\<lparr>store := db, readers := Map.empty\<rparr>)"
  using assms
proof (induction n arbitrary: r s es)
  case (Suc n)
  obtain x db1 where x: "Get_step L k r (store s) = Inr (x, db1)"
    using Suc.prems(1) by (auto split: sum.splits)
  show ?case
  proof (cases x)
    case (Inl r')
    let ?s = "s\<lparr>store := db1, readers := [t \<mapsto> (k, r')]\<rparr>"
    have "(readers s)(t \<mapsto> (k, r')) = [t \<mapsto> (k, r')]" unfolding Suc.prems(3) by (rule fun_upd_upd)
    then have "thread_step L s (GetMoves t) ?s"
      using thread_step.get_move [of s t k r L r' db1] x Inl Suc.prems(3) by simp
    from run_step [OF Suc.prems(2) this] have run: "thread_run L s0 (es @ [GetMoves t]) ?s" .
    have "Get_alone n L k r' (store ?s) = Inr (v, db)" using Suc.prems(1) x Inl by simp
    from Suc.IH [OF this run] obtain m where
      "thread_run L s0 ((es @ [GetMoves t]) @ replicate m (GetMoves t) @ [GetReturns t v]) (?s\<lparr>store := db, readers := Map.empty\<rparr>)"
      by auto
    then have "thread_run L s0 (es @ replicate (Suc m) (GetMoves t) @ [GetReturns t v]) (s\<lparr>store := db, readers := Map.empty\<rparr>)"
      by simp
    then show ?thesis by blast
  next
    case (Inr v')
    then have v: "v' = v" "db1 = db" using Suc.prems(1) x by simp_all
    have "(readers s)(t := None) = Map.empty" unfolding Suc.prems(3) by (simp add: fun_eq_iff)
    then have "thread_step L s (GetReturns t v) (s\<lparr>store := db, readers := Map.empty\<rparr>)"
      using thread_step.get_return [of s t k r L v db] x Inr v Suc.prems(3) by simp
    from run_step [OF Suc.prems(2) this]
    have "thread_run L s0 (es @ replicate 0 (GetMoves t) @ [GetReturns t v]) (s\<lparr>store := db, readers := Map.empty\<rparr>)"
      by simp
    then show ?thesis by blast
  qed
qed simp

text \<open>The reads of a run: the keys asked for and the values returned.\<close>

fun read_of :: "event \<Rightarrow> (key \<times> val option) list" where
  "read_of (GetCalled k v) = [(k, v)]"
| "read_of _ = []"

definition reads_of :: "event list \<Rightarrow> (key \<times> val option) list" where
  "reads_of es = concat (map read_of es)"

fun key_read :: "happening \<Rightarrow> key list" where
  "key_read (GetCall t k) = [k]"
| "key_read _ = []"

fun value_read :: "happening \<Rightarrow> val option list" where
  "value_read (GetReturns t v) = [v]"
| "value_read _ = []"

definition clients_saw :: "happening list \<Rightarrow> Write list \<Rightarrow> (key \<times> val option) list \<Rightarrow> bool" where
  "clients_saw es ws rs \<longleftrightarrow> history es = ws \<and> concat (map key_read es) = map fst rs \<and> concat (map value_read es) = map snd rs"

lemma clients_saw_append: "clients_saw es ws rs \<Longrightarrow> clients_saw es' ws' rs' \<Longrightarrow> clients_saw (es @ es') (ws @ ws') (rs @ rs')"
  by (simp add: clients_saw_def)

lemma clients_saw_silent: "clients_saw (replicate m WorkerMoves) [] []" "clients_saw (replicate m (GetMoves t)) [] []"
  by (induction m) (simp_all add: clients_saw_def)

text \<open>One large step.\<close>

lemma large_step:
  assumes "sys_step L s e s'" and "thread_run L s0 es (threads_of s)"
  shows "\<exists>es'. thread_run L s0 (es @ es') (threads_of s') \<and> clients_saw es' (queued_by e) (read_of e)"
  using assms(1)
proof cases
  case (put k v p db)
  have "thread_step L (threads_of s) (PutBy k v p) ((threads_of s)\<lparr>store := db\<rparr>)"
    by (rule thread_step.put) (use put in simp_all)
  moreover have "(threads_of s)\<lparr>store := db\<rparr> = threads_of s'"
    using place_cong [of db "engine s"] Put_fields [OF put(4)] put(2) by (simp add: threads_of_def)
  ultimately have "thread_run L s0 (es @ [PutBy k v p]) (threads_of s')" using run_step [OF assms(2)] by simp
  then show ?thesis using put by (intro exI [of _ "[PutBy k v p]"]) (simp add: clients_saw_def)
next
  case (delete k r db)
  have "thread_step L (threads_of s) (DeleteBy k r) ((threads_of s)\<lparr>store := db\<rparr>)"
    by (rule thread_step.delete) (use delete in simp_all)
  moreover have "disk db = disk (engine s)" "activeFile db = activeFile (engine s)"
    using Delete_fields [OF delete(4)] by (auto split: option.splits)
  then have "(threads_of s)\<lparr>store := db\<rparr> = threads_of s'"
    using place_cong [of db "engine s"] delete(2) by (simp add: threads_of_def)
  ultimately have "thread_run L s0 (es @ [DeleteBy k r]) (threads_of s')" using run_step [OF assms(2)] by simp
  then show ?thesis using delete by (intro exI [of _ "[DeleteBy k r]"]) (cases r; simp add: clients_saw_def)
next
  case (get k v db)
  let ?r = "Looked (RecordMap_Get (lib_rmap L) (recordMap (engine s)) k)"
  let ?s = "(threads_of s)\<lparr>readers := [0 \<mapsto> (k, ?r)]\<rparr>"
  have "thread_step L (threads_of s) (GetCall 0 k) ?s"
    using thread_step.get_call [of "threads_of s" 0 L k] get(3) by simp
  then have call: "thread_run L s0 (es @ [GetCall 0 k]) ?s" by (rule run_step [OF assms(2)])
  have st: "store ?s = engine s" by simp
  have "Get_alone 3 L k ?r (store ?s) = Inr (v, db)" unfolding st Get_alone_is_Get by (rule get(4))
  from reader_run [OF this call] obtain m where
    "thread_run L s0 ((es @ [GetCall 0 k]) @ replicate m (GetMoves 0) @ [GetReturns 0 v]) (?s\<lparr>store := db, readers := Map.empty\<rparr>)"
    by auto
  moreover have "?s\<lparr>store := db, readers := Map.empty\<rparr> = threads_of s'"
    using place_cong [of db "engine s"] Get_files [OF get(4)] get(2) by (simp add: threads_of_def)
  moreover have "clients_saw ([GetCall 0 k] @ replicate m (GetMoves 0) @ [GetReturns 0 v]) (queued_by e) (read_of e)"
    using clients_saw_silent(2) [of m 0] get(1) by (simp add: clients_saw_def)
  ultimately show ?thesis by auto
next
  case (wait p)
  then show ?thesis using assms(2) by (intro exI [of _ "[]"]) (simp add: clients_saw_def)
next
  case swap
  have "commit_step L (point (threads_of s)) (store (threads_of s)) =
      Inr (place (worker s') (engine s'), engine s')"
    using swap place_cong [of "(engine s)\<lparr>pending := []\<rparr>" "engine s" "worker s'"] by simp
  then have "thread_step L (threads_of s) WorkerMoves (threads_of s')"
    using thread_step.work [of "threads_of s" L "place (worker s') (engine s')" "engine s'"] swap(3)
    by (simp add: threads_of_def)
  from run_step [OF assms(2) this] show ?thesis using swap(1) by (intro exI [of _ "[WorkerMoves]"]) (simp add: clients_saw_def)
next
  case (commit ws db)
  have "commit_alone (4 * length ws + 4) L (point (threads_of s)) (store (threads_of s)) = Inr db"
    using commit_alone_is_commit [of ws L "engine s"] commit(3,4) by simp
  from worker_turn_run [OF this assms(2)] commit(3) obtain m s1 where m:
    "thread_run L s0 (es @ replicate m WorkerMoves) s1" "store s1 = db" "point s1 = TestRunning" "readers s1 = Map.empty"
    by auto
  have "s1 = threads_of s'" using m(2-4) commit(2) by (simp add: threads_of_def)
  then show ?thesis using m(1) commit(1) clients_saw_silent(1) [of m]
    by (intro exI [of _ "replicate m WorkerMoves"]) simp
next
  case check
  have "thread_step L (threads_of s) WorkerMoves (threads_of s')"
    using thread_step.work [of "threads_of s" L "place (worker s') (engine s')" "engine s'"] check(2,3)
    by (simp add: threads_of_def)
  from run_step [OF assms(2) this] show ?thesis using check(1) by (intro exI [of _ "[WorkerMoves]"]) (simp add: clients_saw_def)
next
  case destroy
  have "thread_step L (threads_of s) DestroyedBy (threads_of s')"
    using thread_step.destroy [of "threads_of s" L] destroy(2,3) place_cong [of "engine s'" "engine s" "worker s"]
    by (simp add: threads_of_def)
  from run_step [OF assms(2) this] show ?thesis using destroy(1) by (intro exI [of _ "[DestroyedBy]"]) (simp add: clients_saw_def)
qed

text \<open>The model with large steps, in which a commit and a read are one step each, is simulated by the
  one with small steps: every run of it is a run of the small steps that ends in the same state of
  the engine, with the worker at the same place and no read under way, that queues the same writes
  in the same order and whose reads return the same values.\<close>
lemma large_steps_simulated:
  assumes "sys_run L (initial_system db) es s"
  shows "\<exists>es'. thread_run L (started db) es' (threads_of s) \<and> clients_saw es' (queued es) (reads_of es)"
  using assms
proof (induction rule: sys_run.induct)
  case start
  have "threads_of (initial_system db) = started db" by (simp add: threads_of_def initial_system_def started_def)
  then show ?case using run_start [of L "started db"]
    by (intro exI [of _ "[]"]) (simp add: clients_saw_def reads_of_def)
next
  case (step es s e s')
  then obtain es1 where run: "thread_run L (started db) es1 (threads_of s)" "clients_saw es1 (queued es) (reads_of es)"
    by blast
  obtain es2 where e: "thread_run L (started db) (es1 @ es2) (threads_of s')" "clients_saw es2 (queued_by e) (read_of e)"
    using large_step [OF step.hyps(2) run(1)] by blast
  have "reads_of (es @ [e]) = reads_of es @ read_of e" by (simp add: reads_of_def)
  then show ?case using e(1) clients_saw_append [OF run(2) e(2)] by (intro exI [of _ "es1 @ es2"]) simp
qed

end
