(* ===== verification/Reads.thy ===== *)
theory Reads
  imports Threads
begin

text \<open>
  Reads under the small steps of theory \<open>Threads\<close>. While no write of the history rotates the active
  file, a \<open>Get\<close> that overlaps commits is linearizable, provided nobody moves the stream of its file
  between the positioning and the read; without that proviso two reads of one stable file return each
  other's values.
\<close>

section \<open>What the maps show while a batch is published\<close>

text \<open>The writes of the batch that the index and the map of the active file show already.\<close>

fun index_count :: "point \<Rightarrow> nat" where
  "index_count (Publish PutActive ws cs i) = i"
| "index_count (Publish PutIndex ws cs i) = i"
| "index_count (Publish SetPromise ws cs i) = Suc i"
| "index_count _ = 0"

fun active_count :: "point \<Rightarrow> nat" where
  "active_count (Publish PutActive ws cs i) = i"
| "active_count (Publish PutIndex ws cs i) = Suc i"
| "active_count (Publish SetPromise ws cs i) = Suc i"
| "active_count _ = 0"

fun locals_of :: "point \<Rightarrow> commit_state option" where
  "locals_of (WriteFiles ws left cs) = Some cs"
| "locals_of (InsertStable ws cs) = Some cs"
| "locals_of (ClearActive ws cs) = Some cs"
| "locals_of (Publish st ws cs i) = Some cs"
| "locals_of _ = None"

lemma counts_order: "set_count p \<le> index_count p" "index_count p \<le> active_count p" "active_count p \<le> Suc (set_count p)"
  by (cases p rule: index_count.cases; simp)+

lemma counts_held:
  assumes "order_inv h past s" shows "active_count (point s) \<le> length (held (point s))"
proof (cases "point s" rule: active_count.cases)
  case (1 ws cs i)
  then show ?thesis using assms by (auto simp: order_inv_def)
next
  case (2 ws cs i)
  then have "i < length ws" using assms unfolding order_inv_def by (metis statement.distinct(1))
  then show ?thesis by (simp add: 2)
next
  case (3 ws cs i)
  then have "i < length ws" using assms unfolding order_inv_def by (metis statement.distinct(3))
  then show ?thesis by (simp add: 3)
qed simp_all

text \<open>The hints of a beginning of a log.\<close>

lemma file_hints_take: "file_hints fd (take n rs) = take n (file_hints fd rs)"
proof -
  have "log_entries off (take n rs) = take n (log_entries off rs)" for off
    by (induction rs arbitrary: n off) (auto simp: take_Cons split: nat.split)
  then show ?thesis by (simp add: file_hints_def take_map)
qed

lemma length_file_hints [simp]: "length (file_hints fd rs) = length rs"
  by (metis length_map map_fst_file_hints)

lemma batch_take: "batch (take n ws) = take n (batch ws)"
  by (simp add: batch_def take_map)

lemma batch_Nil [simp]: "batch [] = []"
  by (simp add: batch_def)

text \<open>
  The state of the engine in a run without rotation: the files, the locals of the worker, and the two
  maps. The log is that of the finished batches and of the part of the batch that is written (for the
  files), indexed (for the index) or entered in the map of the active file.
\<close>

definition records_ok :: "nat \<Rightarrow> kvs \<Rightarrow> Write list \<Rightarrow> Hint list \<Rightarrow> bool" where
  "records_ok fd la ws hs \<longleftrightarrow> length hs = length ws \<and>
     file_hints fd (la @ batch ws) = file_hints fd la @ zip (map w_key ws) hs"

definition quiet_inv :: "('am, 'rm) libs \<Rightarrow> kvs list \<Rightarrow> kvs \<Rightarrow> nat list \<Rightarrow> Write list \<Rightarrow> ('am, 'rm) threads \<Rightarrow> bool" where
  "quiet_inv L ls la ord past s \<longleftrightarrow>
     files_at L (point s) (store s) ls (la @ batch (past @ written (point s))) ord
   \<and> dir_ok (disk (store s)) (GetDbPath (setting (store s))) (length ls)
   \<and> (case locals_of (point s) of None \<Rightarrow> True
      | Some cs \<Rightarrow> cs_new cs = [] \<and> cs_last cs = 0
          \<and> records_ok (length ls) (la @ batch past) (written (point s)) (cs_records cs))
   \<and> RecordMap_Get (lib_rmap L) (recordMap (store s)) =
       map_of (rev (index_log ls (la @ batch (past @ take (index_count (point s)) (held (point s)))) ord))
   \<and> ActiveMap_Get (lib_amap L) (activeMap (store s)) =
       map_of (rev (la @ batch (past @ take (active_count (point s)) (held (point s)))))"

lemma records_ok_Nil [simp]: "records_ok fd la [] []"
  by (simp add: records_ok_def batch_def)

lemma records_ok_snoc:
  assumes "records_ok fd la ws hs"
  shows "records_ok fd la (ws @ [w]) (hs @ [place_hint fd (value_offset (la @ batch ws) (w_key w, w_value w)) (w_key w, w_value w)])"
proof -
  have "file_hints fd (la @ batch (ws @ [w])) = file_hints fd ((la @ batch ws) @ [(w_key w, w_value w)])"
    by (simp add: batch_def)
  then show ?thesis using assms unfolding file_hints_snoc by (simp add: records_ok_def place_hint_def)
qed

lemma records_ok_nth:
  assumes "records_ok fd la ws hs" and "i < length ws"
  shows "file_hints fd (la @ batch (take (Suc i) ws)) = file_hints fd (la @ batch (take i ws)) @ [(w_key (ws ! i), hs ! i)]"
proof -
  have pre: "file_hints fd (la @ batch (take n ws)) = file_hints fd la @ take n (zip (map w_key ws) hs)" for n
  proof -
    have "la @ batch (take n ws) = take (length la + n) (la @ batch ws)" by (simp add: batch_take)
    then show ?thesis using assms(1) by (simp only: file_hints_take records_ok_def) simp
  qed
  show ?thesis unfolding pre using assms by (simp add: records_ok_def take_Suc_conv_app_nth)
qed

lemma index_log_snoc:
  assumes "file_hints (length ls) la' = file_hints (length ls) la @ [(k, h)]"
  shows "map_of (rev (index_log ls la' ord)) = (map_of (rev (index_log ls la ord)))(k \<mapsto> h)"
  by (simp add: index_log_def assms)

text \<open>Without a rotation the members know every file already in the first loop.\<close>

lemma in_loop_disk:
  assumes "in_loop L db cs ls la ord" and "cs_new cs = []" and "length ls < 2 ^ 32"
  shows "disk_ok L db ls la ord"
proof -
  let ?d = "GetDbPath (setting db)" and ?cs = "cs\<lparr>cs_disk := disk db, cs_active := activeFile db\<rparr>"
  obtain m where m: "distinct ord" "set ord = {..<m}" "stable_handles ?d ord (stableFiles db)"
    and inv: "loop_inv (lib_crc L) ?d m ?cs ls la"
    using assms(1) unfolding in_loop_def by blast
  note parts = inv [unfolded loop_inv_of]
  have "m = length ls" using parts assms(2) by simp
  then show ?thesis unfolding disk_ok_def handles_ok_def using m parts assms(3) by blast
qed

lemma insert_stable_Nil [simp]: "insert_stable [] db = db"
  by (simp add: insert_stable_def)

lemma clear_active_Nil [simp]: "clear_active L [] db = db"
  by (simp add: clear_active_def)

text \<open>The worker keeps it: one lemma for the writing of a record, one for the publication of one.\<close>

lemma quiet_write:
  assumes "quiet_inv L ls la ord past s" and "point s = WriteFiles (pre @ w # left) (w # left) cs"
    and "limit_of (store s) \<le> 2 ^ 31" and "fits_record (w_key w) (w_value w)" and "Suc (length ls) < 2 ^ 32"
    and "log_size (la @ batch (past @ pre @ [w])) < limit_of (store s)"
    and "commit_write L w cs (store s) = Inr (cs', db)"
  shows "quiet_inv L ls la ord past (s\<lparr>store := db, point := WriteFiles (pre @ w # left) left cs'\<rparr>)"
proof -
  let ?r = "(w_key w, w_value w)" and ?la = "la @ batch (past @ pre)" and ?d = "GetDbPath (setting (store s))"
  have wr: "written (WriteFiles (pre @ w # left) (w # left) cs) = pre"
    "written (WriteFiles (pre @ w # left) left cs') = pre @ [w]"
    using written_simps(1) [of "pre @ [w]" left cs'] by simp_all
  have q: "in_loop L (store s) cs ls ?la ord" "dir_ok (disk (store s)) ?d (length ls)"
    "cs_new cs = []" "cs_last cs = 0" "records_ok (length ls) (la @ batch past) pre (cs_records cs)"
    and maps: "RecordMap_Get (lib_rmap L) (recordMap (store s)) = map_of (rev (index_log ls (la @ batch past) ord))"
      "ActiveMap_Get (lib_amap L) (activeMap (store s)) = map_of (rev (la @ batch past))"
    using assms(1) unfolding quiet_inv_def assms(2) wr
    by simp_all
  have room: "value_offset ?la ?r < limit_of (store s)" "log_size ?la < limit_of (store s) + max_record"
    using assms(6) by (simp_all add: value_offset_def rec_size_def)
  then have f: "fill_one (limit_of (store s)) ?r (ls, ?la) = (ls, ?la @ [?r])" by (simp add: fill_one_def)
  obtain cs1 db1 where c: "commit_write L w cs (store s) = Inr (cs1, db1)" "in_loop L db1 cs1 ls (?la @ [?r]) ord"
    "dir_ok (disk db1) ?d (length ls)"
    "cs_records cs1 = cs_records cs @ [place_hint (card (set ord)) (value_offset ?la ?r) ?r]"
    "cs_last cs1 = cs_last cs"
    by (rule commit_write_ok [OF q(1) assms(3) room(2) assms(4,5) q(2) f]) simp
  then have same: "cs1 = cs'" "db1 = db" using assms(7) by simp_all
  have card: "card (set ord) = length ls" using in_loop_new [OF q(1)] q(3) by simp
  have new: "cs_new cs' = []" using in_loop_new [OF c(2)] card same by simp
  have rec: "records_ok (length ls) (la @ batch past) (pre @ [w]) (cs_records cs')"
    using records_ok_snoc [OF q(5), of w] c(4) card same by simp
  have log: "la @ batch (past @ pre @ [w]) = ?la @ [?r]" by simp
  note fields = commit_write_fields [OF assms(7)]
  have st: "store (s\<lparr>store := db, point := p\<rparr>) = db" "point (s\<lparr>store := db, point := p\<rparr>) = p" for p by simp_all
  show ?thesis
    unfolding quiet_inv_def st wr log files_at.simps
    using c(2,3,5) q(4) maps new rec fields same by simp
qed

lemma quiet_publish_index:
  assumes "records_ok (length ls) la ws hs" and "i < length ws"
  shows "map_of (rev (index_log ls (la @ batch (take (Suc i) ws)) ord)) =
      (map_of (rev (index_log ls (la @ batch (take i ws)) ord)))(w_key (ws ! i) \<mapsto> hs ! i)"
  by (rule index_log_snoc [OF records_ok_nth [OF assms]])

lemma quiet_publish_active:
  "i < length ws \<Longrightarrow> map_of (rev (la @ batch (take (Suc i) ws))) =
     (map_of (rev (la @ batch (take i ws))))(w_key (ws ! i) \<mapsto> w_value (ws ! i))"
  by (simp add: take_Suc_conv_app_nth)

lemma quiet_step:
  assumes "libs_ok L" and "order_inv h past s" and "quiet_inv L ls la ord past s" and "point s \<noteq> Gone"
    and "limit_of (store s) \<le> 2 ^ 31" and "fitting (length ls) h" and "log_size (la @ batch h) < limit_of (store s)"
    and "commit_step L (point s) (store s) = Inr (p, db)"
  shows "quiet_inv L ls la ord (if p = TestRunning then past @ held (point s) else past) (s\<lparr>store := db, point := p\<rparr>)"
proof -
  have h: "h = past @ held (point s) @ pending (store s)" using assms(2) by (simp add: order_inv_def)
  have len: "length ls < 2 ^ 31" using assms(6) by (simp add: fitting_def)
  note laws = assms(1) [unfolded libs_ok_def]
  show ?thesis
  proof (cases "point s")
    case TakeBatch
    then have "disk_ok L (store s) ls (la @ batch past) ord" using assms(3) by (simp add: quiet_inv_def)
    from start_in_loop [OF this] show ?thesis
      using assms(3,8) TakeBatch by (auto simp: quiet_inv_def written_def commit_start_def)
  next
    case (WriteFiles ws left cs)
    show ?thesis
    proof (cases left)
      case Nil
      then show ?thesis using assms(3,8) WriteFiles by (auto simp: quiet_inv_def)
    next
      case (Cons w left')
      obtain pre where ws: "ws = pre @ w # left'" using assms(2) WriteFiles Cons by (auto simp: order_inv_def)
      obtain cs' where c: "commit_write L w cs (store s) = Inr (cs', db)" "p = WriteFiles ws left' cs'"
        using assms(8) WriteFiles Cons by (auto split: sum.splits)
      have "h = (past @ pre @ [w]) @ left' @ pending (store s)" using h WriteFiles ws by simp
      then have "log_size (la @ batch (past @ pre @ [w])) \<le> log_size (la @ batch h)" by (simp add: batch_def)
      then have small: "log_size (la @ batch (past @ pre @ [w])) < limit_of (store s)" using assms(7) by linarith
      have fit: "fits_record (w_key w) (w_value w)" using assms(6) h WriteFiles ws by (simp add: fitting_def)
      have "Suc (length ls) < 2 ^ 32" using len by simp
      from quiet_write [OF assms(3) WriteFiles [unfolded Cons ws] assms(5) fit this small c(1)]
      show ?thesis using c(2) ws by simp
    qed
  next
    case (InsertStable ws cs)
    have "in_loop L (store s) cs ls (la @ batch (past @ ws)) ord" "cs_new cs = []"
      using assms(3) InsertStable by (simp_all add: quiet_inv_def)
    with in_loop_disk [OF this] len show ?thesis
      using assms(3,8) InsertStable by (auto simp: quiet_inv_def)
  next
    case (ClearActive ws cs)
    have "cs_new cs = []" using assms(3) ClearActive by (simp add: quiet_inv_def)
    then show ?thesis using assms(3,8) ClearActive by (auto simp: quiet_inv_def)
  next
    case (Publish st ws cs i)
    have i: "st \<noteq> PutActive \<Longrightarrow> i < length ws" "i \<le> length ws" using assms(2) Publish by (auto simp: order_inv_def)
    have cs: "cs_new cs = []" "cs_last cs = 0" "records_ok (length ls) (la @ batch past) ws (cs_records cs)"
      and d: "disk_ok L (store s) ls (la @ batch (past @ ws)) ord"
      using assms(3) Publish by (simp_all add: quiet_inv_def)
    show ?thesis
    proof (cases st)
      case PutActive
      show ?thesis
      proof (cases "i < length ws")
        case True
        have "disk_ok L db ls (la @ batch (past @ ws)) ord"
          by (rule disk_ok_fields [OF d]) (use assms(8) Publish PutActive True cs(2) in auto)
        then show ?thesis
          using assms(3,8) Publish PutActive True cs quiet_publish_active [OF True, of "la @ batch past"] laws
          by (auto simp: quiet_inv_def active.get_put)
      next
        case False
        then show ?thesis using assms(3,8) Publish PutActive i(2) by (auto simp: quiet_inv_def)
      qed
    next
      case PutIndex
      have lt: "i < length ws" using i(1) PutIndex by simp
      have "disk_ok L db ls (la @ batch (past @ ws)) ord"
        by (rule disk_ok_fields [OF d]) (use assms(8) Publish PutIndex in auto)
      then show ?thesis
        using assms(3,8) Publish PutIndex cs quiet_publish_index [OF cs(3) lt, of ord] laws
        by (auto simp: quiet_inv_def index.get_put)
    next
      case SetPromise
      have "disk_ok L db ls (la @ batch (past @ ws)) ord"
        by (rule disk_ok_fields [OF d]) (use assms(8) Publish SetPromise in auto)
      then show ?thesis using assms(3,8) Publish SetPromise cs by (auto simp: quiet_inv_def)
    qed
  next
    case TestRunning
    then show ?thesis using assms(3,8) by (auto simp: quiet_inv_def)
  next
    case Gone
    then show ?thesis using assms(4) by simp
  qed
qed

lemma quiet_disk:
  assumes "quiet_inv L ls la ord past s" and "length ls < 2 ^ 32"
  shows "disk_ok L (store s) ls (la @ batch (past @ written (point s))) ord"
  using assms(1) in_loop_disk [OF _ _ assms(2)] by (cases "point s") (auto simp: quiet_inv_def)

lemma quiet_inv_cong:
  assumes "quiet_inv L ls la ord past s" and "client_moved (store s) (store s')" and "point s' = point s"
  shows "quiet_inv L ls la ord past s'"
proof -
  have same: "disk (store s') = disk (store s)" "setting (store s') = setting (store s)"
    "activeFile (store s') = activeFile (store s)" "activeMap (store s') = activeMap (store s)"
    "recordMap (store s') = recordMap (store s)"
    using assms(2) stream_moved_fields [of "store s" "store s'"] unfolding client_moved_def by blast+
  have h: "stable_handles d js (stableFiles (store s)) \<Longrightarrow> \<forall>j \<in> set js. j < 2 ^ 32 \<Longrightarrow> stable_handles d js (stableFiles (store s'))"
    for d js using assms(2) stream_moved_handles [of "store s" "store s'"] unfolding client_moved_def by metis
  have at: "files_at L (point s) (store s) ls rs ord \<Longrightarrow> files_at L (point s) (store s') ls rs ord" for rs
    using files_at_cong [OF _ same(1,3,2)] h by blast
  show ?thesis using assms(1) at unfolding quiet_inv_def assms(3) same by blast
qed

text \<open>The invariant holds in every run whose history fits into the active file.\<close>

definition small_log :: "('am, 'rm) BitcaskImpl \<Rightarrow> kvs list \<Rightarrow> kvs \<Rightarrow> Write list \<Rightarrow> bool" where
  "small_log db ls la h \<longleftrightarrow> fitting (length ls) h \<and> log_size (la @ batch h) < limit_of db"

lemma small_log_prefix: "small_log db ls la (h @ h') \<Longrightarrow> small_log db ls la h"
  using fitting_prefix [of "length ls" h h'] by (simp add: small_log_def)

definition quiet :: "('am, 'rm) libs \<Rightarrow> ('am, 'rm) BitcaskImpl \<Rightarrow> kvs list \<Rightarrow> kvs \<Rightarrow> nat list \<Rightarrow> Write list
    \<Rightarrow> Write list \<Rightarrow> ('am, 'rm) threads \<Rightarrow> bool" where
  "quiet L db ls la ord h past s \<longleftrightarrow> order_inv h past s \<and> quiet_inv L ls la ord past s
     \<and> libs_ok L \<and> limit_of db \<le> 2 ^ 31 \<and> setting (store s) = setting db"

lemma thread_setting: "thread_step L s e s' \<Longrightarrow> setting (store s') = setting (store s)"
proof (cases "e = WorkerMoves")
  case True
  assume "thread_step L s e s'"
  then obtain p db where "commit_step L (point s) (store s) = Inr (p, db)" "s' = s\<lparr>store := db, point := p\<rparr>"
    using True by (auto simp: thread_step_simps)
  then show ?thesis
    by (cases "(L, point s, store s)" rule: commit_step.cases)
      (auto simp: insert_stable_def clear_active_def split: sum.splits if_splits dest!: commit_write_fields)
next
  case False
  assume "thread_step L s e s'"
  from client_step(2) [OF this False] show ?thesis by (auto simp: client_moved_def dest: stream_moved_fields)
qed

lemma quiet_step_run:
  assumes "quiet L db ls la ord h past s" and "thread_step L s e s'" and "small_log db ls la (h @ written_by e)"
  shows "quiet L db ls la ord (h @ written_by e) (next_past past s e s') s'"
proof -
  have q: "order_inv h past s" "quiet_inv L ls la ord past s" "libs_ok L" "limit_of db \<le> 2 ^ 31"
    "setting (store s) = setting db"
    using assms(1) by (simp_all add: quiet_def)
  have "quiet_inv L ls la ord (next_past past s e s') s'"
  proof (cases "e = WorkerMoves")
    case True
    then obtain p db1 where w: "point s \<noteq> Gone" "commit_step L (point s) (store s) = Inr (p, db1)"
      "s' = s\<lparr>store := db1, point := p\<rparr>"
      using assms(2) by (auto simp: thread_step_simps)
    have "limit_of (store s) = limit_of db" using q(5) by (simp add: limit_of_def)
    then show ?thesis
      using quiet_step [OF q(3,1,2) w(1) _ _ _ w(2)] q(4) small_log_prefix [OF assms(3)] True w(3)
      by (simp add: next_past_def small_log_def)
  next
    case False
    from quiet_inv_cong [OF q(2) client_step(2,1) [OF assms(2) False]] False show ?thesis
      by (simp add: next_past_def)
  qed
  then show ?thesis
    using order_inv_step [OF q(1) assms(2)] q(3-5) thread_setting [OF assms(2)] by (simp add: quiet_def)
qed

lemma quiet_started:
  assumes "opened L ls la ord db"
  shows "quiet L db ls la ord [] [] (started db)"
proof -
  have "order_inv [] [] (started db)"
    using assms by (simp add: opened_def order_inv_def started_def just_started_def)
  then show ?thesis
    using assms by (auto simp: quiet_def quiet_inv_def opened_def started_def store_ok_disk_ok index_ok_def)
qed

lemma order_past:
  assumes o: "order_inv h past s"
  shows "past @ take (index_count (point s)) (held (point s)) = take (length past + index_count (point s)) h"
    and "past @ take (active_count (point s)) (held (point s)) = take (length past + active_count (point s)) h"
    and "length past + active_count (point s) \<le> length h"
    and "length (fulfilled (store s)) = length past + set_count (point s)"
proof -
  have h: "h = past @ held (point s) @ pending (store s)"
    and f: "fulfilled (store s) = map w_promise (past @ take (set_count (point s)) (held (point s)))"
    and c: "set_count (point s) \<le> length (held (point s))"
    using o unfolding order_inv_def by blast+
  have a: "active_count (point s) \<le> length (held (point s))" by (rule counts_held [OF o])
  then have i: "index_count (point s) \<le> length (held (point s))" using counts_order(2) le_trans by blast
  show "past @ take (index_count (point s)) (held (point s)) = take (length past + index_count (point s)) h"
    and "past @ take (active_count (point s)) (held (point s)) = take (length past + active_count (point s)) h"
    and "length past + active_count (point s) \<le> length h"
    using a i by (simp_all add: h)
  show "length (fulfilled (store s)) = length past + set_count (point s)" using c by (simp add: f)
qed

lemma quiet_order: "quiet L db ls la ord h past s \<Longrightarrow> order_inv h past s"
  by (simp add: quiet_def)

lemmas quiet_past = order_past [OF quiet_order]

lemma index_grows:
  assumes "order_inv h past s" and "thread_step L s e s'"
  shows "length past + index_count (point s) \<le> length (next_past past s e s') + index_count (point s')"
proof (cases "e = WorkerMoves")
  case True
  then obtain p db where w: "commit_step L (point s) (store s) = Inr (p, db)" "s' = s\<lparr>store := db, point := p\<rparr>"
    using assms(2) by (auto simp: thread_step_simps)
  then show ?thesis
    using assms(1) True
    by (cases "(L, point s, store s)" rule: commit_step.cases)
      (auto simp: next_past_def order_inv_def split: sum.splits if_splits)
next
  case False
  then show ?thesis using client_step(1) [OF assms(2) False] by (simp add: next_past_def)
qed

section \<open>What a reader knows\<close>

text \<open>
  A reader that looked into the index when it showed the log \<open>rs\<close>: its hint is that of the last write
  of the key in \<open>rs\<close>, and once it has positioned the stream of a stable file the stream stays there.
\<close>

definition positioned :: "('am, 'rm) BitcaskImpl \<Rightarrow> Hint \<Rightarrow> bool" where
  "positioned db h \<longleftrightarrow> (\<exists>sf file. map_of (stableFiles db) (hint_fd h) = Some sf \<and> sf_file sf = Some file
     \<and> st_good file \<and> st_pos file = unat (hint_offset h))"

fun reader_at :: "('am, 'rm) BitcaskImpl \<Rightarrow> kvs list \<Rightarrow> kvs \<Rightarrow> nat list \<Rightarrow> key \<Rightarrow> reader \<Rightarrow> bool" where
  "reader_at db ls rs ord k (Looked r) = (r = map_of (rev (index_log ls rs ord)) k)"
| "reader_at db ls rs ord k (Staged Miss) = (map_of (rev (index_log ls rs ord)) k = None)"
| "reader_at db ls rs ord k (Staged InActive) = (map_of (rev rs) k \<noteq> None)"
| "reader_at db ls rs ord k (Staged (InStable h)) =
     (map_of (rev (index_log ls rs ord)) k = Some h \<and> hint_fd h \<noteq> word_of_nat (length ls))"
| "reader_at db ls rs ord k (Sought h) =
     (map_of (rev (index_log ls rs ord)) k = Some h \<and> hint_fd h \<noteq> word_of_nat (length ls)
      \<and> positioned db h)"

text \<open>Nobody positions the stream of a file that a reader has positioned and not yet read.\<close>

definition stream_free :: "('am, 'rm) threads \<Rightarrow> happening \<Rightarrow> bool" where
  "stream_free s e \<longleftrightarrow> (\<forall>t k h t' k' h'. e = GetMoves t \<and> readers s t = Some (k, Staged (InStable h))
     \<and> readers s t' = Some (k', Sought h') \<longrightarrow> hint_fd h' \<noteq> hint_fd h)"

inductive locked_run :: "('am, 'rm) libs \<Rightarrow> ('am, 'rm) threads \<Rightarrow> happening list \<Rightarrow> ('am, 'rm) threads \<Rightarrow> bool"
  for L :: "('am, 'rm) libs" and s0 :: "('am, 'rm) threads" where
  locked_start: "locked_run L s0 [] s0"
| locked_step: "locked_run L s0 es s \<Longrightarrow> thread_step L s e s' \<Longrightarrow> stream_free s e \<Longrightarrow> locked_run L s0 (es @ [e]) s'"

lemma locked_is_run: "locked_run L s0 es s \<Longrightarrow> thread_run L s0 es s"
  by (induction rule: locked_run.induct) (auto intro: thread_run.intros)

text \<open>Then no two readers have positioned the same stream.\<close>

definition apart :: "('am, 'rm) threads \<Rightarrow> bool" where
  "apart s \<longleftrightarrow> (\<forall>t t' k k' h h'. readers s t = Some (k, Sought h) \<and> readers s t' = Some (k', Sought h')
     \<and> hint_fd h = hint_fd h' \<longrightarrow> t = t')"

lemma Get_step_seeks: "Get_step L k r db = Inr (Inl (Sought h), db') \<Longrightarrow> r = Staged (InStable h)"
  by (induction L k r db rule: Get_step.induct) (auto simp: Let_def split: option.splits sum.splits)

lemma apart_step:
  assumes "apart s" and "thread_step L s e s'" and "stream_free s e"
  shows "apart s'"
  using assms(2)
proof cases
  case (get_move t k r r' db)
  have new: "hint_fd h' \<noteq> hint_fd h" if "r' = Sought h" "readers s t' = Some (k', Sought h')" for h t' k' h'
    using Get_step_seeks [of L k r "store s" h db] get_move that assms(3) unfolding stream_free_def by blast
  show ?thesis unfolding apart_def
  proof (intro allI impI, elim conjE)
    fix t1 t2 k1 k2 h1 h2
    assume r: "readers s' t1 = Some (k1, Sought h1)" "readers s' t2 = Some (k2, Sought h2)" "hint_fd h1 = hint_fd h2"
    show "t1 = t2"
    proof (cases "t1 = t \<or> t2 = t")
      case True
      then show ?thesis using r get_move(2) new by (auto split: if_splits) metis+
    next
      case False
      then have "readers s t1 = Some (k1, Sought h1)" "readers s t2 = Some (k2, Sought h2)"
        using r get_move(2) by auto
      then show ?thesis using assms(1) r(3) unfolding apart_def by blast
    qed
  qed
qed (use assms(1) in \<open>auto simp: apart_def split: if_splits\<close>)

lemma apart_run: "locked_run L s0 es s \<Longrightarrow> apart s0 \<Longrightarrow> apart s"
  by (induction rule: locked_run.induct) (auto intro: apart_step)

text \<open>The steps of the other threads keep what a reader knows.\<close>

definition step_of :: "nat \<Rightarrow> happening \<Rightarrow> bool" where
  "step_of t e \<longleftrightarrow> e = GetMoves t \<or> (\<exists>v. e = GetReturns t v)"

lemma Get_step_other:
  "Get_step L k r db = Inr (x, db') \<Longrightarrow> (\<And>h. r = Staged (InStable h) \<or> r = Sought h \<Longrightarrow> hint_fd h \<noteq> fd)
     \<Longrightarrow> map_of (stableFiles db') fd = map_of (stableFiles db) fd"
  by (induction L k r db rule: Get_step.induct)
    (auto simp: Let_def update_conv' split: option.splits sum.splits prod.splits)

lemma insert_new_same: "map_of m fd = Some sf \<Longrightarrow> map_of (fold insert_new new m) fd = Some sf"
proof (induction new arbitrary: m)
  case (Cons e new)
  have "map_of (insert_new e m) fd = Some sf" using Cons.prems by (auto simp: insert_new_def map_add_def)
  then show ?case using Cons.IH by simp
qed simp

lemma commit_step_same_stable:
  "commit_step L p db = Inr (p', db') \<Longrightarrow> map_of (stableFiles db) fd = Some sf \<Longrightarrow> map_of (stableFiles db') fd = Some sf"
  using insert_new_same
  by (induction L p db rule: commit_step.induct)
    (auto simp: insert_stable_def clear_active_def split: sum.splits if_splits dest!: commit_write_fields)

lemma stream_kept:
  assumes "map_of (stableFiles (store s)) (hint_fd h) = Some sf" and "apart s" and "thread_step L s e s'"
    and "stream_free s e" and "readers s t = Some (k, Sought h)" and "\<not> step_of t e"
  shows "map_of (stableFiles (store s')) (hint_fd h) = Some sf"
  using assms(3)
proof cases
  case (get_move t' k' r r' db)
  have "t' \<noteq> t" using assms(6) get_move(1) by (auto simp: step_of_def)
  have "hint_fd h' \<noteq> hint_fd h" if "r = Staged (InStable h') \<or> r = Sought h'" for h'
    using that assms(2,4,5) get_move(1,3) \<open>t' \<noteq> t\<close> unfolding stream_free_def apart_def by metis
  from Get_step_other [OF get_move(4) this] show ?thesis using get_move(2) assms(1) by simp
next
  case (get_return t' k' r v db)
  have "t' \<noteq> t" using assms(6) get_return(1) by (auto simp: step_of_def)
  have stable: "db = store s" if "r = Staged (InStable h')" for h'
    using get_return(4) that by (auto split: option.splits sum.splits)
  have "hint_fd h' \<noteq> hint_fd h" if "r = Sought h'" for h'
    using that assms(2,5) get_return(3) \<open>t' \<noteq> t\<close> unfolding apart_def by metis
  then have "map_of (stableFiles db) (hint_fd h) = map_of (stableFiles (store s)) (hint_fd h)"
    using stable Get_step_other [OF get_return(4), of "hint_fd h"] by (metis reader.distinct(5) reader.inject(3))
  then show ?thesis using get_return(2) assms(1) by simp
next
  case (work p db)
  then show ?thesis using commit_step_same_stable [OF work(4) assms(1)] by simp
qed (use assms(1) in \<open>auto dest: Put_fields Delete_fields split: option.splits\<close>)

lemma reader_kept:
  assumes "apart s" and "thread_step L s e s'" and "stream_free s e"
    and "readers s t = Some (k, r)" and "\<not> step_of t e"
  shows "readers s' t = Some (k, r)"
    and "r = Sought h \<Longrightarrow> positioned (store s) h \<Longrightarrow> positioned (store s') h"
    and "reader_at (store s) ls rs ord k r \<Longrightarrow> reader_at (store s') ls rs ord k r"
proof -
  show "readers s' t = Some (k, r)"
    using assms(2,4,5) by cases (auto simp: step_of_def)
  show kept: "positioned (store s') h" if "r = Sought h" and p: "positioned (store s) h" for h
    using stream_kept [OF _ assms(1-3) _ assms(5)] assms(4) that by (auto simp: positioned_def)
  assume a: "reader_at (store s) ls rs ord k r"
  show "reader_at (store s') ls rs ord k r"
  proof (cases r)
    case (Staged stage)
    then show ?thesis using a by (cases stage) simp_all
  next
    case (Sought h)
    then show ?thesis using a kept by simp
  qed (use a in simp)
qed

text \<open>The files a reader may look into: the log it saw in the index is a beginning of what is written.\<close>

lemma StableFile_seek_good:
  assumes "sf_on p sf"
  obtains fh where "StableFile_seek sf off = Inr (sf\<lparr>sf_file := Some fh\<rparr>)"
    and "st_good fh" and "st_pos fh = unat off" and "st_file fh = Some p"
  using assms by (auto simp: StableFile_seek_def sf_on_def st_seekg_def st_clear_def st_good_def Let_def is_open_def)

lemma StableFile_take_slice:
  assumes "sf_file sf = Some fh" and "st_good fh" and "st_file fh = Some p"
    and "st_pos fh + unat sz \<le> length (file_content F p)"
  shows "\<exists>sf'. StableFile_take F sf sz = Inr (take (unat sz) (drop (st_pos fh) (file_content F p)), sf')"
proof -
  have "ready p fh" using assms(2,3) by (simp add: ready_def)
  from ReadFile_buf_full [OF this, of "unat sz" F] assms(1,4) show ?thesis
    by (auto simp: StableFile_take_def ReadValueFromFile_def Let_def)
qed

lemma looked_up:
  assumes "disk_ok L db ls (rs @ extra) ord"
  shows "handles_ok db (length ls) ord" and "\<forall>j \<in> set ord. j < length ls" and "length ls < 2 ^ 32"
    and "\<forall>j \<in> set ord. j < 2 ^ 32" and "\<forall>xs \<in> set (ls @ [rs]). log_size xs < 2 ^ 32"
    and "\<forall>i < length ls. begins_with_log (lib_crc L) (disk db) (db_file (GetDbPath (setting db)) i) (ls ! i)"
proof -
  show h: "handles_ok db (length ls) ord" using assms by (simp add: disk_ok_def)
  then show "\<forall>j \<in> set ord. j < length ls" and "length ls < 2 ^ 32" and "\<forall>j \<in> set ord. j < 2 ^ 32"
    by (fastforce simp: handles_ok_def)+
  have "\<forall>i < length ls. log_size (ls ! i) < 2 ^ 32" "log_size (rs @ extra) < 2 ^ 32"
    using assms by (auto simp: disk_ok_def files_ok_def holds_log_def)
  then show "\<forall>xs \<in> set (ls @ [rs]). log_size xs < 2 ^ 32" by (auto simp: in_set_conv_nth)
  show "\<forall>i < length ls. begins_with_log (lib_crc L) (disk db) (db_file (GetDbPath (setting db)) i) (ls ! i)"
    using assms by (auto simp: disk_ok_def files_ok_def holds_log_def begins_with_log_def)
qed

lemma stable_place:
  assumes "disk_ok L db ls (rs @ extra) ord"
    and "map_of (rev (index_log ls rs ord)) k = Some h" and "hint_fd h \<noteq> word_of_nat (length ls)"
  obtains p sf v where "map_of (stableFiles db) (hint_fd h) = Some sf" and "sf_on p sf"
    and "last_write (abs_log ls rs ord) k = Some v"
    and "unat (hint_offset h) + unat (hint_size h) \<le> length (file_content (disk db) p)"
    and "take (unat (hint_size h)) (drop (unat (hint_offset h)) (file_content (disk db) p)) = v"
proof -
  let ?d = "GetDbPath (setting db)"
  note b = looked_up [OF assms(1)]
  obtain j v where j: "j \<in> set ord" "hint_fd h = word_of_nat j" "last_write (abs_log ls rs ord) k = Some v"
    "unat (hint_offset h) + unat (hint_size h) \<le> length (file_content (disk db) (db_file ?d j))"
    "take (unat (hint_size h)) (drop (unat (hint_offset h)) (file_content (disk db) (db_file ?d j))) = v"
    by (rule stable_lookup [OF b(2,5,6) assms(2,3)])
  have "stable_handles ?d ord (stableFiles db)" using b(1) by (simp add: handles_ok_def)
  then obtain sf where "map_of (stableFiles db) (word_of_nat j) = Some sf" "sf_on (db_file ?d j) sf"
    using stable_handles_lookup b(4) j(1) by blast
  with j show thesis using that by simp
qed

lemma reader_moves:
  assumes "disk_ok L db ls (rs @ extra) ord" and "reader_at db ls rs ord k r"
    and "Get_step L k r db = Inr (Inl r', db')"
  shows "reader_at db' ls rs ord k r'"
proof (cases r)
  case (Looked hint)
  note b = looked_up [OF assms(1)]
  show ?thesis
  proof (cases hint)
    case None
    then have "r' = Staged Miss" "map_of (rev (index_log ls rs ord)) k = None"
      using assms(2,3) Looked by (simp_all add: compare_fd_def)
    then show ?thesis by simp
  next
    case (Some h)
    have ix: "map_of (rev (index_log ls rs ord)) k = Some h" using assms(2) Looked Some by simp
    have "map_of (rev rs) k \<noteq> None" if "hint_fd h = word_of_nat (length ls)"
      by (rule active_lookup(2) [OF ix b(2,3) that])
    moreover have "r' = Staged (if hint_fd h = word_of_nat (length ls) then InActive else InStable h)"
      using assms(3) Looked Some handles_ok_fd [OF b(1)] by (simp add: compare_fd_def)
    ultimately show ?thesis using ix by simp
  qed
next
  case (Staged stage)
  show ?thesis
  proof (cases stage)
    case (InStable h)
    have h: "map_of (rev (index_log ls rs ord)) k = Some h" "hint_fd h \<noteq> word_of_nat (length ls)"
      using assms(2) Staged InStable by simp_all
    obtain p sf where sf: "map_of (stableFiles db) (hint_fd h) = Some sf" "sf_on p sf"
      by (rule stable_place [OF assms(1) h]) blast
    obtain fh where "StableFile_seek sf (hint_offset h) = Inr (sf\<lparr>sf_file := Some fh\<rparr>)"
        "st_good fh" "st_pos fh = unat (hint_offset h)"
      by (rule StableFile_seek_good [OF sf(2)])
    then show ?thesis using assms(3) Staged InStable sf(1) h by (auto simp: positioned_def)
  qed (use assms(3) Staged in \<open>simp_all add: Let_def\<close>)
next
  case (Sought h)
  then show ?thesis using assms(3) by (auto split: option.splits sum.splits)
qed

text \<open>What it returns is the last write it saw, or for a key of the active file one the map of that file
  shows by now.\<close>

lemma reader_returns:
  assumes "disk_ok L db ls (rs @ extra) ord" and "reader_at db ls rs ord k r"
    and "Get_step L k r db = Inr (Inr v, db')"
    and "ActiveMap_Get (lib_amap L) (activeMap db) = map_of (rev (rs @ later))"
  shows "v = abs_get (abs_log ls rs ord) k \<or> v = abs_get (abs_log ls (rs @ later) ord) k"
proof (cases r)
  case (Looked hint)
  then show ?thesis using assms(3) by simp
next
  case (Staged stage)
  show ?thesis
  proof (cases stage)
    case Miss
    note b = looked_up [OF assms(1)]
    have "map_of (rev (index_log ls rs ord)) k = None" using assms(2) Staged Miss by simp
    then have "last_write (abs_log ls rs ord) k = None"
      using lookup_rel [OF b(2,5), of undefined k] by (simp add: option.rel_sel)
    then show ?thesis using assms(3) Staged Miss by (simp add: abs_get_def visible_def)
  next
    case InActive
    have "last_write (rs @ later) k \<noteq> None"
      using assms(2) Staged InActive by (auto simp: last_write_def map_of_rev_append split: option.split)
    then have "last_write (concat (map ((!) ls) ord) @ (rs @ later)) k = last_write (rs @ later) k"
      unfolding last_write_append [of _ "rs @ later"] by (auto split: option.split)
    then have "last_write (abs_log ls (rs @ later) ord) k = map_of (rev (rs @ later)) k"
      unfolding abs_log_def last_write_def .
    then have "ActiveMap_Get (lib_amap L) (activeMap db) k = last_write (abs_log ls (rs @ later) ord) k"
      using fun_cong [OF assms(4)] by simp
    then have "v = abs_get (abs_log ls (rs @ later) ord) k"
      using assms(3) Staged InActive by (auto simp: Let_def abs_get_def visible_def split: option.split)
    then show ?thesis ..
  next
    case (InStable h)
    have h: "map_of (rev (index_log ls rs ord)) k = Some h" "hint_fd h \<noteq> word_of_nat (length ls)"
      using assms(2) Staged InStable by simp_all
    obtain sf where "map_of (stableFiles db) (hint_fd h) = Some sf"
      by (rule stable_place [OF assms(1) h]) blast
    then show ?thesis using assms(3) Staged InStable by (auto split: sum.splits)
  qed
next
  case (Sought h)
  have h: "map_of (rev (index_log ls rs ord)) k = Some h" "hint_fd h \<noteq> word_of_nat (length ls)"
    using assms(2) Sought by simp_all
  obtain p sf v' where sf: "map_of (stableFiles db) (hint_fd h) = Some sf" "sf_on p sf"
    and lw: "last_write (abs_log ls rs ord) k = Some v'"
    and c: "unat (hint_offset h) + unat (hint_size h) \<le> length (file_content (disk db) p)"
      "take (unat (hint_size h)) (drop (unat (hint_offset h)) (file_content (disk db) p)) = v'"
    by (rule stable_place [OF assms(1) h])
  obtain fh where fh: "sf_file sf = Some fh" "st_good fh" "st_pos fh = unat (hint_offset h)"
    using assms(2) Sought sf(1) by (auto simp: positioned_def)
  have "st_file fh = Some p" using sf(2) fh(1) by (simp add: sf_on_def)
  from StableFile_take_slice [OF fh(1,2) this, of "hint_size h" "disk db"] c fh(3)
  obtain sf' where "StableFile_take (disk db) sf (hint_size h) = Inr (v', sf')" by auto
  then show ?thesis using assms(3) Sought sf(1) lw by (auto simp: abs_get_def visible_def)
qed

section \<open>Reads are linearizable without a rotation\<close>

text \<open>
  A reader under way: it looked at the index when this showed the first \<open>n\<close> writes of the history, at
  least the \<open>f\<close> that were acknowledged before its call.
\<close>

definition reading :: "('am, 'rm) libs \<Rightarrow> ('am, 'rm) BitcaskImpl \<Rightarrow> kvs list \<Rightarrow> kvs \<Rightarrow> nat list \<Rightarrow> nat \<Rightarrow> nat \<Rightarrow> key
    \<Rightarrow> Write list \<Rightarrow> ('am, 'rm) threads \<Rightarrow> bool" where
  "reading L db ls la ord f t k h s \<longleftrightarrow> apart s \<and> (\<exists>past r n. quiet L db ls la ord h past s
     \<and> readers s t = Some (k, r) \<and> f \<le> n \<and> n \<le> length past + index_count (point s)
     \<and> reader_at (store s) ls (la @ batch (take n h)) ord k r)"

lemma reading_log:
  assumes "quiet L db ls la ord h past s" and "n \<le> length past + index_count (point s)" and "length ls < 2 ^ 32"
  obtains extra where "disk_ok L (store s) ls ((la @ batch (take n h)) @ extra) ord"
proof -
  have d: "disk_ok L (store s) ls (la @ batch (past @ written (point s))) ord"
    by (rule quiet_disk [OF _ assms(3)]) (use assms(1) in \<open>simp only: quiet_def\<close>)
  have "take n h = take n (past @ take (index_count (point s)) (held (point s)))"
    unfolding quiet_past(1) [OF assms(1)] using assms(2) by simp
  also have "\<dots> = take n (past @ written (point s))"
    using assms(2) by (cases "point s" rule: index_count.cases) (auto simp: written_def)
  finally have "la @ batch (past @ written (point s)) =
      (la @ batch (take n h)) @ batch (drop n (past @ written (point s)))"
    by (metis append.assoc append_take_drop_id batch_append)
  with d show thesis using that by simp
qed

lemma quiet_history:
  assumes "quiet L db ls la ord h past s" and "n \<le> length past + index_count (point s)"
  shows "n \<le> length h"
  using assms(2) quiet_past(3) [OF assms(1)] counts_order(2) [of "point s"] by linarith

lemma reading_step:
  assumes "reading L db ls la ord f t k h s" and "thread_step L s e s'" and "stream_free s e"
    and "small_log db ls la (h @ written_by e)" and "\<forall>v. e \<noteq> GetReturns t v"
  shows "reading L db ls la ord f t k (h @ written_by e) s'"
proof -
  obtain past r n where i: "quiet L db ls la ord h past s" "readers s t = Some (k, r)" "f \<le> n"
    "n \<le> length past + index_count (point s)" "reader_at (store s) ls (la @ batch (take n h)) ord k r"
    and ap: "apart s"
    using assms(1) unfolding reading_def by blast
  have len: "length ls < 2 ^ 32" using assms(4) by (simp add: small_log_def fitting_def)
  have q: "order_inv h past s" "quiet_inv L ls la ord past s" using i(1) by (simp_all add: quiet_def)
  have same: "take n (h @ written_by e) = take n h" using quiet_history [OF i(1,4)] by simp
  have n: "n \<le> length (next_past past s e s') + index_count (point s')"
    using i(4) index_grows [OF q(1) assms(2)] by (rule le_trans)
  obtain r' where r': "readers s' t = Some (k, r')" "reader_at (store s') ls (la @ batch (take n h)) ord k r'"
  proof (cases "e = GetMoves t")
    case True
    obtain extra where d: "disk_ok L (store s) ls ((la @ batch (take n h)) @ extra) ord"
      by (rule reading_log [OF i(1,4) len])
    obtain r' db' where m: "Get_step L k r (store s) = Inr (Inl r', db')"
        "s' = s\<lparr>store := db', readers := (readers s)(t \<mapsto> (k, r'))\<rparr>"
      using assms(2) True i(2) by (auto simp: thread_step_simps)
    then show ?thesis using reader_moves [OF d i(5) m(1)] that by simp
  next
    case False
    then have "\<not> step_of t e" using assms(5) by (simp add: step_of_def)
    then show ?thesis
      using reader_kept(1,3) [OF ap assms(2,3) i(2)] i(5) that by blast
  qed
  note qs = quiet_step_run [OF i(1) assms(2,4)]
  show ?thesis unfolding reading_def
    by (intro conjI exI [of _ "next_past past s e s'"] exI [of _ r'] exI [of _ n])
      (use qs apart_step [OF ap assms(2,3)] i(3) n r' in \<open>simp_all only: same\<close>)
qed

lemma reading_run:
  assumes "locked_run L s0 es s" and "reading L db ls la ord f t k h s0"
    and "small_log db ls la (h @ history es)" and "\<forall>v. GetReturns t v \<notin> set es"
  shows "reading L db ls la ord f t k (h @ history es) s"
  using assms(1,3,4)
proof (induction rule: locked_run.induct)
  case locked_start
  show ?case using assms(2) by simp
next
  case (locked_step es s e s')
  have small: "small_log db ls la ((h @ history es) @ written_by e)" using locked_step.prems(1) by simp
  have "reading L db ls la ord f t k (h @ history es) s"
    using locked_step.IH small_log_prefix [OF small] locked_step.prems(2) by auto
  from reading_step [OF this locked_step.hyps(2,3) small] locked_step.prems(2) show ?case by auto
qed

lemma quiet_run:
  assumes "opened L ls la ord db" and "thread_run L (started db) es s" and "small_log db ls la (history es)"
  shows "\<exists>past. quiet L db ls la ord (history es) past s"
  using assms(2,3)
proof (induction rule: thread_run.induct)
  case run_start
  show ?case using quiet_started [OF assms(1)] by auto
next
  case (run_step es s e s')
  have small: "small_log db ls la (history es @ written_by e)" using run_step.prems by simp
  from run_step.IH [OF small_log_prefix [OF small]] quiet_step_run [OF _ run_step.hyps(2) small]
  show ?case by auto
qed

lemma reading_called:
  assumes "quiet L db ls la ord h past s" and "apart s" and "thread_step L s (GetCall t k) s'"
  shows "reading L db ls la ord (length (fulfilled (store s))) t k h s'"
proof -
  have s': "s' = s\<lparr>readers := (readers s)(t \<mapsto> (k, Looked (RecordMap_Get (lib_rmap L) (recordMap (store s)) k)))\<rparr>"
    using assms(3) by (simp add: thread_step_simps)
  let ?n = "length past + index_count (point s)"
  have rm: "RecordMap_Get (lib_rmap L) (recordMap (store s)) = map_of (rev (index_log ls (la @ batch (take ?n h)) ord))"
    using assms(1) unfolding quiet_past(1) [OF assms(1), symmetric] by (simp add: quiet_def quiet_inv_def)
  have "quiet L db ls la ord h past s'"
    using assms(1) order_inv_fields [of h past s "store s" s'] quiet_inv_cong [of L ls la ord past s s']
    by (simp add: quiet_def client_moved_def s')
  moreover have "apart s'" using assms(2) unfolding s' apart_def by (auto split: if_splits)
  moreover have "length (fulfilled (store s)) \<le> ?n"
    using quiet_past(4) [OF assms(1)] counts_order(1) by simp
  ultimately show ?thesis unfolding reading_def
    by (intro conjI exI [of _ past] exI [of _ "Looked (RecordMap_Get (lib_rmap L) (recordMap (store s)) k)"] exI [of _ ?n])
      (simp_all add: s' rm)
qed

lemma reading_returns:
  assumes "reading L db ls la ord f t k h s" and "thread_step L s (GetReturns t v) s'" and "length ls < 2 ^ 32"
  shows "\<exists>n. n \<le> length h \<and> f \<le> n \<and> n \<le> Suc (length (fulfilled (store s)))
     \<and> v = abs_get (abs_log ls (la @ batch (take n h)) ord) k"
proof -
  obtain past r n where i: "quiet L db ls la ord h past s" "readers s t = Some (k, r)" "f \<le> n"
    "n \<le> length past + index_count (point s)" "reader_at (store s) ls (la @ batch (take n h)) ord k r"
    using assms(1) unfolding reading_def by blast
  let ?m = "length past + active_count (point s)"
  obtain db' where g: "Get_step L k r (store s) = Inr (Inr v, db')"
    using assms(2) i(2) by (auto simp: thread_step_simps)
  obtain extra where d: "disk_ok L (store s) ls ((la @ batch (take n h)) @ extra) ord"
    by (rule reading_log [OF i(1,4) assms(3)])
  have nm: "n \<le> ?m" "?m \<le> Suc (length (fulfilled (store s)))"
    using i(4) counts_order [of "point s"] quiet_past(4) [OF i(1)] by linarith+
  have "take ?m h = take n h @ drop n (take ?m h)" using nm(1) by (metis append_take_drop_id min.absorb1 take_take)
  then have log: "la @ batch (take ?m h) = (la @ batch (take n h)) @ batch (drop n (take ?m h))"
    by (metis append.assoc batch_append)
  have "ActiveMap_Get (lib_amap L) (activeMap (store s)) = map_of (rev (la @ batch (take ?m h)))"
    using i(1) unfolding quiet_past(2) [OF i(1), symmetric] by (simp only: quiet_def quiet_inv_def)
  then have "v = abs_get (abs_log ls (la @ batch (take n h)) ord) k \<or> v = abs_get (abs_log ls (la @ batch (take ?m h)) ord) k"
    using reader_returns [OF d i(5) g] unfolding log by blast
  then show ?thesis
    using i(3) nm quiet_past(3) [OF i(1)] le_trans by blast
qed

text \<open>C5. Reads are linearizable while no write of the history rotates the active file and no stream is
  positioned twice before it is read. A \<open>Get\<close> that overlaps any number of puts, deletes, other reads
  and steps of the worker returns what the store held after the first \<open>n\<close> writes queued, where \<open>n\<close> is
  at least the number of writes acknowledged when it was called and at most one more than the number
  acknowledged when it returns: every acknowledged write is seen, and beyond those only the one that
  the worker is publishing.\<close>
theorem reads_linearize:
  assumes "opened L ls la ord db" and "locked_run L (started db) es s" and "thread_step L s (GetCall t k) s1"
    and "locked_run L s1 es' s2" and "\<forall>u. GetReturns t u \<notin> set es'" and "thread_step L s2 (GetReturns t v) s3"
    and "small_log db ls la (history (es @ es'))"
  shows "\<exists>n. n \<le> length (history (es @ es')) \<and> length (fulfilled (store s)) \<le> n
     \<and> n \<le> Suc (length (fulfilled (store s2)))
     \<and> v = abs_get (abs_log ls (la @ batch (take n (history (es @ es')))) ord) k"
proof -
  have small: "small_log db ls la (history es @ history es')" using assms(7) by simp
  then have len: "length ls < 2 ^ 32" by (simp add: small_log_def fitting_def)
  obtain past where q: "quiet L db ls la ord (history es) past s"
    using quiet_run [OF assms(1) locked_is_run [OF assms(2)] small_log_prefix [OF small]] by blast
  have "apart (started db)" by (simp add: apart_def started_def)
  from reading_called [OF q apart_run [OF assms(2) this] assms(3)]
  have "reading L db ls la ord (length (fulfilled (store s))) t k (history es) s1" .
  from reading_run [OF assms(4) this small assms(5)]
  have "reading L db ls la ord (length (fulfilled (store s))) t k (history (es @ es')) s2" by simp
  from reading_returns [OF this assms(6) len] show ?thesis .
qed

section \<open>Two reads of one stable file\<close>

text \<open>Without the proviso: a stable file has one stream for all readers, and they hold \<open>_mtx\<close> shared only.\<close>

lemma run_more: "thread_run L s0 es s \<Longrightarrow> thread_step L s e s' \<Longrightarrow> es' = es @ [e] \<Longrightarrow> thread_run L s0 es' s'"
  by (simp add: run_step)

lemma second_seek_wins:
  assumes "sf_on p sf" and "unat off2 + unat sz \<le> length (file_content F p)"
  obtains sf1 sf2 sf3 where "StableFile_seek sf off1 = Inr sf1" and "StableFile_seek sf1 off2 = Inr sf2"
    and "StableFile_take F sf2 sz = Inr (take (unat sz) (drop (unat off2) (file_content F p)), sf3)"
proof -
  obtain f1 where f1: "StableFile_seek sf off1 = Inr (sf\<lparr>sf_file := Some f1\<rparr>)" "st_file f1 = Some p"
    by (rule StableFile_seek_good [OF assms(1)])
  let ?sf1 = "sf\<lparr>sf_file := Some f1\<rparr>"
  have "sf_on p ?sf1" using f1(2) by (simp add: sf_on_def)
  then obtain f2 where f2: "StableFile_seek ?sf1 off2 = Inr (?sf1\<lparr>sf_file := Some f2\<rparr>)"
    "st_good f2" "st_pos f2 = unat off2" "st_file f2 = Some p"
    by (rule StableFile_seek_good)
  obtain sf3 where "StableFile_take F (?sf1\<lparr>sf_file := Some f2\<rparr>) sz
      = Inr (take (unat sz) (drop (unat off2) (file_content F p)), sf3)"
    using StableFile_take_slice [of "?sf1\<lparr>sf_file := Some f2\<rparr>" f2 p sz F] f2 assms(2) by auto
  with f1(1) f2(1) show thesis by (rule that)
qed

text \<open>C16. Two reads of one stable file can return each other's values. When the keys \<open>k1\<close> and \<open>k2\<close> are
  indexed in the same stable file with values of the same size, the read of \<open>k1\<close> positions the shared
  stream, the read of \<open>k2\<close> positions it again, and the read of \<open>k1\<close> then returns what \<open>k2\<close> holds,
  although a \<open>Get\<close> alone returns what \<open>k1\<close> holds.\<close>
theorem shared_stream_mixes:
  fixes L :: "('am, 'rm) libs"
  assumes "store_ok L (store s) ls la ord" and "running (store s)" and "readers s = Map.empty"
    and "RecordMap_Get (lib_rmap L) (recordMap (store s)) k1 = Some h1"
    and "RecordMap_Get (lib_rmap L) (recordMap (store s)) k2 = Some h2"
    and "hint_fd h1 = hint_fd h2" and "hint_size h1 = hint_size h2" and "hint_fd h1 \<noteq> getActiveFD (store s)"
  shows "\<exists>s' db'. thread_run L s [GetCall 1 k1, GetCall 2 k2, GetMoves 1, GetMoves 2, GetMoves 1, GetMoves 2,
       GetReturns 1 (abs_get (abs_log ls la ord) k2)] s'
     \<and> Get L k1 (store s) = Inr (abs_get (abs_log ls la ord) k1, db')"
proof -
  let ?db = "store s" and ?fd = "hint_fd h2"
  let ?S = "\<lambda>db r1 r2. s\<lparr>store := db, readers := [1 \<mapsto> (k1, r1), 2 \<mapsto> (k2, r2)]\<rparr>"
  let ?U = "\<lambda>sf. ?db\<lparr>stableFiles := AList.update ?fd sf (stableFiles ?db)\<rparr>"
  have d: "disk_ok L ?db ls (la @ []) ord" and ix: "index_ok L ?db ls la ord"
    using assms(1) by (simp_all add: store_ok_disk_ok)
  have h2: "map_of (rev (index_log ls la ord)) k2 = Some h2" "hint_fd h2 \<noteq> word_of_nat (length ls)"
    using index_ok_lookup(1) [OF ix, of k2] assms(5,6,8) handles_ok_fd [OF looked_up(1) [OF d]] by simp_all
  obtain p sf v where sf: "map_of (stableFiles ?db) ?fd = Some sf" "sf_on p sf"
    and lw: "last_write (abs_log ls la ord) k2 = Some v"
    and c: "unat (hint_offset h2) + unat (hint_size h2) \<le> length (file_content (disk ?db) p)"
      "take (unat (hint_size h2)) (drop (unat (hint_offset h2)) (file_content (disk ?db) p)) = v"
    by (rule stable_place [OF d h2])
  obtain sf1 sf2 sf3 where seek: "StableFile_seek sf (hint_offset h1) = Inr sf1" "StableFile_seek sf1 (hint_offset h2) = Inr sf2"
    and take: "StableFile_take (disk ?db) sf2 (hint_size h1) = Inr (v, sf3)"
    using second_seek_wins [OF sf(2) c(1)] c(2) assms(7) by metis
  have one: "thread_run L s [GetCall 1 k1] (s\<lparr>readers := [1 \<mapsto> (k1, Looked (Some h1))]\<rparr>)"
    by (rule run_more [OF run_start]) (simp_all add: thread_step_simps assms(2-4))
  have two: "thread_run L s [GetCall 1 k1, GetCall 2 k2] (?S ?db (Looked (Some h1)) (Looked (Some h2)))"
    by (rule run_more [OF one]) (simp_all add: thread_step_simps assms(2,5))
  have three: "thread_run L s [GetCall 1 k1, GetCall 2 k2, GetMoves 1]
      (?S ?db (Staged (InStable h1)) (Looked (Some h2)))"
    by (rule run_more [OF two]) (use assms(8) in \<open>simp_all add: thread_step_simps compare_fd_def fun_upd_twist\<close>)
  have four: "thread_run L s [GetCall 1 k1, GetCall 2 k2, GetMoves 1, GetMoves 2]
      (?S ?db (Staged (InStable h1)) (Staged (InStable h2)))"
    by (rule run_more [OF three]) (use assms(6,8) in \<open>simp_all add: thread_step_simps compare_fd_def\<close>)
  have five: "thread_run L s [GetCall 1 k1, GetCall 2 k2, GetMoves 1, GetMoves 2, GetMoves 1]
      (?S (?U sf1) (Sought h1) (Staged (InStable h2)))"
    by (rule run_more [OF four]) (use assms(6) sf(1) seek(1) in \<open>simp_all add: thread_step_simps fun_upd_twist\<close>)
  have six: "thread_run L s [GetCall 1 k1, GetCall 2 k2, GetMoves 1, GetMoves 2, GetMoves 1, GetMoves 2]
      (?S (?U sf2) (Sought h1) (Sought h2))"
    by (rule run_more [OF five]) (use seek(2) in \<open>simp_all add: thread_step_simps update_update\<close>)
  have "\<exists>s'. thread_step L (?S (?U sf2) (Sought h1) (Sought h2)) (GetReturns 1 (abs_get (abs_log ls la ord) k2)) s'"
    using take assms(6) lw by (simp add: thread_step_simps abs_get_def visible_def)
  then obtain s' where "thread_step L (?S (?U sf2) (Sought h1) (Sought h2)) (GetReturns 1 (abs_get (abs_log ls la ord) k2)) s'" ..
  from run_more [OF six this refl] have "\<exists>s'. thread_run L s [GetCall 1 k1, GetCall 2 k2, GetMoves 1, GetMoves 2, GetMoves 1,
      GetMoves 2, GetReturns 1 (abs_get (abs_log ls la ord) k2)] s'" by auto
  then show ?thesis using Get_readable [OF store_ok_readable [OF assms(1)], of k1] by metis
qed

section \<open>The properties at a concrete system\<close>

lemma run_without_reads:
  "thread_run L s0 es s \<Longrightarrow> (\<And>t. GetMoves t \<notin> set es) \<Longrightarrow> locked_run L s0 es s"
proof (induction rule: thread_run.induct)
  case (run_step es s e s')
  have "stream_free s e" using run_step.prems by (auto simp: stream_free_def)
  then show ?case using locked_step run_step by fastforce
qed (rule locked_start)

text \<open>Without stable files a reader returns in its second step.\<close>

lemma short_read:
  assumes "running (store s)" and "readers s = Map.empty" and "stableFiles (store s) = []"
  obtains s1 s2 v s3 where "thread_step L s (GetCall t k) s1" and "locked_run L s1 [GetMoves t] s2"
    and "thread_step L s2 (GetReturns t v) s3"
proof -
  let ?r = "Looked (RecordMap_Get (lib_rmap L) (recordMap (store s)) k)"
  let ?s1 = "s\<lparr>readers := [t \<mapsto> (k, ?r)]\<rparr>"
  let ?stage = "compare_fd (store s) (RecordMap_Get (lib_rmap L) (recordMap (store s)) k)"
  let ?s2 = "?s1\<lparr>store := store s, readers := [t \<mapsto> (k, Staged ?stage)]\<rparr>"
  have c: "thread_step L s (GetCall t k) ?s1" using assms(1,2) by (simp add: thread_step_simps)
  have "thread_step L ?s1 (GetMoves t) ?s2" by (simp add: thread_step_simps)
  moreover have "stream_free ?s1 (GetMoves t)" by (auto simp: stream_free_def)
  ultimately have "locked_run L ?s1 ([] @ [GetMoves t]) ?s2" by (rule locked_step [OF locked_start])
  moreover have "\<exists>v s3. thread_step L ?s2 (GetReturns t v) s3"
    using assms(3) by (cases ?stage) (simp_all add: thread_step_simps Let_def)
  ultimately show thesis using that [OF c] by auto
qed

theorem reads_linearize_witness:
  "\<exists>db m s s1 s2 s3. locked_run example_libs (started db) ([PutBy ''k'' ''v'' 0] @ replicate m WorkerMoves) s
     \<and> fulfilled (store s) = [0] \<and> thread_step example_libs s (GetCall 7 ''k'') s1
     \<and> locked_run example_libs s1 [GetMoves 7] s2 \<and> thread_step example_libs s2 (GetReturns 7 (Some ''v'')) s3"
proof -
  obtain db s m where e: "opened example_libs [] [] [] db" "setting db = example_setting"
    "thread_run example_libs (started db) ([PutBy ''k'' ''v'' 0] @ replicate m WorkerMoves) s"
    "readers s = Map.empty" "running (store s)" "fulfilled (store s) = [0]"
    by (rule example_turn)
  let ?es = "[PutBy ''k'' ''v'' 0] @ replicate m WorkerMoves"
  have run: "locked_run example_libs (started db) ?es s" by (rule run_without_reads [OF e(3)]) auto
  have small: "small_log db [] [] (history (?es @ [GetMoves 7]))" "small_log db [] [] (history ?es)"
    using example_written [of m] e(2)
    by (simp_all add: small_log_def limit_of_def rec_size_def header_size_def)
  obtain past where q: "quiet example_libs db [] [] [] (history ?es) past s"
    using quiet_run [OF e(1,3) small(2)] by blast
  have "disk_ok example_libs (store s) [] ([] @ batch (past @ written (point s))) []"
    by (rule quiet_disk) (use q in \<open>simp_all add: quiet_def\<close>)
  then have "handles_ok (store s) (length ([] :: kvs list)) []" unfolding disk_ok_def by blast
  then have none: "stableFiles (store s) = []" using handles_ok_length by fastforce
  obtain s1 s2 v s3 where r: "thread_step example_libs s (GetCall 7 ''k'') s1"
    "locked_run example_libs s1 [GetMoves 7] s2" "thread_step example_libs s2 (GetReturns 7 v) s3"
    by (rule short_read [OF e(5,4) none])
  obtain n where n: "n \<le> length (history (?es @ [GetMoves 7]))" "length (fulfilled (store s)) \<le> n"
    "v = abs_get (abs_log [] ([] @ batch (take n (history (?es @ [GetMoves 7])))) []) ''k''"
    using reads_linearize [OF e(1) run r(1,2) _ r(3) small(1)] by auto
  have h: "history (?es @ [GetMoves 7]) = [\<lparr>w_key = ''k'', w_value = ''v'', w_promise = 0\<rparr>]"
    using example_written(2) [of m] by simp
  have "n = 1" using n(1,2) e(6) unfolding h by simp
  then have "v = Some ''v''" using n(3) unfolding h
    by (simp add: abs_log_def abs_get_def last_write_def visible_def TOMBSTONE_def)
  with run e(6) r show ?thesis by blast
qed

theorem shared_stream_mixes_witness:
  "\<exists>db s' db'. BitcaskImpl_new example_libs (Setting_of_path ''db/'')
       (disk_of sum_crc ''db/'' [[(''a'', ''1''), (''b'', ''2'')]] []) = Inr db
     \<and> thread_run example_libs (started db) [GetCall 1 ''a'', GetCall 2 ''b'', GetMoves 1, GetMoves 2, GetMoves 1,
         GetMoves 2, GetReturns 1 (Some ''2'')] s'
     \<and> Get example_libs ''a'' db = Inr (Some ''1'', db')"
proof -
  let ?ls = "[[(''a'', ''1''), (''b'', ''2'')]]" and ?s = "Setting_of_path ''db/''"
  let ?F = "disk_of sum_crc ''db/'' ?ls []"
  have d: "GetDbPath ?s = ''db/''" "lib_crc example_libs = sum_crc"
    by (simp_all add: GetDbPath_def Setting_of_path_def Setting_new_def example_libs_def)
  have f: "files_ok (lib_crc example_libs) ?F (GetDbPath ?s) ?ls []"
    unfolding d by (rule disk_of_files_ok) (simp add: rec_size_def header_size_def)
  have dir: "dir_ok ?F (GetDbPath ?s) (length ?ls)"
    unfolding d by (rule disk_of_dir_ok) (simp add: is_dir_def)
  obtain db where db: "BitcaskImpl_new example_libs ?s ?F = Inr db" "store_ok example_libs db ?ls [] (lex_order (length ?ls))"
    "running db"
    by (rule restart_ok [OF libs_ok_example f dir]) simp_all
  have ord: "lex_order (length ?ls) = [0]" by (simp add: lex_order_small)
  have st: "store_ok example_libs (store (started db)) ?ls [] [0]" and run: "running (store (started db))"
    and none: "readers (started db) = Map.empty"
    using db(2,3) unfolding ord by (simp_all add: started_def)
  have fd: "getActiveFD (store (started db)) = 1" using store_ok_ord(5) [OF st] by simp
  have "index_ok example_libs (store (started db)) ?ls [] [0]" using st by (simp add: store_ok_def)
  note ix = index_ok_lookup(1) [OF this]
  have a: "RecordMap_Get (lib_rmap example_libs) (recordMap (store (started db))) ''a''
      = Some \<lparr>hint_fd = 0, hint_offset = 13, hint_size = 1\<rparr>"
    and b: "RecordMap_Get (lib_rmap example_libs) (recordMap (store (started db))) ''b''
      = Some \<lparr>hint_fd = 0, hint_offset = 27, hint_size = 1\<rparr>"
    unfolding ix by (simp_all add: index_log_def file_hints_def value_hint_def rec_size_def header_size_def)
  have v: "abs_get (abs_log ?ls [] [0]) ''b'' = Some ''2''" "abs_get (abs_log ?ls [] [0]) ''a'' = Some ''1''"
    by (simp_all add: abs_log_def abs_get_def last_write_def visible_def TOMBSTONE_def)
  from shared_stream_mixes [OF st run none a b] fd db(1) show ?thesis by (auto simp: v started_def)
qed

end
