(* ===== verification/Rotation.thy ===== *)
theory Rotation
  imports Reads
begin

text \<open>
  The files, the index and the map of the active file under the small steps of theory \<open>Threads\<close> when
  batches rotate the active file, each at its last write only: what the members show at every point of
  the worker, as a beginning of one log that grows and is never rewritten. Theory \<open>RotatingReads\<close>
  draws from it what a \<open>Get\<close> returns.
\<close>

section \<open>The log across rotations\<close>

text \<open>All files in the order the index knows them: those the members know, then those of the locals.\<close>

definition all_files :: "kvs list \<Rightarrow> nat list \<Rightarrow> nat list" where
  "all_files ls ord = ord @ [length ord..<length ls]"

text \<open>The size of the log of the first \<open>m\<close> stable files.\<close>

definition stable_size :: "kvs list \<Rightarrow> nat list \<Rightarrow> nat \<Rightarrow> nat" where
  "stable_size ls ord m = length (concat (map ((!) ls) (take m ord)))"

text \<open>A rotation that is through the first loop leaves an empty active log and one new stable file.\<close>

definition one_ahead :: "kvs list \<Rightarrow> kvs \<Rightarrow> nat list \<Rightarrow> bool" where
  "one_ahead ls la ord \<longleftrightarrow> set ord = {..<length ord} \<and> length ls < 2 ^ 32
     \<and> (length ls = length ord \<or> length ls = Suc (length ord) \<and> la = [])
     \<and> (\<forall>rs \<in> set (ls @ [la]). log_size rs < 2 ^ 32)"

lemma all_files_same [simp]: "length ls = length ord \<Longrightarrow> all_files ls ord = ord"
  by (simp add: all_files_def)

lemma set_all_files: "one_ahead ls la ord \<Longrightarrow> set (all_files ls ord) = {..<length ls}"
  unfolding one_ahead_def all_files_def by auto

lemma one_ahead_lt:
  assumes "one_ahead ls la ord" shows "\<forall>j \<in> set (all_files ls ord). j < length ls"
    and "\<forall>j \<in> set ord. j < length ls" and "\<forall>rs \<in> set (ls @ [la]). log_size rs < 2 ^ 32"
    and "length ord \<le> length ls" and "length ls < 2 ^ 32"
  using set_all_files [OF assms] assms unfolding one_ahead_def all_files_def by auto

lemma map_fst_index: "map fst (index_log ls la ord) = map fst (abs_log ls la ord)"
proof -
  have "map fst (concat (map (\<lambda>j. file_hints j (ls ! j)) js)) = map fst (concat (map ((!) ls) js))" for js
    by (induction js) (simp_all add: map_fst_file_hints)
  then show ?thesis by (simp add: index_log_def abs_log_def map_fst_file_hints)
qed

lemma length_index: "length (index_log ls la ord) = length (abs_log ls la ord)"
  by (metis map_fst_index length_map)

text \<open>Every beginning of the index leads to the beginning of the log of the same length.\<close>

lemma beginning_lookup:
  assumes "one_ahead ls la ord"
  shows "rel_option (leads_to ext ls la (all_files ls ord @ [length ls]))
      (map_of (rev (take n (index_log ls la (all_files ls ord)))) k)
      (last_write (take n (abs_log ls la (all_files ls ord))) k)"
proof -
  have "list_all2 (\<lambda>(k, h) (k', v). k = k' \<and> leads_to ext ls la (all_files ls ord @ [length ls]) h v)
      (rev (take n (index_log ls la (all_files ls ord)))) (rev (take n (abs_log ls la (all_files ls ord))))"
    unfolding list_all2_rev
    by (rule list_all2_takeI [OF index_log_rel [OF one_ahead_lt(1,3) [OF assms]]])
  from map_of_rel [where P = "\<lambda>_. leads_to ext ls la (all_files ls ord @ [length ls])", OF this]
  show ?thesis by (simp add: last_write_def)
qed

text \<open>A hint of a stable file leads to the bytes of the value.\<close>

lemma beginning_place:
  assumes "one_ahead ls la ord" and "files_ok ext F d ls la"
    and "map_of (rev (take n (index_log ls la (all_files ls ord)))) k = Some h"
    and "hint_fd h = word_of_nat j" and "j < length ord"
  obtains v where "last_write (take n (abs_log ls la (all_files ls ord))) k = Some v"
    and "unat (hint_offset h) + unat (hint_size h) \<le> length (file_content F (db_file d j))"
    and "take (unat (hint_size h)) (drop (unat (hint_offset h)) (file_content F (db_file d j))) = v"
proof -
  obtain v where v: "last_write (take n (abs_log ls la (all_files ls ord))) k = Some v"
    and lead: "leads_to ext ls la (all_files ls ord @ [length ls]) h v"
    using beginning_lookup [OF assms(1), of ext n k] assms(3) by (auto simp: option_rel_Some1)
  obtain i where i: "i \<in> set (all_files ls ord @ [length ls])" "hint_fd h = word_of_nat i"
    and c: "unat (hint_offset h) + unat (hint_size h) \<le> length (enc_log ext ((ls @ [la]) ! i))"
      "take (unat (hint_size h)) (drop (unat (hint_offset h)) (enc_log ext ((ls @ [la]) ! i))) = v"
    using lead unfolding leads_to_def Let_def by blast
  have j: "j < length ls" using assms(5) one_ahead_lt(4) [OF assms(1)] by linarith
  have "i \<le> length ls" using i(1) unfolding set_append set_all_files [OF assms(1)] by auto
  then have "i = j" using of_nat_u32_eq [of i j] i(2) assms(4) j one_ahead_lt(5) [OF assms(1)] by simp
  then have "file_content F (db_file d j) = enc_log ext ((ls @ [la]) ! i)"
    using assms(2) j by (simp add: files_ok_def holds_log_def nth_append)
  with c show thesis using that [OF v] by simp
qed

lemma in_take_append:
  "x \<in> set (take n (xs @ ys)) \<Longrightarrow> x \<in> set (take n xs) \<or> x \<in> set (drop (length xs) (take n (xs @ ys)))"
  by (cases "n \<le> length xs") auto

text \<open>The number in a hint that the index shows, compared with that of the active file.\<close>

lemma index_log_all_files:
  "index_log ls la (all_files ls ord) = concat (map (\<lambda>j. file_hints j (ls ! j)) ord)
     @ concat (map (\<lambda>j. file_hints j (ls ! j)) [length ord..<length ls]) @ file_hints (length ls) la"
  by (simp add: index_log_def all_files_def)

lemma length_hints_of: "length (concat (map (\<lambda>j. file_hints j (ls ! j)) ord)) = stable_size ls ord (length ord)"
  unfolding stable_size_def take_all [OF le_refl] by (induction ord) simp_all

lemma hints_of_parts:
  assumes "one_ahead ls la ord"
  shows "(k, h) \<in> set (concat (map (\<lambda>j. file_hints j (ls ! j)) ord)) \<Longrightarrow> \<exists>j < length ord. hint_fd h = word_of_nat j"
    and "(k, h) \<in> set (concat (map (\<lambda>j. file_hints j (ls ! j)) [length ord..<length ls]) @ file_hints (length ls) la)
      \<Longrightarrow> hint_fd h = word_of_nat (length ord)"
proof -
  note o = assms [unfolded one_ahead_def]
  show "(k, h) \<in> set (concat (map (\<lambda>j. file_hints j (ls ! j)) ord)) \<Longrightarrow> \<exists>j < length ord. hint_fd h = word_of_nat j"
    using o by (auto dest!: file_hints_fd)
  have "length ls = length ord \<or> length ls = Suc (length ord) \<and> la = []" using o by blast
  then show "(k, h) \<in> set (concat (map (\<lambda>j. file_hints j (ls ! j)) [length ord..<length ls]) @ file_hints (length ls) la)
      \<Longrightarrow> hint_fd h = word_of_nat (length ord)"
    by (elim disjE conjE) (simp_all add: file_hints_fd)
qed

lemma keys_beyond: "k \<in> fst ` set (drop c (take n (index_log ls la ord))) \<longleftrightarrow>
    last_write (drop c (take n (abs_log ls la ord))) k \<noteq> None"
proof -
  have "fst ` set (drop c (take n (index_log ls la ord))) = set (drop c (take n (map fst (abs_log ls la ord))))"
    unfolding map_fst_index [symmetric] by (simp only: take_map drop_map set_map)
  also have "\<dots> = fst ` set (drop c (take n (abs_log ls la ord)))" by (simp only: take_map drop_map set_map)
  finally show ?thesis by (simp add: last_write_def map_of_eq_None_iff)
qed

lemma hint_number:
  assumes "one_ahead ls la ord" and "map_of (rev (take n (index_log ls la (all_files ls ord)))) k = Some h"
  shows "hint_fd h = word_of_nat (length ord) \<Longrightarrow>
      last_write (drop (stable_size ls ord (length ord)) (take n (abs_log ls la (all_files ls ord)))) k \<noteq> None"
    and "hint_fd h \<noteq> word_of_nat (length ord) \<Longrightarrow> \<exists>j < length ord. hint_fd h = word_of_nat j"
proof -
  let ?A = "concat (map (\<lambda>j. file_hints j (ls ! j)) ord)" and ?c = "stable_size ls ord (length ord)"
  let ?B = "concat (map (\<lambda>j. file_hints j (ls ! j)) [length ord..<length ls]) @ file_hints (length ls) la"
  note parts = hints_of_parts [OF assms(1), of k h]
  have mem: "(k, h) \<in> set (take n (?A @ ?B))"
    using assms(2) unfolding index_log_all_files by (metis map_of_SomeD set_rev)
  have "(k, h) \<in> set ?A \<or> (k, h) \<in> set ?B" using in_set_takeD [OF mem] unfolding set_append by (rule UnE) simp_all
  then show "hint_fd h \<noteq> word_of_nat (length ord) \<Longrightarrow> \<exists>j < length ord. hint_fd h = word_of_nat j"
    using parts by blast
  assume act: "hint_fd h = word_of_nat (length ord)"
  have "(k, h) \<notin> set ?A"
  proof
    assume "(k, h) \<in> set ?A"
    then obtain j where "j < length ord" "hint_fd h = word_of_nat j" using parts(1) by blast
    then show False using act of_nat_u32_eq [of j "length ord"] one_ahead_lt(4,5) [OF assms(1)] by simp
  qed
  moreover have "(k, h) \<in> set (take n ?A) \<or> (k, h) \<in> set (drop ?c (take n (?A @ ?B)))"
    using in_take_append [OF mem] unfolding length_hints_of .
  ultimately have "(k, h) \<in> set (drop ?c (take n (index_log ls la (all_files ls ord))))"
    unfolding index_log_all_files using in_set_takeD by fast
  then have "k \<in> fst ` set (drop ?c (take n (index_log ls la (all_files ls ord))))" by force
  then show "last_write (drop ?c (take n (abs_log ls la (all_files ls ord)))) k \<noteq> None" unfolding keys_beyond .
qed

text \<open>A key that has been written to the active file is indexed there.\<close>

lemma hint_active:
  assumes "one_ahead ls la ord"
    and "last_write (drop (stable_size ls ord (length ord)) (take n (abs_log ls la (all_files ls ord)))) k \<noteq> None"
  shows "\<exists>h. map_of (rev (take n (index_log ls la (all_files ls ord)))) k = Some h \<and> hint_fd h = word_of_nat (length ord)"
proof -
  let ?A = "concat (map (\<lambda>j. file_hints j (ls ! j)) ord)" and ?IX = "index_log ls la (all_files ls ord)"
  let ?B = "concat (map (\<lambda>j. file_hints j (ls ! j)) [length ord..<length ls]) @ file_hints (length ls) la"
  let ?late = "drop (length ?A) (take n ?IX)"
  have "k \<in> fst ` set ?late" using assms(2) unfolding length_hints_of keys_beyond .
  then obtain h where h: "map_of (rev ?late) k = Some h" by (metis map_of_eq_None_iff not_None_eq set_rev)
  have eq: "?late = take (n - length ?A) ?B" unfolding index_log_all_files drop_take by simp
  have "(k, h) \<in> set ?late" using h by (metis map_of_SomeD set_rev)
  then have "(k, h) \<in> set (take (n - length ?A) ?B)" unfolding eq .
  then have "(k, h) \<in> set ?B" by (rule in_set_takeD)
  then have "hint_fd h = word_of_nat (length ord)" by (rule hints_of_parts(2) [OF assms(1)])
  moreover have "map_of (rev (take n ?IX)) k = Some h"
    using map_of_rev_append [of "take (length ?A) (take n ?IX)" ?late k] unfolding append_take_drop_id h by simp
  ultimately show ?thesis by blast
qed

section \<open>The invariant of a run whose batches rotate at their last write only\<close>

definition tidy :: "('am, 'rm) threads \<Rightarrow> bool" where
  "tidy s \<longleftrightarrow> (\<forall>ws w left cs. point s = WriteFiles ws (w # left) cs \<longrightarrow> cs_new cs = [])"

text \<open>The stable files that the map of the active file has been cleared of.\<close>

fun cleared :: "point \<Rightarrow> nat list \<Rightarrow> nat" where
  "cleared (ClearActive ws cs) ord = length ord - length (cs_new cs)"
| "cleared _ ord = length ord"

text \<open>
  The locals of the worker: nothing is rotated yet and every write goes to the map of the active file,
  or the last write has rotated and none does; the hints are those of the writes of the batch.
\<close>

definition locals_ok :: "kvs list \<Rightarrow> kvs \<Rightarrow> nat list \<Rightarrow> nat \<Rightarrow> point \<Rightarrow> commit_state \<Rightarrow> bool" where
  "locals_ok ls la ord b p cs \<longleftrightarrow>
     (cs_new cs = [] \<and> cs_last cs = 0 \<and> stable_size ls ord (length ord) \<le> b
      \<or> length (cs_new cs) = 1 \<and> cs_last cs = length (held p) \<and> unwritten p = [] \<and> la = [])
   \<and> cs_idx cs = length (written p) \<and> length (cs_records cs) = length (written p)
   \<and> drop b (index_log ls la (all_files ls ord)) = zip (map w_key (written p)) (cs_records cs)"

definition turn_inv :: "('am, 'rm) libs \<Rightarrow> kvs \<Rightarrow> nat \<Rightarrow> Write list \<Rightarrow> ('am, 'rm) threads
    \<Rightarrow> kvs list \<Rightarrow> kvs \<Rightarrow> nat list \<Rightarrow> bool" where
  "turn_inv L base n past s ls la ord \<longleftrightarrow>
     files_at L (point s) (store s) ls la ord \<and> distinct ord \<and> set ord = {..<length ord}
   \<and> dir_ok (disk (store s)) (GetDbPath (setting (store s))) (length ls)
   \<and> log_size la < limit_of (store s) + max_record \<and> length ls \<le> n + length (past @ written (point s))
   \<and> abs_log ls la (all_files ls ord) = base @ batch (past @ written (point s))
   \<and> (\<forall>cs. locals_of (point s) = Some cs \<longrightarrow> locals_ok ls la ord (length base + length past) (point s) cs)
   \<and> RecordMap_Get (lib_rmap L) (recordMap (store s)) =
       map_of (rev (take (length base + length past + index_count (point s)) (index_log ls la (all_files ls ord))))
   \<and> ActiveMap_Get (lib_amap L) (activeMap (store s)) =
       last_write (drop (stable_size ls ord (cleared (point s) ord))
         (take (length base + length past + active_count (point s)) (abs_log ls la (all_files ls ord))))"

lemma turn_invD:
  assumes "turn_inv L base n past s ls la ord"
  shows "files_at L (point s) (store s) ls la ord" and "distinct ord" and "set ord = {..<length ord}"
    and "dir_ok (disk (store s)) (GetDbPath (setting (store s))) (length ls)"
    and "log_size la < limit_of (store s) + max_record" and "length ls \<le> n + length (past @ written (point s))"
    and "abs_log ls la (all_files ls ord) = base @ batch (past @ written (point s))"
    and "locals_of (point s) = Some cs \<Longrightarrow> locals_ok ls la ord (length base + length past) (point s) cs"
    and "RecordMap_Get (lib_rmap L) (recordMap (store s)) =
       map_of (rev (take (length base + length past + index_count (point s)) (index_log ls la (all_files ls ord))))"
    and "ActiveMap_Get (lib_amap L) (activeMap (store s)) =
       last_write (drop (stable_size ls ord (cleared (point s) ord))
         (take (length base + length past + active_count (point s)) (abs_log ls la (all_files ls ord))))"
  using assms unfolding turn_inv_def by blast+

lemma disk_ok_one_ahead:
  assumes "disk_ok L db ls la ord"
  shows "one_ahead ls la ord" and "length ls = length ord" and "distinct ord" and "set ord = {..<length ord}"
proof -
  have h: "length ls < 2 ^ 32" "distinct ord" "set ord = {..<length ls}" using assms by (simp_all add: disk_ok_def handles_ok_def)
  then show len: "length ls = length ord" and "distinct ord" using distinct_card [of ord] by simp_all
  then show "set ord = {..<length ord}" using h(3) by simp
  have "\<forall>i < length ls. log_size (ls ! i) < 2 ^ 32" "log_size la < 2 ^ 32"
    using assms by (simp_all add: disk_ok_def files_ok_def holds_log_def)
  then show "one_ahead ls la ord" using h len by (auto simp: one_ahead_def in_set_conv_nth)
qed

lemma turn_one_ahead:
  assumes "turn_inv L base n past s ls la ord" and "length ls < 2 ^ 32"
  shows "one_ahead ls la ord"
proof -
  note t = turn_invD [OF assms(1)]
  have f: "files_ok (lib_crc L) (disk (store s)) (GetDbPath (setting (store s))) ls la"
    by (rule files_at_files_ok [OF t(1)])
  have "\<forall>i < length ls. log_size (ls ! i) < 2 ^ 32" "log_size la < 2 ^ 32"
    using f by (simp_all add: files_ok_def holds_log_def)
  then have logs: "\<forall>rs \<in> set (ls @ [la]). log_size rs < 2 ^ 32" by (auto simp: in_set_conv_nth)
  have loop: "one_ahead ls la ord" if p: "in_loop L (store s) cs ls la ord" "locals_of (point s) = Some cs" for cs
  proof -
    have "card (set ord) = length ord" by (rule distinct_card [OF t(2)])
    then have "length ls = length ord + length (cs_new cs)" using in_loop_new [OF p(1)] by simp
    then have "length ls = length ord \<or> length ls = Suc (length ord) \<and> la = []"
      using t(8) [OF p(2)] unfolding locals_ok_def by auto
    then show ?thesis unfolding one_ahead_def using t(3) assms(2) logs by blast
  qed
  show "one_ahead ls la ord"
    using t(1) loop disk_ok_one_ahead(1) by (cases "point s") simp_all
qed

text \<open>The log, the index and the files only grow.\<close>

definition grown :: "kvs list \<Rightarrow> kvs \<Rightarrow> nat list \<Rightarrow> kvs list \<Rightarrow> kvs \<Rightarrow> nat list \<Rightarrow> bool" where
  "grown ls la ord ls' la' ord' \<longleftrightarrow> (\<exists>xs. ls' = ls @ xs) \<and> (\<exists>xs. ord' = ord @ xs)
     \<and> (\<exists>xs. index_log ls' la' (all_files ls' ord') = index_log ls la (all_files ls ord) @ xs)
     \<and> (\<exists>xs. abs_log ls' la' (all_files ls' ord') = abs_log ls la (all_files ls ord) @ xs)"

lemma grown_refl [simp]: "grown ls la ord ls la ord"
  by (simp add: grown_def)

lemma stable_size_grown:
  assumes "\<forall>j \<in> set ord. j < length ls" and "m \<le> length ord"
  shows "stable_size (ls @ xs) (ord @ ys) m = stable_size ls ord m"
proof -
  have "map ((!) (ls @ xs)) (take m ord) = map ((!) ls) (take m ord)"
    by (rule map_cong [OF refl]) (use assms(1) in \<open>auto simp: nth_append dest: in_set_takeD\<close>)
  moreover have "take m (ord @ ys) = take m ord" using assms(2) by simp
  ultimately show ?thesis unfolding stable_size_def by (simp only:)
qed

lemma stable_size_le: "stable_size ls ord (length ord) \<le> length (abs_log ls la (all_files ls ord))"
  by (simp add: stable_size_def abs_log_def all_files_def)

lemma write_grows:
  assumes "fill_one limit r (ls, la) = (ls', la')" and "set ord = {..<length ord}" and "length ls = length ord"
  shows "index_log ls' la' (all_files ls' ord) =
      index_log ls la (all_files ls ord) @ [(fst r, place_hint (length ls) (value_offset la r) r)]"
    and "abs_log ls' la' (all_files ls' ord) = abs_log ls la (all_files ls ord) @ [r]"
    and "grown ls la ord ls' la' ord"
proof -
  have f: "fill limit [r] (ls, la) = (ls', la')" using assms(1) by simp
  have lt: "\<forall>j \<in> set ord. j < length ls" using assms(2,3) by auto
  have all: "all_files ls ord = ord" "all_files ls' ord = ord @ [length ls..<length ls']"
    by (simp_all add: all_files_def assms(3))
  show ix: "index_log ls' la' (all_files ls' ord) =
      index_log ls la (all_files ls ord) @ [(fst r, place_hint (length ls) (value_offset la r) r)]"
    using index_log_append [OF lt _ f] unfolding all by (simp add: place_hints_def)
  show ab: "abs_log ls' la' (all_files ls' ord) = abs_log ls la (all_files ls ord) @ [r]"
    using abs_log_append [OF lt f] unfolding all .
  have "\<exists>xs. ls' = ls @ xs" using assms(1) by (auto simp: fill_one_def split: if_splits)
  then show "grown ls la ord ls' la' ord" unfolding grown_def ix ab by simp
qed

lemma turn_write:
  assumes "turn_inv L base n past s ls la ord" and "point s = WriteFiles (pre @ w # left) (w # left) cs"
    and "limit_of (store s) \<le> 2 ^ 31" and "fits_record (w_key w) (w_value w)" and "Suc (length ls) < 2 ^ 32"
    and "cs_new cs = []" and "commit_write L w cs (store s) = Inr (cs', db)" and "left \<noteq> [] \<longrightarrow> cs_new cs' = []"
  shows "\<exists>ls' la'. turn_inv L base n past (s\<lparr>store := db, point := WriteFiles (pre @ w # left) left cs'\<rparr>) ls' la' ord
     \<and> grown ls la ord ls' la' ord"
proof -
  let ?r = "(w_key w, w_value w)" and ?d = "GetDbPath (setting (store s))" and ?b = "length base + length past"
  have wr: "written (WriteFiles (pre @ w # left) (w # left) cs) = pre"
    "written (WriteFiles (pre @ w # left) left cs') = pre @ [w]"
    using written_simps(1) [of "pre @ [w]" left cs'] by simp_all
  note t = turn_invD [OF assms(1), unfolded assms(2) wr files_at.simps index_count.simps active_count.simps cleared.simps]
  have lo: "locals_ok ls la ord ?b (WriteFiles (pre @ w # left) (w # left) cs) cs" using t(8) by simp
  then have rec: "cs_last cs = 0" "stable_size ls ord (length ord) \<le> ?b" "cs_idx cs = length pre"
    "length (cs_records cs) = length pre" "drop ?b (index_log ls la (all_files ls ord)) = zip (map w_key pre) (cs_records cs)"
    using assms(6) wr(1) unfolding locals_ok_def by simp_all
  have card: "card (set ord) = length ord" by (rule distinct_card [OF t(2)])
  then have len: "length ls = length ord" using in_loop_new [OF t(1)] assms(6) by simp
  have lt: "\<forall>j \<in> set ord. j < length ls" unfolding t(3) len by simp
  obtain ls' la' where f: "fill_one (limit_of (store s)) ?r (ls, la) = (ls', la')" by fastforce
  obtain cs1 db1 where "commit_write L w cs (store s) = Inr (cs1, db1)" "in_loop L db1 cs1 ls' la' ord"
    "dir_ok (disk db1) ?d (length ls')" "log_size la' < limit_of (store s) + max_record" "length ls' \<le> Suc (length ls)"
    "cs_records cs1 = cs_records cs @ [place_hint (card (set ord)) (value_offset la ?r) ?r]"
    "cs_last cs1 = (if length ls' = length ls then cs_last cs else Suc (cs_idx cs))" "cs_idx cs1 = Suc (cs_idx cs)"
    by (rule commit_write_ok [OF t(1) assms(3) t(5) assms(4,5) t(4) f])
  then have c: "in_loop L db cs' ls' la' ord" "dir_ok (disk db) ?d (length ls')"
    "log_size la' < limit_of (store s) + max_record" "length ls' \<le> Suc (length ls)"
    "cs_records cs' = cs_records cs @ [place_hint (length ls) (value_offset la ?r) ?r]"
    "cs_last cs' = (if length ls' = length ls then 0 else Suc (length pre))" "cs_idx cs' = Suc (length pre)"
    using assms(7) card len rec by simp_all
  note g = write_grows [OF f t(3) len]
  obtain xs where xs: "ls' = ls @ xs" using g(3) unfolding grown_def by blast
  have st: "stable_size ls' ord (length ord) = stable_size ls ord (length ord)"
    using stable_size_grown [OF lt le_refl, of xs "[]"] by (simp add: xs)
  have new: "length ls' = length ord + length (cs_new cs')" using in_loop_new [OF c(1)] card by simp
  have long: "?b \<le> length (abs_log ls la (all_files ls ord))" unfolding t(7) by simp
  then have ilong: "?b \<le> length (index_log ls la (all_files ls ord))" by (simp add: length_index)
  have "cs_new cs' = [] \<and> cs_last cs' = 0 \<or> length (cs_new cs') = 1 \<and> cs_last cs' = Suc (length pre) \<and> left = [] \<and> la' = []"
  proof (cases "length ls' = length ls")
    case True
    then show ?thesis using new len c(6) by simp
  next
    case False
    then have "length (cs_new cs') = 1" using new len c(4) by linarith
    moreover from this assms(8) have "left = []" by auto
    moreover have "la' = []" using f False by (auto simp: fill_one_def split: if_splits)
    ultimately show ?thesis using c(6) False by simp
  qed
  then have "locals_ok ls' la' ord ?b (WriteFiles (pre @ w # left) left cs') cs'"
    unfolding locals_ok_def wr g(1) st using rec c(5,7) ilong by auto
  then have loc: "\<forall>cs. locals_of (WriteFiles (pre @ w # left) left cs') = Some cs \<longrightarrow>
      locals_ok ls' la' ord ?b (WriteFiles (pre @ w # left) left cs') cs" by simp
  have log: "abs_log ls' la' (all_files ls' ord) = base @ batch (past @ pre @ [w])"
    unfolding g(2) t(7) by simp
  note fields = commit_write_fields [OF assms(7)]
  then have same: "setting db = setting (store s)" "recordMap db = recordMap (store s)" "activeMap db = activeMap (store s)"
    "limit_of db = limit_of (store s)" by (simp_all add: limit_of_def)
  have upd: "store (s\<lparr>store := db, point := p\<rparr>) = db" "point (s\<lparr>store := db, point := p\<rparr>) = p" for p by simp_all
  have maps: "take (?b + 0) (index_log ls' la' (all_files ls' ord)) = take (?b + 0) (index_log ls la (all_files ls ord))"
    "take (?b + 0) (abs_log ls' la' (all_files ls' ord)) = take (?b + 0) (abs_log ls la (all_files ls ord))"
    unfolding g(1,2) using long ilong by simp_all
  have "length ls' \<le> n + length (past @ pre @ [w])" using t(6) c(4) by simp
  then have "turn_inv L base n past (s\<lparr>store := db, point := WriteFiles (pre @ w # left) left cs'\<rparr>) ls' la' ord"
    unfolding turn_inv_def upd wr same files_at.simps index_count.simps active_count.simps cleared.simps maps st
    using c(1-3) t(2,3,9,10) log loc by blast
  with g(3) show ?thesis by blast
qed

lemma turn_room:
  assumes "order_inv h past s" and "turn_inv L base n past s ls la ord" and "fitting n h"
  shows "length ls < 2 ^ 31"
proof -
  have "h = past @ held (point s) @ pending (store s)" using assms(1) by (simp add: order_inv_def)
  moreover have "length (written (point s)) \<le> length (held (point s))" by (simp add: written_def)
  ultimately show ?thesis using turn_invD(6) [OF assms(2)] assms(3) by (simp add: fitting_def)
qed

lemma turn_upd:
  "store (s\<lparr>store := db, point := p\<rparr>) = db" "point (s\<lparr>store := db, point := p\<rparr>) = p"
  by simp_all

declare last_write_snoc [simp]

text \<open>One record is published: in the map of the active file, then in the index.\<close>

lemma turn_active:
  assumes "length base + length past = b" and "FL = base @ batch (past @ ws)" and "i < length ws"
    and "get = last_write (drop c (take (b + i) FL))" and "c \<le> b"
  shows "get(w_key (ws ! i) \<mapsto> w_value (ws ! i)) = last_write (drop c (take (b + Suc i) FL))"
proof -
  have "take (b + Suc i) FL = take (b + i) FL @ [(w_key (ws ! i), w_value (ws ! i))]"
    using assms(1-3) by (simp add: take_Suc_conv_app_nth batch_def nth_append)
  moreover have "c \<le> length (take (b + i) FL)" using assms(1,2,3,5) by simp
  ultimately show ?thesis by (simp add: assms(4))
qed

lemma turn_index:
  assumes "drop b IX = zip ks hs" and "length ks = length hs" and "i < length hs"
  shows "(map_of (rev (take (b + i) IX)))(ks ! i \<mapsto> hs ! i) = map_of (rev (take (b + Suc i) IX))"
proof -
  have "length (drop b IX) = length hs" using assms(1,2) by simp
  then have "b + i < length IX" using assms(3) by simp
  moreover have "IX ! (b + i) = zip ks hs ! i" using calculation assms(1) by (metis nth_drop add_leD1 less_imp_le)
  ultimately show ?thesis using assms(2,3) by (simp add: take_Suc_conv_app_nth)
qed

lemma turn_publish:
  assumes "libs_ok L" and "order_inv h past s" and "turn_inv L base n past s ls la ord"
    and "point s = Publish st ws cs i" and "commit_step L (point s) (store s) = Inr (p, db)"
  shows "turn_inv L base n (if p = TestRunning then past @ ws else past) (s\<lparr>store := db, point := p\<rparr>) ls la ord"
proof -
  let ?b = "length base + length past"
  note t = turn_invD [OF assms(3), unfolded assms(4) files_at.simps cleared.simps written_simps]
  have lo: "locals_ok ls la ord ?b (Publish st ws cs i) cs" using t(8) by simp
  then have rec: "length (cs_records cs) = length ws"
    "drop ?b (index_log ls la (all_files ls ord)) = zip (map w_key ws) (cs_records cs)"
    "cs_last cs = 0 \<and> stable_size ls ord (length ord) \<le> ?b \<or> cs_last cs = length ws \<and> la = []"
    unfolding locals_ok_def by auto
  have i: "st \<noteq> PutActive \<Longrightarrow> i < length ws" "i \<le> length ws" using assms(2,4) by (auto simp: order_inv_def)
  note len = disk_ok_one_ahead(2) [OF t(1)]
  note laws = assms(1) [unfolded libs_ok_def]
  have locals: "locals_ok ls la ord ?b (Publish st' ws cs j) cs" for st' j using lo by (simp add: locals_ok_def)
  have disk: "disk_ok L db' ls la ord" if "disk db' = disk (store s)" "activeFile db' = activeFile (store s)"
    "setting db' = setting (store s)" "stableFiles db' = stableFiles (store s)" for db' :: "('a, 'b) BitcaskImpl"
    by (rule disk_ok_fields [OF t(1) that])
  show ?thesis
  proof (cases st)
    case PutActive
    show ?thesis
    proof (cases "i < length ws")
      case True
      have p: "p = Publish PutIndex ws cs i" and d: "db = (if i \<ge> cs_last cs
          then (store s)\<lparr>activeMap := ActiveMap_Put (lib_amap L) (w_key (ws ! i)) (w_value (ws ! i)) (activeMap (store s))\<rparr>
          else store s)"
        using assms(4,5) PutActive True by auto
      have "ActiveMap_Get (lib_amap L) (activeMap db) = last_write (drop (stable_size ls ord (length ord))
          (take (?b + Suc i) (abs_log ls la (all_files ls ord))))"
      proof (cases "cs_last cs = 0 \<and> stable_size ls ord (length ord) \<le> ?b")
        case c: True
        have "ActiveMap_Get (lib_amap L) (activeMap db) =
            (ActiveMap_Get (lib_amap L) (activeMap (store s)))(w_key (ws ! i) \<mapsto> w_value (ws ! i))"
          using c laws by (simp add: d active.get_put)
        then show ?thesis using turn_active [OF refl t(7) True t(10) [unfolded PutActive active_count.simps]] c by simp
      next
        case c: False
        then have "cs_last cs = length ws" "la = []" using rec(3) by auto
        then have empty: "drop (stable_size ls ord (length ord)) (take m (abs_log ls la (all_files ls ord))) = []" for m
          by (simp add: abs_log_def stable_size_def len)
        have "db = store s" using d True \<open>cs_last cs = length ws\<close> by simp
        then show ?thesis using t(10) unfolding empty by simp
      qed
      moreover have "disk_ok L db ls la ord" by (rule disk) (simp_all add: d)
      moreover have "setting db = setting (store s)" "recordMap db = recordMap (store s)" "disk db = disk (store s)"
        "limit_of db = limit_of (store s)" by (simp_all add: d limit_of_def)
      ultimately show ?thesis using t(2-7,9) locals PutActive unfolding turn_inv_def turn_upd p by simp
    next
      case False
      then have "p = TestRunning" "db = store s" "i = length ws" using assms(4,5) PutActive i(2) by auto
      then show ?thesis using t PutActive unfolding turn_inv_def turn_upd by (simp add: add.assoc)
    qed
  next
    case PutIndex
    have lt: "i < length ws" using i(1) PutIndex by simp
    have p: "p = Publish SetPromise ws cs i"
      and d: "db = (store s)\<lparr>recordMap := RecordMap_Put (lib_rmap L) (w_key (ws ! i)) (cs_records cs ! i) (recordMap (store s))\<rparr>"
      using assms(4,5) PutIndex by auto
    have "(map_of (rev (take (?b + i) (index_log ls la (all_files ls ord)))))(w_key (ws ! i) \<mapsto> cs_records cs ! i) =
        map_of (rev (take (?b + Suc i) (index_log ls la (all_files ls ord))))"
      using turn_index [OF rec(2)] rec(1) lt by simp
    then have "RecordMap_Get (lib_rmap L) (recordMap db) =
        map_of (rev (take (?b + Suc i) (index_log ls la (all_files ls ord))))"
      using t(9) laws PutIndex by (simp add: d index.get_put)
    moreover have "disk_ok L db ls la ord" by (rule disk) (simp_all add: d)
    moreover have "setting db = setting (store s)" "activeMap db = activeMap (store s)" "disk db = disk (store s)"
      "limit_of db = limit_of (store s)" by (simp_all add: d limit_of_def)
    ultimately show ?thesis using t(2-7,10) locals PutIndex unfolding turn_inv_def turn_upd p by simp
  next
    case SetPromise
    then have p: "p = Publish PutActive ws cs (Suc i)" and d: "db = (store s)\<lparr>fulfilled := fulfilled (store s) @ [w_promise (ws ! i)]\<rparr>"
      using assms(4,5) by auto
    have "disk_ok L db ls la ord" by (rule disk) (simp_all add: d)
    moreover have "setting db = setting (store s)" "activeMap db = activeMap (store s)" "disk db = disk (store s)"
      "limit_of db = limit_of (store s)" "recordMap db = recordMap (store s)" by (simp_all add: d limit_of_def)
    ultimately show ?thesis using t(2-7,9,10) locals SetPromise unfolding turn_inv_def turn_upd p by simp
  qed
qed

text \<open>The two steps of a rotation that change what the members show: the insertion and the clearing.\<close>

lemma turn_insert:
  assumes "turn_inv L base n past s ls la ord" and "point s = InsertStable ws cs" and "length ls < 2 ^ 32"
  shows "turn_inv L base n past (s\<lparr>store := insert_stable (cs_new cs) (store s), point := ClearActive ws cs\<rparr>)
      ls la (all_files ls ord)"
    and "grown ls la ord ls la (all_files ls ord)"
proof -
  let ?db = "insert_stable (cs_new cs) (store s)" and ?b = "length base + length past"
  note t = turn_invD [OF assms(1), unfolded assms(2) files_at.simps cleared.simps written_simps index_count.simps active_count.simps]
  have d: "disk_ok L ?db ls la (all_files ls ord)"
    using loop_to_disk [OF t(1) assms(3)] by (simp add: all_files_def)
  note o = disk_ok_one_ahead [OF d]
  have all: "all_files ls (all_files ls ord) = all_files ls ord" using o(2) by simp
  show "grown ls la ord ls la (all_files ls ord)"
    unfolding grown_def all by (simp add: all_files_def)
  have card: "card (set ord) = length ord" by (rule distinct_card [OF t(2)])
  have new: "length ls = length ord + length (cs_new cs)" using in_loop_new [OF t(1)] card by simp
  then have cl: "cleared (ClearActive ws cs) (all_files ls ord) = length ord" by (simp add: all_files_def)
  have lt: "\<forall>j \<in> set ord. j < length ls" unfolding t(3) new by auto
  have st: "stable_size ls (all_files ls ord) (length ord) = stable_size ls ord (length ord)"
    using stable_size_grown [OF lt le_refl, of "[]" "[length ord..<length ls]"] by (simp add: all_files_def)
  have lo: "locals_ok ls la ord ?b (InsertStable ws cs) cs" using t(8) by simp
  have same: "all_files ls ord = ord" if "cs_new cs = []" using new that by simp
  have "locals_ok ls la (all_files ls ord) ?b (ClearActive ws cs) cs"
    using lo same unfolding locals_ok_def all by auto
  then have loc: "\<forall>cs'. locals_of (ClearActive ws cs) = Some cs' \<longrightarrow>
      locals_ok ls la (all_files ls ord) ?b (ClearActive ws cs) cs'" by simp
  have f: "disk ?db = disk (store s)" "setting ?db = setting (store s)" "recordMap ?db = recordMap (store s)"
    "activeMap ?db = activeMap (store s)" "limit_of ?db = limit_of (store s)"
    by (simp_all add: insert_stable_def limit_of_def)
  show "turn_inv L base n past (s\<lparr>store := ?db, point := ClearActive ws cs\<rparr>) ls la (all_files ls ord)"
    unfolding turn_inv_def turn_upd f files_at.simps cl st all written_simps index_count.simps active_count.simps
    using d o(3,4) t(4-7,9,10) loc by blast
qed

lemma turn_clear:
  assumes "libs_ok L" and "turn_inv L base n past s ls la ord" and "point s = ClearActive ws cs"
  shows "turn_inv L base n past (s\<lparr>store := clear_active L (cs_new cs) (store s), point := Publish PutActive ws cs 0\<rparr>)
      ls la ord"
proof -
  let ?db = "clear_active L (cs_new cs) (store s)" and ?b = "length base + length past"
  note t = turn_invD [OF assms(2), unfolded assms(3) files_at.simps cleared.simps written_simps index_count.simps active_count.simps]
  have f: "disk ?db = disk (store s)" "setting ?db = setting (store s)" "recordMap ?db = recordMap (store s)"
    "limit_of ?db = limit_of (store s)" "activeFile ?db = activeFile (store s)" "stableFiles ?db = stableFiles (store s)"
    by (simp_all add: clear_active_def limit_of_def)
  have d: "disk_ok L ?db ls la ord" by (rule disk_ok_fields [OF t(1)]) (simp_all add: f)
  have lo: "locals_ok ls la ord ?b (ClearActive ws cs) cs" using t(8) by simp
  then have "locals_ok ls la ord ?b (Publish PutActive ws cs 0) cs" by (simp add: locals_ok_def)
  then have loc: "\<forall>cs'. locals_of (Publish PutActive ws cs 0) = Some cs' \<longrightarrow>
      locals_ok ls la ord ?b (Publish PutActive ws cs 0) cs'" by simp
  have "ActiveMap_Get (lib_amap L) (activeMap ?db) =
      last_write (drop (stable_size ls ord (length ord)) (take (?b + 0) (abs_log ls la (all_files ls ord))))"
  proof (cases "cs_new cs = []")
    case True
    then show ?thesis using t(10) by simp
  next
    case False
    then have "la = []" using lo by (auto simp: locals_ok_def)
    then have "drop (stable_size ls ord (length ord)) (take (?b + 0) (abs_log ls la (all_files ls ord))) = []"
      by (simp add: abs_log_def stable_size_def disk_ok_one_ahead(2) [OF t(1)])
    moreover have "ActiveMap_Get (lib_amap L) (activeMap ?db) = Map.empty"
      using False assms(1) by (simp add: clear_active_def libs_ok_def active.get_clr)
    ultimately show ?thesis by (simp add: last_write_def)
  qed
  then show ?thesis
    unfolding turn_inv_def turn_upd f files_at.simps written_simps index_count.simps active_count.simps cleared.simps
    using d t(2-7,9) loc by blast
qed

lemma turn_step:
  assumes "libs_ok L" and "order_inv h past s" and "turn_inv L base n past s ls la ord" and "point s \<noteq> Gone"
    and "limit_of (store s) \<le> 2 ^ 31" and "fitting n h" and "commit_step L (point s) (store s) = Inr (p, db)"
    and "tidy s" and "tidy (s\<lparr>store := db, point := p\<rparr>)"
  shows "\<exists>ls' la' ord'. turn_inv L base n (if p = TestRunning then past @ held (point s) else past)
      (s\<lparr>store := db, point := p\<rparr>) ls' la' ord' \<and> grown ls la ord ls' la' ord'"
proof -
  let ?b = "length base + length past"
  have h: "h = past @ held (point s) @ pending (store s)" using assms(2) by (simp add: order_inv_def)
  have len: "length ls < 2 ^ 31" by (rule turn_room [OF assms(2,3,6)])
  then have len32: "length ls < 2 ^ 32" "Suc (length ls) < 2 ^ 32" by simp_all
  note t = turn_invD [OF assms(3)]
  have stay: ?thesis if "turn_inv L base n (if p = TestRunning then past @ held (point s) else past)
      (s\<lparr>store := db, point := p\<rparr>) ls la ord"
    using that grown_refl by blast
  show ?thesis
  proof (cases "point s")
    case TakeBatch
    then have p: "p = WriteFiles (pending (store s)) (pending (store s)) (commit_start (store s))"
      and d: "db = (store s)\<lparr>pending := []\<rparr>" using assms(7) by auto
    note t = t [unfolded TakeBatch files_at.simps cleared.simps written_simps index_count.simps active_count.simps]
    have full: "length (abs_log ls la (all_files ls ord)) = ?b" unfolding t(7) by simp
    have "locals_ok ls la ord ?b p (commit_start (store s))"
      using stable_size_le [of ls ord la] full
      by (simp add: p locals_ok_def commit_start_def written_def length_index)
    then have loc: "\<forall>cs. locals_of p = Some cs \<longrightarrow> locals_ok ls la ord ?b p cs" by (simp add: p)
    have w: "written p = []" by (simp add: p written_def)
    have f: "disk db = disk (store s)" "setting db = setting (store s)" "recordMap db = recordMap (store s)"
      "activeMap db = activeMap (store s)" "limit_of db = limit_of (store s)" by (simp_all add: d limit_of_def)
    have "files_at L p db ls la ord" using start_in_loop [OF t(1)] by (simp add: p d)
    then have "turn_inv L base n past (s\<lparr>store := db, point := p\<rparr>) ls la ord"
      unfolding turn_inv_def turn_upd f w using t(2-7,9,10) loc by (simp add: p)
    then show ?thesis using stay by (simp add: p)
  next
    case (WriteFiles ws left cs)
    show ?thesis
    proof (cases left)
      case Nil
      then have p: "p = InsertStable ws cs" "db = store s" using assms(7) WriteFiles by auto
      have "turn_inv L base n past (s\<lparr>store := db, point := p\<rparr>) ls la ord"
        using t WriteFiles Nil unfolding turn_inv_def turn_upd p by (auto simp: locals_ok_def)
      then show ?thesis using stay by (simp add: p)
    next
      case (Cons w left')
      obtain pre where ws: "ws = pre @ w # left'" using assms(2) WriteFiles Cons by (auto simp: order_inv_def)
      obtain cs' where c: "commit_write L w cs (store s) = Inr (cs', db)" "p = WriteFiles ws left' cs'"
        using assms(7) WriteFiles Cons by (auto split: sum.splits)
      have fit: "fits_record (w_key w) (w_value w)" using assms(6) h WriteFiles ws by (simp add: fitting_def)
      have "cs_new cs = []" using assms(8) WriteFiles Cons by (simp add: tidy_def)
      moreover have "left' \<noteq> [] \<longrightarrow> cs_new cs' = []" using assms(9) c(2) by (cases left') (simp_all add: tidy_def)
      ultimately show ?thesis
        using turn_write [OF assms(3) WriteFiles [unfolded Cons ws] assms(5) fit len32(2) _ c(1)] c(2) ws by auto
    qed
  next
    case (InsertStable ws cs)
    then have "p = ClearActive ws cs" "db = insert_stable (cs_new cs) (store s)" using assms(7) by auto
    then show ?thesis using turn_insert [OF assms(3) InsertStable len32(1)] by auto
  next
    case (ClearActive ws cs)
    then have "p = Publish PutActive ws cs 0" "db = clear_active L (cs_new cs) (store s)" using assms(7) by auto
    then show ?thesis using turn_clear [OF assms(1,3) ClearActive] stay by simp
  next
    case (Publish st ws cs i)
    show ?thesis
      by (rule stay, unfold Publish held.simps) (rule turn_publish [OF assms(1-3) Publish assms(7)])
  next
    case TestRunning
    then have "db = store s" "p = TakeBatch \<or> p = Gone" using assms(7) by (auto split: if_splits)
    then show ?thesis using stay t TestRunning unfolding turn_inv_def turn_upd by auto
  next
    case Gone
    then show ?thesis using assms(4) by simp
  qed
qed

text \<open>The steps of the clients leave it alone.\<close>

lemma turn_cong:
  assumes "turn_inv L base n past s ls la ord" and "client_moved (store s) (store s')" and "point s' = point s"
  shows "turn_inv L base n past s' ls la ord"
proof -
  have same: "disk (store s') = disk (store s)" "setting (store s') = setting (store s)"
    "activeFile (store s') = activeFile (store s)" "activeMap (store s') = activeMap (store s)"
    "recordMap (store s') = recordMap (store s)"
    using assms(2) stream_moved_fields [of "store s" "store s'"] unfolding client_moved_def by blast+
  have h: "stable_handles d js (stableFiles (store s)) \<Longrightarrow> \<forall>j \<in> set js. j < 2 ^ 32 \<Longrightarrow> stable_handles d js (stableFiles (store s'))"
    for d js using assms(2) stream_moved_handles [of "store s" "store s'"] unfolding client_moved_def by metis
  have at: "files_at L (point s) (store s) ls la ord \<Longrightarrow> files_at L (point s) (store s') ls la ord"
    using files_at_cong [OF _ same(1,3,2)] h by blast
  have "limit_of (store s') = limit_of (store s)" by (simp add: limit_of_def same)
  then show ?thesis using assms(1) at unfolding turn_inv_def assms(3) same by simp
qed

text \<open>The whole state of a run: the queue, the files and the maps.\<close>

definition turning :: "('am, 'rm) libs \<Rightarrow> kvs \<Rightarrow> nat \<Rightarrow> Write list \<Rightarrow> Write list \<Rightarrow> ('am, 'rm) threads
    \<Rightarrow> kvs list \<Rightarrow> kvs \<Rightarrow> nat list \<Rightarrow> bool" where
  "turning L base n h past s ls la ord \<longleftrightarrow> libs_ok L \<and> limit_of (store s) \<le> 2 ^ 31 \<and> tidy s
     \<and> order_inv h past s \<and> turn_inv L base n past s ls la ord"

lemma turning_step:
  assumes "turning L base n h past s ls la ord" and "thread_step L s e s'" and "fitting n (h @ written_by e)" and "tidy s'"
  shows "\<exists>ls' la' ord'. turning L base n (h @ written_by e) (next_past past s e s') s' ls' la' ord'
     \<and> grown ls la ord ls' la' ord'"
proof -
  have q: "libs_ok L" "limit_of (store s) \<le> 2 ^ 31" "tidy s" "order_inv h past s" "turn_inv L base n past s ls la ord"
    using assms(1) by (simp_all add: turning_def)
  have lim: "limit_of (store s') \<le> 2 ^ 31" using q(2) thread_setting [OF assms(2)] by (simp add: limit_of_def)
  have "\<exists>ls' la' ord'. turn_inv L base n (next_past past s e s') s' ls' la' ord' \<and> grown ls la ord ls' la' ord'"
  proof (cases "e = WorkerMoves")
    case True
    then obtain p db1 where w: "point s \<noteq> Gone" "commit_step L (point s) (store s) = Inr (p, db1)"
      "s' = s\<lparr>store := db1, point := p\<rparr>"
      using assms(2) by (auto simp: thread_step_simps)
    have "fitting n h" by (rule fitting_prefix [OF assms(3)])
    from turn_step [OF q(1,4,5) w(1) q(2) this w(2) q(3) assms(4) [unfolded w(3)]]
    show ?thesis using True w(3) by (simp add: next_past_def)
  next
    case False
    from turn_cong [OF q(5) client_step(2,1) [OF assms(2) False]] False show ?thesis
      unfolding next_past_def by (auto intro: grown_refl)
  qed
  then show ?thesis using q(1) lim assms(4) order_inv_step [OF q(4) assms(2)] unfolding turning_def by blast
qed

lemma turning_started:
  assumes "opened L ls la ord db"
  shows "turning L (abs_log ls la ord) (length ls) [] [] (started db) ls la ord"
proof -
  have o: "libs_ok L" "just_started db" "disk_ok L db ls la ord" "index_ok L db ls la ord"
    "dir_ok (disk db) (GetDbPath (setting db)) (length ls)" "limit_of db \<le> 2 ^ 31" "log_size la < limit_of db + max_record"
    using assms by (simp_all add: opened_def store_ok_disk_ok)
  note d = disk_ok_one_ahead [OF o(3)]
  have f: "store (started db) = db" "point (started db) = TakeBatch" by (simp_all add: started_def)
  have "order_inv [] [] (started db)" using o(2) by (simp add: order_inv_def started_def just_started_def)
  moreover have "turn_inv L (abs_log ls la ord) (length ls) [] (started db) ls la ord"
    using o d by (simp add: turn_inv_def f index_ok_def stable_size_def length_index [symmetric] last_write_def)
      (simp add: abs_log_def)
  ultimately show ?thesis using o(1,6) by (simp add: turning_def f tidy_def)
qed

end
