(* ===== verification/RotatingReads.thy ===== *)
theory RotatingReads
  imports Rotation
begin

text \<open>
  Reads that overlap rotations, under the invariant of theory \<open>Rotation\<close>: what a reader knows at each
  place of \<open>Get\<close>, how the steps of the other threads keep it, and what it returns.
\<close>

section \<open>What a reader knows across rotations\<close>

text \<open>
  A reader that looked into the index when it showed the first \<open>n\<close> records of the log. One that found
  its key in the active file found it among the records after the first \<open>m\<close> stable files, those there
  were when it compared the numbers.
\<close>

fun reader_in :: "('am, 'rm) BitcaskImpl \<Rightarrow> kvs list \<Rightarrow> kvs \<Rightarrow> nat list \<Rightarrow> nat \<Rightarrow> nat \<Rightarrow> key \<Rightarrow> reader \<Rightarrow> bool" where
  "reader_in db ls la ord d n k (Looked r) = (r = map_of (rev (take n (index_log ls la (all_files ls ord)))) k)"
| "reader_in db ls la ord d n k (Staged Miss) = (map_of (rev (take n (index_log ls la (all_files ls ord)))) k = None)"
| "reader_in db ls la ord d n k (Staged InActive) = (\<exists>m \<ge> d. m \<le> length ord
     \<and> last_write (drop (stable_size ls ord m) (take n (abs_log ls la (all_files ls ord)))) k \<noteq> None)"
| "reader_in db ls la ord d n k (Staged (InStable h)) =
     (map_of (rev (take n (index_log ls la (all_files ls ord)))) k = Some h \<and> (\<exists>j < length ord. hint_fd h = word_of_nat j))"
| "reader_in db ls la ord d n k (Sought h) =
     (map_of (rev (take n (index_log ls la (all_files ls ord)))) k = Some h \<and> (\<exists>j < length ord. hint_fd h = word_of_nat j)
      \<and> positioned db h)"

lemma reader_grown:
  assumes "reader_in db ls la ord d n k r" and "grown ls la ord ls' la' ord'" and "one_ahead ls la ord"
    and "n \<le> length (abs_log ls la (all_files ls ord))" and "\<And>h. r = Sought h \<Longrightarrow> positioned db h \<Longrightarrow> positioned db' h"
  shows "reader_in db' ls' la' ord' d n k r"
proof -
  obtain xs ys us vs where g: "ls' = ls @ xs" "ord' = ord @ ys"
    "index_log ls' la' (all_files ls' ord') = index_log ls la (all_files ls ord) @ us"
    "abs_log ls' la' (all_files ls' ord') = abs_log ls la (all_files ls ord) @ vs"
    using assms(2) unfolding grown_def by blast
  have ix: "take n (index_log ls' la' (all_files ls' ord')) = take n (index_log ls la (all_files ls ord))"
    and ab: "take n (abs_log ls' la' (all_files ls' ord')) = take n (abs_log ls la (all_files ls ord))"
    unfolding g(3,4) using assms(4) by (simp_all add: length_index)
  have st: "m \<le> length ord \<Longrightarrow> stable_size ls' ord' m = stable_size ls ord m" for m
    unfolding g(1,2) by (rule stable_size_grown [OF one_ahead_lt(2) [OF assms(3)]])
  have le: "length ord \<le> length ord'" by (simp add: g(2))
  show ?thesis
  proof (cases r)
    case (Looked hint)
    then show ?thesis using assms(1) by (simp add: ix)
  next
    case (Staged stage)
    show ?thesis
    proof (cases stage)
      case InActive
      then obtain m where "d \<le> m" "m \<le> length ord"
        "last_write (drop (stable_size ls ord m) (take n (abs_log ls la (all_files ls ord)))) k \<noteq> None"
        using assms(1) Staged by auto
      then show ?thesis unfolding Staged InActive reader_in.simps ab using st le by (metis le_trans)
    qed (use assms(1) Staged le in \<open>auto simp: ix dest: less_le_trans\<close>)
  next
    case (Sought h)
    then show ?thesis using assms(1,5) le by (auto simp: ix dest: less_le_trans)
  qed
qed

lemma turn_handles:
  assumes "turn_inv L base n past s ls la ord"
  shows "stable_handles (GetDbPath (setting (store s))) ord (stableFiles (store s))"
    and "length (stableFiles (store s)) = length ord"
    and "getActiveFD (store s) = word_of_nat (length ord)"
proof -
  show h: "stable_handles (GetDbPath (setting (store s))) ord (stableFiles (store s))"
    by (rule files_at_handles [OF turn_invD(1) [OF assms]])
  show len: "length (stableFiles (store s)) = length ord" by (rule stable_handles_length [OF h])
  show "getActiveFD (store s) = word_of_nat (length ord)" by (simp add: getActiveFD_def len)
qed

lemma turn_stable_file:
  assumes "turn_inv L base n past s ls la ord" and "length ls < 2 ^ 32" and "j < length ord"
  obtains sf where "map_of (stableFiles (store s)) (word_of_nat j) = Some sf"
    and "sf_on (db_file (GetDbPath (setting (store s))) j) sf"
proof -
  have "length ord \<le> length ls" by (rule one_ahead_lt(4) [OF turn_one_ahead [OF assms(1,2)]])
  then have "\<forall>j \<in> set ord. j < 2 ^ 32" using assms(2) unfolding turn_invD(3) [OF assms(1)] by simp
  moreover have "j \<in> set ord" using assms(3) unfolding turn_invD(3) [OF assms(1)] by simp
  ultimately show thesis using stable_handles_lookup [OF turn_handles(1) [OF assms(1)]] that by blast
qed

lemma turn_reader_moves:
  assumes "turn_inv L base n past s ls la ord" and "length ls < 2 ^ 32" and "reader_in (store s) ls la ord d m k r"
    and "Get_step L k r (store s) = Inr (Inl r', db')" and "d \<le> length ord"
  shows "reader_in db' ls la ord d m k r'"
proof (cases r)
  case (Looked hint)
  note ahead = turn_one_ahead [OF assms(1,2)]
  show ?thesis
  proof (cases hint)
    case None
    then show ?thesis using assms(3,4) Looked by (auto simp: compare_fd_def)
  next
    case (Some h)
    have ix: "map_of (rev (take m (index_log ls la (all_files ls ord)))) k = Some h" using assms(3) Looked Some by simp
    have r': "r' = Staged (if hint_fd h = word_of_nat (length ord) then InActive else InStable h)"
      using assms(4) Looked Some turn_handles(3) [OF assms(1)] by (auto simp: compare_fd_def)
    show ?thesis
    proof (cases "hint_fd h = word_of_nat (length ord)")
      case True
      then show ?thesis unfolding r' using hint_number(1) [OF ahead ix True] assms(5) by auto
    next
      case False
      then show ?thesis unfolding r' using hint_number(2) [OF ahead ix False] ix by simp
    qed
  qed
next
  case (Staged stage)
  show ?thesis
  proof (cases stage)
    case (InStable h)
    obtain j where h: "map_of (rev (take m (index_log ls la (all_files ls ord)))) k = Some h" "j < length ord"
      "hint_fd h = word_of_nat j"
      using assms(3) Staged InStable by auto
    obtain sf where sf: "map_of (stableFiles (store s)) (hint_fd h) = Some sf"
      "sf_on (db_file (GetDbPath (setting (store s))) j) sf"
      unfolding h(3) by (rule turn_stable_file [OF assms(1,2) h(2)])
    obtain fh where "StableFile_seek sf (hint_offset h) = Inr (sf\<lparr>sf_file := Some fh\<rparr>)"
        "st_good fh" "st_pos fh = unat (hint_offset h)"
      by (rule StableFile_seek_good [OF sf(2)])
    then show ?thesis using assms(4) Staged InStable sf(1) h by (auto simp: positioned_def)
  qed (use assms(4) Staged in \<open>simp_all add: Let_def\<close>)
next
  case (Sought h)
  then show ?thesis using assms(4) by (auto split: option.splits sum.splits)
qed

lemma last_write_later:
  assumes "last_write (drop c (take n FL)) k \<noteq> None" and "c' \<le> c" and "n \<le> n'"
  shows "last_write (drop c' (take n' FL)) k \<noteq> None"
proof -
  have "set (drop c (take n FL)) \<subseteq> set (drop c' (take n FL))" by (rule set_drop_subset_set_drop [OF assms(2)])
  also have "\<dots> \<subseteq> set (drop c' (take n' FL))"
    unfolding drop_take by (rule set_take_subset_set_take) (use assms(3) in simp)
  finally have "fst ` set (drop c (take n FL)) \<subseteq> fst ` set (drop c' (take n' FL))" by (rule image_mono)
  then show ?thesis using assms(1) by (auto simp: last_write_def map_of_eq_None_iff)
qed

lemma last_write_drop: "last_write (drop c FL) k = Some v \<Longrightarrow> last_write FL k = Some v"
  using last_write_append [of "take c FL" "drop c FL" k] by simp

lemma stable_size_mono: "m \<le> m' \<Longrightarrow> stable_size ls ord m \<le> stable_size ls ord m'"
proof -
  assume "m \<le> m'"
  then have "take m' ord = take m ord @ take (m' - m) (drop m ord)" by (metis le_add_diff_inverse take_add)
  then show ?thesis by (simp add: stable_size_def)
qed

lemma cleared_le: "cleared p ord \<le> length ord"
  by (cases "(p, ord)" rule: cleared.cases) simp_all

text \<open>What a reader returns: the value after the records it saw in the index, if these do not have its key
  or have it in a stable file; the value after those the map of the active file shows by now, if it saw its key
  in that file or a rotation has added a file since; or nothing, when a rotation has cleared this map since.\<close>

lemma turn_reader_returns:
  assumes "turn_inv L base n past s ls la ord" and "length ls < 2 ^ 32" and "reader_in (store s) ls la ord d m k r"
    and "Get_step L k r (store s) = Inr (Inr v, db')" and "m \<le> length base + length past + active_count (point s)"
  shows "v = abs_get (take m (abs_log ls la (all_files ls ord))) k
       \<and> (\<forall>h. map_of (rev (take m (index_log ls la (all_files ls ord)))) k = Some h \<longrightarrow>
            (\<exists>j < length ord. hint_fd h = word_of_nat j))
     \<or> v = abs_get (take (length base + length past + active_count (point s)) (abs_log ls la (all_files ls ord))) k
       \<and> (d < length (stableFiles (store s))
          \<or> last_write (drop (stable_size ls ord (length ord)) (take m (abs_log ls la (all_files ls ord)))) k \<noteq> None)
     \<or> v = None \<and> d < length (stableFiles (store s))"
proof (cases r)
  case (Looked hint)
  then show ?thesis using assms(4) by simp
next
  case (Staged stage)
  show ?thesis
  proof (cases stage)
    case Miss
    have "last_write (take m (abs_log ls la (all_files ls ord))) k = None"
      using beginning_lookup [OF turn_one_ahead [OF assms(1,2)], of undefined m k] assms(3) Staged Miss
      by (simp add: option.rel_sel)
    then show ?thesis using assms(3,4) Staged Miss by (simp add: abs_get_def visible_def)
  next
    case InActive
    obtain j where j: "d \<le> j" "j \<le> length ord"
      "last_write (drop (stable_size ls ord j) (take m (abs_log ls la (all_files ls ord)))) k \<noteq> None"
      using assms(3) Staged InActive by auto
    let ?M = "length base + length past + active_count (point s)" and ?FL = "abs_log ls la (all_files ls ord)"
    let ?c = "stable_size ls ord (cleared (point s) ord)"
    have act: "ActiveMap_Get (lib_amap L) (activeMap (store s)) k = last_write (drop ?c (take ?M ?FL)) k"
      using turn_invD(10) [OF assms(1)] by simp
    have v: "v = (if last_write (drop ?c (take ?M ?FL)) k = Some TOMBSTONE then None
        else last_write (drop ?c (take ?M ?FL)) k)"
      using assms(4) Staged InActive unfolding act [symmetric] by (auto simp: Let_def)
    show ?thesis
    proof (cases "last_write (drop ?c (take ?M ?FL)) k")
      case None
      have "\<not> ?c \<le> stable_size ls ord j" using last_write_later [OF j(3) _ assms(5)] None by blast
      then have "j < cleared (point s) ord" using stable_size_mono not_le by blast
      then have "d < length (stableFiles (store s))"
        using j(1) cleared_le [of "point s" ord] turn_handles(2) [OF assms(1)] by linarith
      then show ?thesis using v None by simp
    next
      case (Some u)
      from last_write_drop [OF Some] have "v = abs_get (take ?M ?FL) k"
        using v Some by (simp add: abs_get_def visible_def)
      moreover have "j < length ord \<Longrightarrow> d < length (stableFiles (store s))" using j(1) turn_handles(2) [OF assms(1)] by simp
      ultimately show ?thesis using j(2,3) by (cases "j = length ord") auto
    qed
  next
    case (InStable h)
    obtain j where h: "j < length ord" "hint_fd h = word_of_nat j" using assms(3) Staged InStable by auto
    obtain sf where "map_of (stableFiles (store s)) (hint_fd h) = Some sf"
      unfolding h(2) by (rule turn_stable_file [OF assms(1,2) h(1)])
    then show ?thesis using assms(4) Staged InStable by (auto split: sum.splits)
  qed
next
  case (Sought h)
  let ?d = "GetDbPath (setting (store s))"
  obtain j where h: "map_of (rev (take m (index_log ls la (all_files ls ord)))) k = Some h" "j < length ord"
    "hint_fd h = word_of_nat j" and pos: "positioned (store s) h"
    using assms(3) Sought by auto
  obtain sf where sf: "map_of (stableFiles (store s)) (hint_fd h) = Some sf" "sf_on (db_file ?d j) sf"
    unfolding h(3) by (rule turn_stable_file [OF assms(1,2) h(2)])
  obtain fh where fh: "sf_file sf = Some fh" "st_good fh" "st_pos fh = unat (hint_offset h)"
    using pos sf(1) by (auto simp: positioned_def)
  have p: "st_file fh = Some (db_file ?d j)" using sf(2) fh(1) by (simp add: sf_on_def)
  obtain u where u: "last_write (take m (abs_log ls la (all_files ls ord))) k = Some u"
    and c: "unat (hint_offset h) + unat (hint_size h) \<le> length (file_content (disk (store s)) (db_file ?d j))"
      "take (unat (hint_size h)) (drop (unat (hint_offset h)) (file_content (disk (store s)) (db_file ?d j))) = u"
    by (rule beginning_place [OF turn_one_ahead [OF assms(1,2)] files_at_files_ok [OF turn_invD(1) [OF assms(1)]] h(1,3,2)])
  from StableFile_take_slice [OF fh(1,2) p, of "hint_size h" "disk (store s)"] c fh(3)
  obtain sf' where "StableFile_take (disk (store s)) sf (hint_size h) = Inr (u, sf')" by auto
  then have "v = abs_get (take m (abs_log ls la (all_files ls ord))) k"
    using assms(4) Sought sf(1) u by (auto simp: abs_get_def visible_def)
  then show ?thesis using h by auto
qed

section \<open>The writes in effect\<close>

text \<open>
  How many writes of the history every \<open>Get\<close> of the moment takes as done: those acknowledged, and the one
  being published once the index shows it, or already when the map of the active file does, if the index
  sends the readers of its key to this map.
\<close>

definition effective :: "('am, 'rm) libs \<Rightarrow> ('am, 'rm) threads \<Rightarrow> nat" where
  "effective L s = length (fulfilled (store s)) + (case point s of
       Publish SetPromise ws cs i \<Rightarrow> 1
     | Publish PutIndex ws cs i \<Rightarrow>
         (case RecordMap_Get (lib_rmap L) (recordMap (store s)) (w_key (ws ! i)) of
            None \<Rightarrow> 0 | Some h \<Rightarrow> if hint_fd h = getActiveFD (store s) then 1 else 0)
     | _ \<Rightarrow> 0)"

lemma effective_bounds:
  "length (fulfilled (store s)) \<le> effective L s" "effective L s \<le> Suc (length (fulfilled (store s)))"
  by (auto simp: effective_def split: point.split statement.split option.split)

lemma length_update: "map_of m k = Some u \<Longrightarrow> length (AList.update k v m) = length m"
  by (induction m) (auto split: if_splits)

lemma client_same_count: "client_moved db db' \<Longrightarrow> length (stableFiles db') = length (stableFiles db)"
  by (auto simp: client_moved_def stream_moved_def length_update)

text \<open>A write in effect stays in effect.\<close>

lemma effective_grows:
  assumes "order_inv h past s" and "thread_step L s e s'" shows "effective L s \<le> effective L s'"
proof (cases "e = WorkerMoves")
  case True
  then obtain p db where w: "commit_step L (point s) (store s) = Inr (p, db)" "s' = s\<lparr>store := db, point := p\<rparr>"
    using assms(2) by (auto simp: thread_step_simps)
  then show ?thesis
    by (cases "(L, point s, store s)" rule: commit_step.cases)
      (auto simp: effective_def insert_stable_def clear_active_def split: sum.splits if_splits option.splits dest!: commit_write_fields)
next
  case False
  note c = client_step [OF assms(2) False]
  have "recordMap (store s') = recordMap (store s)"
    using c(2) stream_moved_fields [of "store s" "store s'"] by (auto simp: client_moved_def)
  moreover have "getActiveFD (store s') = getActiveFD (store s)" by (simp add: getActiveFD_def client_same_count [OF c(2)])
  moreover have "length (fulfilled (store s')) = length (fulfilled (store s))"
    using order_inv_numbers(2) [OF assms(1)] order_inv_numbers(2) [OF order_inv_step [OF assms]] c(1) False
    by (simp add: next_past_def)
  ultimately have "effective L s' = effective L s" unfolding effective_def c(1) by (simp only:)
  then show ?thesis by simp
qed

lemma effective_run:
  "thread_run L s0 es s \<Longrightarrow> order_inv h past s0 \<Longrightarrow> effective L s0 \<le> effective L s \<and> (\<exists>past. order_inv (h @ history es) past s)"
proof (induction rule: thread_run.induct)
  case (run_step es s e s')
  then obtain past where o: "order_inv (h @ history es) past s" "effective L s0 \<le> effective L s" by blast
  from order_inv_step [OF o(1) run_step.hyps(2)] effective_grows [OF o(1) run_step.hyps(2)] o(2) show ?case by auto
qed auto

section \<open>Reads are linearizable up to a rotation\<close>

inductive tidy_run :: "('am, 'rm) libs \<Rightarrow> ('am, 'rm) threads \<Rightarrow> happening list \<Rightarrow> ('am, 'rm) threads \<Rightarrow> bool"
  for L :: "('am, 'rm) libs" and s0 :: "('am, 'rm) threads" where
  tidy_start: "tidy_run L s0 [] s0"
| tidy_step: "tidy_run L s0 es s \<Longrightarrow> thread_step L s e s' \<Longrightarrow> stream_free s e \<Longrightarrow> tidy s' \<Longrightarrow> tidy_run L s0 (es @ [e]) s'"

lemma tidy_is_locked: "tidy_run L s0 es s \<Longrightarrow> locked_run L s0 es s"
  by (induction rule: tidy_run.induct) (auto intro: locked_run.intros)

lemma turning_run:
  assumes "opened L ls0 la0 ord0 db" and "tidy_run L (started db) es s" and "fitting (length ls0) (history es)"
  shows "\<exists>past ls la ord. turning L (abs_log ls0 la0 ord0) (length ls0) (history es) past s ls la ord"
  using assms(2,3)
proof (induction rule: tidy_run.induct)
  case tidy_start
  show ?case using turning_started [OF assms(1)] by auto
next
  case (tidy_step es s e s')
  have fit: "fitting (length ls0) (history es @ written_by e)" using tidy_step.prems by simp
  obtain past ls la ord where "turning L (abs_log ls0 la0 ord0) (length ls0) (history es) past s ls la ord"
    using tidy_step.IH [OF fitting_prefix [OF fit]] by blast
  from turning_step [OF this tidy_step.hyps(2) fit tidy_step.hyps(4)] show ?case by auto
qed

text \<open>The records of the log that the maps show are the first writes of the history.\<close>

lemma turning_prefix:
  assumes "turning L base n h past s ls la ord" and "m \<le> length past + active_count (point s)"
  shows "take (length base + m) (abs_log ls la (all_files ls ord)) = base @ batch (take m h)"
    and "length base + m \<le> length (abs_log ls la (all_files ls ord))" and "m \<le> length h"
proof -
  have o: "order_inv h past s" and t: "turn_inv L base n past s ls la ord" using assms(1) by (simp_all add: turning_def)
  have h: "h = past @ held (point s) @ pending (store s)" using o by (simp add: order_inv_def)
  have "active_count (point s) \<le> length (written (point s))"
    using counts_held [OF o] by (cases "point s" rule: active_count.cases) simp_all
  then have m: "m \<le> length (past @ written (point s))" using assms(2) by simp
  obtain ws where "held (point s) = written (point s) @ ws" unfolding written_def by (metis append_take_drop_id)
  then have "h = (past @ written (point s)) @ ws @ pending (store s)" unfolding h by simp
  then have "take m h = take m (past @ written (point s))" and "m \<le> length h" using m by simp_all
  then show "take (length base + m) (abs_log ls la (all_files ls ord)) = base @ batch (take m h)" and "m \<le> length h"
    unfolding turn_invD(7) [OF t] by (simp_all add: batch_take)
  show "length base + m \<le> length (abs_log ls la (all_files ls ord))" unfolding turn_invD(7) [OF t] using m by simp
qed

text \<open>What the writes in effect are, against those that the index and the map of the active file show.\<close>

lemma abs_get_snoc: "fst r \<noteq> k \<Longrightarrow> abs_get (rs @ [r]) k = abs_get rs k"
  by (simp add: abs_get_def)

lemma effective_turn:
  fixes L :: "('am, 'rm) libs" and k :: key
  assumes "turning L base n h past s ls la ord"
  defines "log m \<equiv> base @ batch (take m h)"
    and "active \<equiv> \<exists>i. RecordMap_Get (lib_rmap L) (recordMap (store s)) k = Some i \<and> hint_fd i = getActiveFD (store s)"
  shows "effective L s \<le> length past + active_count (point s)"
    and "abs_get (log (effective L s)) k = abs_get (log (length past + index_count (point s))) k \<or> active"
    and "abs_get (log (effective L s)) k = abs_get (log (length past + active_count (point s))) k \<or> \<not> active"
proof -
  have o: "order_inv h past s" using assms(1) by (simp add: turning_def)
  note f = order_past(4) [OF o]
  have "effective L s \<le> length past + active_count (point s)
     \<and> (abs_get (log (effective L s)) k = abs_get (log (length past + index_count (point s))) k \<or> active)
     \<and> (abs_get (log (effective L s)) k = abs_get (log (length past + active_count (point s))) k \<or> \<not> active)"
  proof (cases "\<exists>ws cs i. point s = Publish PutIndex ws cs i")
    case False
    then have "effective L s = length past + index_count (point s) \<and> index_count (point s) = active_count (point s)"
      using f by (cases "point s" rule: active_count.cases) (auto simp: effective_def)
    then show ?thesis by simp
  next
    case True
    then obtain ws cs i where p: "point s = Publish PutIndex ws cs i" by blast
    have i: "i < length ws" using o p unfolding order_inv_def by (metis statement.distinct(1))
    have "h = past @ ws @ pending (store s)" using o p by (simp add: order_inv_def)
    then have "take (Suc (length past + i)) h = take (length past + i) h @ [ws ! i]"
      using i by (simp add: take_Suc_conv_app_nth nth_append)
    then have next_log: "log (Suc (length past + i)) = log (length past + i) @ [(w_key (ws ! i), w_value (ws ! i))]"
      by (simp add: log_def)
    have same: "w_key (ws ! i) \<noteq> k \<Longrightarrow> abs_get (log (Suc (length past + i))) k = abs_get (log (length past + i)) k"
      unfolding next_log by (rule abs_get_snoc) simp
    have e: "effective L s = length past + i + (case RecordMap_Get (lib_rmap L) (recordMap (store s)) (w_key (ws ! i)) of
        None \<Rightarrow> 0 | Some h \<Rightarrow> if hint_fd h = getActiveFD (store s) then 1 else 0)"
      using f by (simp add: effective_def p)
    show ?thesis
    proof (cases "w_key (ws ! i) = k")
      case True
      then show ?thesis using e by (auto simp: p active_def split: option.splits)
    next
      case False
      then have "effective L s = length past + i \<or> effective L s = Suc (length past + i)"
        using e by (auto split: option.splits)
      then show ?thesis using same [OF False] by (auto simp: p)
    qed
  qed
  then show "effective L s \<le> length past + active_count (point s)"
    and "abs_get (log (effective L s)) k = abs_get (log (length past + index_count (point s))) k \<or> active"
    and "abs_get (log (effective L s)) k = abs_get (log (length past + active_count (point s))) k \<or> \<not> active"
    by blast+
qed

text \<open>
  A reader under way: it was called when there were \<open>d\<close> stable files, \<open>f\<close> writes acknowledged and \<open>e\<close> in
  effect, and looked at the index when this showed the first \<open>m\<close> writes of the history; for its key
  these are those in effect, or the index sent it to the active file.
\<close>

definition under_way :: "('am, 'rm) libs \<Rightarrow> kvs \<Rightarrow> nat \<Rightarrow> nat \<Rightarrow> nat \<Rightarrow> nat \<Rightarrow> nat \<Rightarrow> key \<Rightarrow> Write list
    \<Rightarrow> ('am, 'rm) threads \<Rightarrow> bool" where
  "under_way L base n f e d t k h s \<longleftrightarrow> apart s \<and> (\<exists>past ls la ord r m. turning L base n h past s ls la ord
     \<and> readers s t = Some (k, r) \<and> f \<le> m \<and> m \<le> length past + index_count (point s) \<and> d \<le> length ord
     \<and> reader_in (store s) ls la ord d (length base + m) k r
     \<and> e \<le> length h \<and> (abs_get (base @ batch (take e h)) k = abs_get (base @ batch (take m h)) k
        \<or> (\<exists>i. map_of (rev (take (length base + m) (index_log ls la (all_files ls ord)))) k = Some i
             \<and> hint_fd i = word_of_nat d)))"

lemma under_way_step:
  assumes "under_way L base n f e0 d t k h s" and "thread_step L s e s'" and "stream_free s e" and "tidy s'"
    and "fitting n (h @ written_by e)" and "\<forall>v. e \<noteq> GetReturns t v"
  shows "under_way L base n f e0 d t k (h @ written_by e) s'"
proof -
  obtain past ls la ord r m where i: "turning L base n h past s ls la ord" "readers s t = Some (k, r)" "f \<le> m"
    "m \<le> length past + index_count (point s)" "d \<le> length ord" "reader_in (store s) ls la ord d (length base + m) k r"
    and eff: "e0 \<le> length h" "abs_get (base @ batch (take e0 h)) k = abs_get (base @ batch (take m h)) k
        \<or> (\<exists>i. map_of (rev (take (length base + m) (index_log ls la (all_files ls ord)))) k = Some i
             \<and> hint_fd i = word_of_nat d)"
    and ap: "apart s"
    using assms(1) unfolding under_way_def by blast
  have o: "order_inv h past s" and t: "turn_inv L base n past s ls la ord" using i(1) by (simp_all add: turning_def)
  have len: "length ls < 2 ^ 32" using turn_room [OF o t fitting_prefix [OF assms(5)]] by simp
  have le: "m \<le> length past + active_count (point s)" using i(4) counts_order(2) [of "point s"] by linarith
  obtain ls' la' ord' where n: "turning L base n (h @ written_by e) (next_past past s e s') s' ls' la' ord'"
    and g: "grown ls la ord ls' la' ord'"
    using turning_step [OF i(1) assms(2,5,4)] by blast
  note keep = reader_grown [OF _ g turn_one_ahead [OF t len] turning_prefix(2) [OF i(1) le]]
  obtain r' where r': "readers s' t = Some (k, r')" "reader_in (store s') ls' la' ord' d (length base + m) k r'"
  proof (cases "e = GetMoves t")
    case True
    obtain r' db' where m: "Get_step L k r (store s) = Inr (Inl r', db')"
        "s' = s\<lparr>store := db', readers := (readers s)(t \<mapsto> (k, r'))\<rparr>"
      using assms(2) True i(2) by (auto simp: thread_step_simps)
    have "reader_in db' ls la ord d (length base + m) k r'" by (rule turn_reader_moves [OF t len i(6) m(1) i(5)])
    from keep [OF this, of db'] show ?thesis using that m(2) by simp
  next
    case False
    then have "\<not> step_of t e" using assms(6) by (simp add: step_of_def)
    note k = reader_kept(1,2) [OF ap assms(2,3) i(2) this]
    from keep [OF i(6) k(2)] show ?thesis using that k(1) by blast
  qed
  have "length ord \<le> length ord'" using g unfolding grown_def by auto
  then have d: "d \<le> length ord'" using i(5) by (rule le_trans [rotated])
  have m: "m \<le> length (next_past past s e s') + index_count (point s')"
    using i(4) index_grows [OF o assms(2)] by (rule le_trans)
  obtain us where us: "index_log ls' la' (all_files ls' ord') = index_log ls la (all_files ls ord) @ us"
    using g unfolding grown_def by blast
  have ix: "take (length base + m) (index_log ls' la' (all_files ls' ord')) = take (length base + m) (index_log ls la (all_files ls ord))"
    unfolding us using turning_prefix(2) [OF i(1) le] by (simp add: length_index)
  have same: "take e0 (h @ written_by e) = take e0 h" "take m (h @ written_by e) = take m h"
    using eff(1) turning_prefix(3) [OF i(1) le] by simp_all
  have eff': "e0 \<le> length (h @ written_by e)"
    "abs_get (base @ batch (take e0 (h @ written_by e))) k = abs_get (base @ batch (take m (h @ written_by e))) k
        \<or> (\<exists>i. map_of (rev (take (length base + m) (index_log ls' la' (all_files ls' ord')))) k = Some i
             \<and> hint_fd i = word_of_nat d)"
    using eff unfolding ix same by simp_all
  show ?thesis unfolding under_way_def
    using apart_step [OF ap assms(2,3)] n r' i(3) m d eff' by blast
qed

lemma under_way_run:
  assumes "tidy_run L s0 es s" and "under_way L base n f e0 d t k h s0"
    and "fitting n (h @ history es)" and "\<forall>v. GetReturns t v \<notin> set es"
  shows "under_way L base n f e0 d t k (h @ history es) s"
  using assms(1,3,4)
proof (induction rule: tidy_run.induct)
  case tidy_start
  show ?case using assms(2) by simp
next
  case (tidy_step es s e s')
  have fit: "fitting n ((h @ history es) @ written_by e)" using tidy_step.prems(1) by simp
  have "under_way L base n f e0 d t k (h @ history es) s"
    using tidy_step.IH fitting_prefix [OF fit] tidy_step.prems(2) by auto
  from under_way_step [OF this tidy_step.hyps(2-4) fit] tidy_step.prems(2) show ?case by auto
qed

lemma under_way_called:
  assumes "turning L base n h past s ls la ord" and "apart s" and "thread_step L s (GetCall t k) s'"
  shows "under_way L base n (length (fulfilled (store s))) (effective L s) (length (stableFiles (store s))) t k h s'"
proof -
  let ?r = "Looked (RecordMap_Get (lib_rmap L) (recordMap (store s)) k)" and ?m = "length past + index_count (point s)"
  have s': "s' = s\<lparr>readers := (readers s)(t \<mapsto> (k, ?r))\<rparr>" using assms(3) by (simp add: thread_step_simps)
  have o: "order_inv h past s" and t: "turn_inv L base n past s ls la ord" using assms(1) by (simp_all add: turning_def)
  have "turn_inv L base n past s' ls la ord" by (rule turn_cong [OF t]) (simp_all add: s' client_moved_def)
  moreover have "order_inv h past s'" by (rule order_inv_fields [OF o, of "store s"]) (simp_all add: s')
  ultimately have n: "turning L base n h past s' ls la ord" using assms(1) by (simp add: turning_def s' tidy_def)
  have ap: "apart s'" using assms(2) unfolding s' apart_def by (auto split: if_splits)
  have f: "length (fulfilled (store s)) \<le> ?m" using order_past(4) [OF o] counts_order(1) by simp
  have "reader_in (store s') ls la ord (length (stableFiles (store s))) (length base + ?m) k ?r"
    using turn_invD(9) [OF t] by (simp add: add.assoc)
  moreover have "readers s' t = Some (k, ?r)" "point s' = point s" by (simp_all add: s')
  moreover have "effective L s \<le> length h"
    using effective_turn(1) [OF assms(1)] order_past(3) [OF o] by (rule le_trans)
  moreover have "abs_get (base @ batch (take (effective L s) h)) k = abs_get (base @ batch (take ?m h)) k
      \<or> (\<exists>i. map_of (rev (take (length base + ?m) (index_log ls la (all_files ls ord)))) k = Some i
           \<and> hint_fd i = word_of_nat (length ord))"
    using effective_turn(2) [OF assms(1), of k] turn_handles(3) [OF t]
    unfolding turn_invD(9) [OF t] by (simp add: add.assoc)
  ultimately show ?thesis unfolding under_way_def
    using n ap f turn_handles(2) [OF t] by (metis le_refl)
qed

lemma under_way_returns:
  assumes "under_way L base n f e0 d t k h s" and "thread_step L s (GetReturns t v) s'" and "fitting n h"
  shows "v = abs_get (base @ batch (take e0 h)) k \<or> v = abs_get (base @ batch (take (effective L s) h)) k
     \<or> d < length (stableFiles (store s)) \<and> (v = None
        \<or> (\<exists>m. m \<le> length h \<and> f \<le> m \<and> m \<le> Suc (length (fulfilled (store s))) \<and> v = abs_get (base @ batch (take m h)) k))"
proof -
  obtain past ls la ord r m where i: "turning L base n h past s ls la ord" "readers s t = Some (k, r)" "f \<le> m"
    "m \<le> length past + index_count (point s)" "reader_in (store s) ls la ord d (length base + m) k r"
    and eff: "abs_get (base @ batch (take e0 h)) k = abs_get (base @ batch (take m h)) k
        \<or> (\<exists>i. map_of (rev (take (length base + m) (index_log ls la (all_files ls ord)))) k = Some i
             \<and> hint_fd i = word_of_nat d)" and d: "d \<le> length ord"
    using assms(1) unfolding under_way_def by blast
  have o: "order_inv h past s" and t: "turn_inv L base n past s ls la ord" using i(1) by (simp_all add: turning_def)
  have len: "length ls < 2 ^ 32" using turn_room [OF o t assms(3)] by simp
  note ahead = turn_one_ahead [OF t len]
  let ?M = "length past + active_count (point s)" and ?FL = "abs_log ls la (all_files ls ord)"
    and ?IX = "index_log ls la (all_files ls ord)"
  have m: "m \<le> ?M" "?M \<le> Suc (length (fulfilled (store s)))"
    using i(4) counts_order [of "point s"] order_past(4) [OF o] by linarith+
  obtain db' where g: "Get_step L k r (store s) = Inr (Inr v, db')"
    using assms(2) i(2) by (auto simp: thread_step_simps)
  note p = turning_prefix [OF i(1) m(1)] and q = turning_prefix [OF i(1) le_refl]
  have "length base + m \<le> length base + length past + active_count (point s)" using m(1) by simp
  from turn_reader_returns [OF t len i(5) g this]
  consider (index) "v = abs_get (base @ batch (take m h)) k"
      "\<forall>h. map_of (rev (take (length base + m) ?IX)) k = Some h \<longrightarrow> (\<exists>j < length ord. hint_fd h = word_of_nat j)"
    | (active) "v = abs_get (base @ batch (take ?M h)) k"
      "last_write (drop (stable_size ls ord (length ord)) (take (length base + m) ?FL)) k \<noteq> None"
    | (later) "v = abs_get (base @ batch (take ?M h)) k" "d < length (stableFiles (store s))"
    | (missed) "v = None" "d < length (stableFiles (store s))"
    unfolding p(1) q(1) [unfolded add.assoc [symmetric]] by blast
  then show ?thesis
  proof cases
    case index
    show ?thesis
    proof (cases "abs_get (base @ batch (take e0 h)) k = abs_get (base @ batch (take m h)) k")
      case False
      then obtain hint where hint: "map_of (rev (take (length base + m) ?IX)) k = Some hint" "hint_fd hint = word_of_nat d"
        using eff by blast
      then obtain j where j: "j < length ord" "word_of_nat d = (word_of_nat j :: u32)" using index(2) by fastforce
      have "d = j" using of_nat_u32_eq [of d j] j d one_ahead_lt(4,5) [OF ahead] by simp
      then have "d < length (stableFiles (store s))" using j(1) turn_handles(2) [OF t] by simp
      then show ?thesis using index(1) i(3) p(3) le_trans [OF m] by blast
    qed (use index(1) in simp)
  next
    case active
    have "last_write (drop (stable_size ls ord (length ord)) (take (length base + length past + index_count (point s)) ?FL)) k \<noteq> None"
      by (rule last_write_later [OF active(2) le_refl]) (use i(4) in simp)
    from hint_active [OF ahead this] have "\<exists>i. RecordMap_Get (lib_rmap L) (recordMap (store s)) k = Some i
        \<and> hint_fd i = getActiveFD (store s)"
      unfolding turn_invD(9) [OF t] turn_handles(3) [OF t] .
    then show ?thesis using effective_turn(3) [OF i(1), of k] active(1) by auto
  next
    case later
    then show ?thesis using i(3) q(3) m le_trans by blast
  qed simp
qed

lemma run_from_step:
  assumes "thread_step L s e s1" and "tidy_run L s1 es s2" shows "thread_run L s ([e] @ es) s2"
  using assms(2)
proof induction
  case tidy_start
  show ?case using run_step [OF run_start assms(1)] by simp
next
  case (tidy_step es s' e' s'')
  then show ?case using run_step by fastforce
qed

text \<open>What a call returns, and what is in effect meanwhile.\<close>

lemma read_in_effect:
  assumes "opened L ls la ord db" and "tidy_run L (started db) es s" and "thread_step L s (GetCall t k) s1"
    and "tidy_run L s1 es' s2" and "\<forall>u. GetReturns t u \<notin> set es'" and "thread_step L s2 (GetReturns t v) s3"
    and "fitting (length ls) (history (es @ es'))"
  defines "view m \<equiv> abs_get (abs_log ls la ord @ batch (take m (history (es @ es')))) k"
  shows "v = view (effective L s) \<or> v = view (effective L s2)
       \<or> length (stableFiles (store s)) < length (stableFiles (store s2))
         \<and> (v = None \<or> (\<exists>m. m \<le> length (history (es @ es')) \<and> length (fulfilled (store s)) \<le> m
              \<and> m \<le> Suc (length (fulfilled (store s2))) \<and> v = view m))"
    and "effective L s \<le> effective L s2" and "effective L s2 \<le> length (history (es @ es'))"
    and "\<exists>past. order_inv (history (es @ es')) past s2"
proof -
  have fit: "fitting (length ls) (history es @ history es')" using assms(7) by simp
  obtain past ls' la' ord' where t: "turning L (abs_log ls la ord) (length ls) (history es) past s ls' la' ord'"
    using turning_run [OF assms(1,2) fitting_prefix [OF fit]] by blast
  have "apart (started db)" by (simp add: apart_def started_def)
  from under_way_called [OF t apart_run [OF tidy_is_locked [OF assms(2)] this] assms(3)]
  have "under_way L (abs_log ls la ord) (length ls) (length (fulfilled (store s))) (effective L s)
      (length (stableFiles (store s))) t k (history es) s1" .
  from under_way_run [OF assms(4) this fit assms(5)]
  have u: "under_way L (abs_log ls la ord) (length ls) (length (fulfilled (store s))) (effective L s)
      (length (stableFiles (store s))) t k (history (es @ es')) s2" by simp
  show "v = view (effective L s) \<or> v = view (effective L s2)
       \<or> length (stableFiles (store s)) < length (stableFiles (store s2))
         \<and> (v = None \<or> (\<exists>m. m \<le> length (history (es @ es')) \<and> length (fulfilled (store s)) \<le> m
              \<and> m \<le> Suc (length (fulfilled (store s2))) \<and> v = view m))"
    unfolding view_def by (rule under_way_returns [OF u assms(6,7)])
  have o: "order_inv (history es) past s" using t by (simp add: turning_def)
  have "thread_run L s ([GetCall t k] @ es') s2" by (rule run_from_step [OF assms(3,4)])
  from effective_run [OF this o] show "effective L s \<le> effective L s2" and "\<exists>past. order_inv (history (es @ es')) past s2" by auto
  obtain past2 ls2 la2 ord2 where t2: "turning L (abs_log ls la ord) (length ls) (history (es @ es')) past2 s2 ls2 la2 ord2"
    using u by (auto simp: under_way_def)
  then have "order_inv (history (es @ es')) past2 s2" by (simp add: turning_def)
  from order_past(3) [OF this] effective_turn(1) [OF t2] show "effective L s2 \<le> length (history (es @ es'))" by linarith
qed

text \<open>C3. Reads are atomic up to a rotation, in the interleavings of \<open>tidy_run\<close>, which are those with two
  conditions: a batch rotates the active file at its last write only, and between the seek of a read and
  its reading no other read positions the same stream. Then a \<open>Get\<close> that overlaps any number of puts, deletes, reads and commits returns the value after exactly the writes in effect at its call or after those in
  effect at its return, and these only grow; they are the acknowledged writes and at most the one being published. The
  only exception is a call during which a rotation adds a stable file: it may also miss the key, or answer
  from another number of writes between those acknowledged at its call and the one published at its return.\<close>
theorem reads_across_rotations:
  assumes "opened L ls la ord db" and "tidy_run L (started db) es s" and "thread_step L s (GetCall t k) s1"
    and "tidy_run L s1 es' s2" and "\<forall>u. GetReturns t u \<notin> set es'" and "thread_step L s2 (GetReturns t v) s3"
    and "fitting (length ls) (history (es @ es'))"
  defines "view m \<equiv> abs_get (abs_log ls la ord @ batch (take m (history (es @ es')))) k"
  shows "(v = view (effective L s) \<or> v = view (effective L s2)
       \<or> length (stableFiles (store s)) < length (stableFiles (store s2))
         \<and> (v = None \<or> (\<exists>m. m \<le> length (history (es @ es')) \<and> length (fulfilled (store s)) \<le> m
              \<and> m \<le> Suc (length (fulfilled (store s2))) \<and> v = view m)))
     \<and> length (fulfilled (store s)) \<le> effective L s \<and> effective L s \<le> effective L s2
     \<and> effective L s2 \<le> Suc (length (fulfilled (store s2)))"
  using read_in_effect [OF assms(1-7)] effective_bounds(1) [where s = s and L = L]
    effective_bounds(2) [where s = s2 and L = L] unfolding view_def by blast

section \<open>Runs that are tidy\<close>

text \<open>A batch of one write rotates at its last write, if at all: clients that wait for their futures
  before they queue the next write only make such runs.\<close>

definition fresh :: "('am, 'rm) threads \<Rightarrow> bool" where
  "fresh s \<longleftrightarrow> (\<forall>ws left cs. point s = WriteFiles ws left cs \<and> length ws \<le> length left \<longrightarrow> cs_new cs = [])"

lemma fresh_step:
  assumes "order_inv h past s" and "fresh s" and "thread_step L s e s'"
  shows "fresh s'"
proof (cases "e = WorkerMoves")
  case True
  then obtain p db where w: "commit_step L (point s) (store s) = Inr (p, db)" "s' = s\<lparr>store := db, point := p\<rparr>"
    using assms(3) by (auto simp: thread_step_simps)
  show ?thesis
  proof (cases "\<exists>ws w left cs. point s = WriteFiles ws (w # left) cs")
    case True
    then obtain ws x left cs where p: "point s = WriteFiles ws (x # left) cs" by blast
    obtain pre where "ws = pre @ x # left" using assms(1) p by (auto simp: order_inv_def)
    then show ?thesis using w p by (auto simp: fresh_def split: sum.splits)
  next
    case False
    then show ?thesis using w
      by (cases "(L, point s, store s)" rule: commit_step.cases)
        (auto simp: fresh_def commit_start_def split: sum.splits if_splits)
  qed
next
  case False
  then show ?thesis using client_step(1) [OF assms(3) False] assms(2) by (simp add: fresh_def)
qed

lemma single_write_tidy:
  assumes "order_inv h past s" and "fresh s" and "length (held (point s)) \<le> 1"
  shows "tidy s"
  unfolding tidy_def
proof (intro allI impI)
  fix ws w left cs assume p: "point s = WriteFiles ws (w # left) cs"
  then have "length ws \<le> length (w # left)" using assms(3) by simp
  then show "cs_new cs = []" using assms(2) p unfolding fresh_def by blast
qed

lemma one_write_tidy:
  assumes "opened L ls la ord db" and "locked_run L (started db) es s" and "length (history es) \<le> 1"
  shows "tidy_run L (started db) es s"
proof -
  have start: "order_inv [] [] (started db)" "fresh (started db)"
    using assms(1) by (simp_all add: opened_def order_inv_def started_def just_started_def fresh_def)
  have "tidy_run L (started db) es s \<and> (\<exists>past. order_inv (history es) past s) \<and> fresh s"
    using assms(2,3)
  proof (induction rule: locked_run.induct)
    case locked_start
    then show ?case using start tidy_start by auto
  next
    case (locked_step es s e s')
    then obtain past where i: "tidy_run L (started db) es s" "order_inv (history es) past s" "fresh s" by auto
    have o: "order_inv (history (es @ [e])) (next_past past s e s') s'"
      using order_inv_step [OF i(2) locked_step.hyps(2)] by simp
    have f: "fresh s'" by (rule fresh_step [OF i(2,3) locked_step.hyps(2)])
    have "length (held (point s')) \<le> length (history (es @ [e]))" using o by (simp add: order_inv_def)
    then have "tidy s'" using single_write_tidy [OF o f] locked_step.prems by linarith
    then show ?case using tidy_step [OF i(1) locked_step.hyps(2,3)] o f by blast
  qed
  then show ?thesis ..
qed

text \<open>A reader that is left to run alone is \<open>Get\<close>.\<close>

lemma read_alone:
  assumes "Get_alone n L k r (store s) = Inr (v, db)" and "readers s = [t \<mapsto> (k, r)]" and "tidy s"
  shows "\<exists>j s2. tidy_run L s (replicate j (GetMoves t)) s2
     \<and> thread_step L s2 (GetReturns t v) (s\<lparr>store := db, readers := Map.empty\<rparr>)"
  using assms
proof (induction n arbitrary: r s)
  case (Suc n)
  show ?case
  proof (cases "Get_step L k r (store s)")
    case (Inr x)
    show ?thesis
    proof (cases x)
      case (Pair y db1)
      show ?thesis
      proof (cases y)
        case (Inl r')
        let ?s = "s\<lparr>store := db1, readers := (readers s)(t \<mapsto> (k, r'))\<rparr>"
        have st: "thread_step L s (GetMoves t) ?s" using Suc.prems(2) Inr Pair Inl by (simp add: thread_step_simps)
        have fr: "stream_free s (GetMoves t)" using Suc.prems(2) by (auto simp: stream_free_def split: if_splits)
        have al: "Get_alone n L k r' (store ?s) = Inr (v, db)" using Suc.prems(1) Inr Pair Inl by simp
        have rd: "readers ?s = [t \<mapsto> (k, r')]" using Suc.prems(2) by (simp add: fun_eq_iff)
        have ti: "tidy ?s" using Suc.prems(3) by (simp add: tidy_def)
        obtain j s2 where j: "tidy_run L ?s (replicate j (GetMoves t)) s2"
          "thread_step L s2 (GetReturns t v) (s\<lparr>store := db, readers := Map.empty\<rparr>)"
          using Suc.IH [OF al rd ti] by auto
        have "tidy_run L s (GetMoves t # es) s'" if "tidy_run L ?s es s'" for es s'
          using that
        proof induction
          case tidy_start
          show ?case using tidy_run.tidy_step [OF tidy_run.tidy_start st fr ti] by simp
        next
          case (tidy_step es s1 e s')
          then show ?case using tidy_run.tidy_step [of L s "GetMoves t # es"] by simp
        qed
        from this [OF j(1)] have "tidy_run L s (replicate (Suc j) (GetMoves t)) s2" by simp
        with j(2) show ?thesis by blast
      next
        case (Inr u)
        then have "u = v" "db1 = db" using Suc.prems(1) \<open>Get_step L k r (store s) = Inr x\<close> Pair by auto
        moreover have "(readers s)(t := None) = Map.empty" using Suc.prems(2) by (simp add: fun_eq_iff)
        ultimately have "thread_step L s (GetReturns t v) (s\<lparr>store := db, readers := Map.empty\<rparr>)"
          using Suc.prems(2) Inr Pair \<open>Get_step L k r (store s) = Inr x\<close> by (simp add: thread_step_simps)
        moreover have "tidy_run L s (replicate 0 (GetMoves t)) s" using tidy_start by simp
        ultimately show ?thesis by fastforce
      qed
    qed
  qed (use Suc.prems(1) in simp)
qed simp

text \<open>A call of \<open>Get\<close> that runs alone, from its beginning to its end.\<close>

lemma call_alone:
  assumes "store_ok L (store s) ls la ord" and "readers s = Map.empty" and "running (store s)" and "tidy s"
  obtains s1 j s2 v db where "thread_step L s (GetCall t k) s1" and "tidy_run L s1 (replicate j (GetMoves t)) s2"
    and "thread_step L s2 (GetReturns t v) (s\<lparr>store := db\<rparr>)" and "store s1 = store s"
    and "store_ok L db ls la ord" and "running db"
proof -
  let ?s1 = "s\<lparr>readers := (readers s)(t \<mapsto> (k, Looked (RecordMap_Get (lib_rmap L) (recordMap (store s)) k)))\<rparr>"
  have call: "thread_step L s (GetCall t k) ?s1" using assms(2,3) by (simp add: thread_step_simps)
  obtain v db where g: "Get L k (store s) = Inr (v, db)" "only_streams (GetDbPath (setting (store s))) ord (store s) db"
    by (rule Get_readable [OF store_ok_readable [OF assms(1)]]) blast
  have "Get_alone 3 L k (Looked (RecordMap_Get (lib_rmap L) (recordMap (store s)) k)) (store ?s1) = Inr (v, db)"
    using g(1) Get_alone_is_Get [of L k "store s"] by simp
  moreover have "readers ?s1 = [t \<mapsto> (k, Looked (RecordMap_Get (lib_rmap L) (recordMap (store s)) k))]"
    and "tidy ?s1" using assms(2,4) by (simp_all add: tidy_def)
  moreover have "?s1\<lparr>store := db, readers := Map.empty\<rparr> = s\<lparr>store := db\<rparr>" using assms(2) by (cases s) simp
  ultimately obtain j s2 where r: "tidy_run L ?s1 (replicate j (GetMoves t)) s2"
    "thread_step L s2 (GetReturns t v) (s\<lparr>store := db\<rparr>)" by (metis read_alone)
  have "running db" using g(2) assms(3) by (auto simp: only_streams_def)
  from that [OF call r _ only_streams_store_ok [OF assms(1) g(2)] this] show thesis by simp
qed

lemma reads_keep_count:
  "tidy_run L s0 es s \<Longrightarrow> WorkerMoves \<notin> set es \<Longrightarrow> length (stableFiles (store s)) = length (stableFiles (store s0))"
proof (induction rule: tidy_run.induct)
  case (tidy_step es s e s')
  then have "e \<noteq> WorkerMoves" by auto
  from client_step(2) [OF tidy_step.hyps(2) this] tidy_step.IH tidy_step.prems show ?case
    by (auto dest: client_same_count)
qed simp

lemma moves_write_nothing [simp]: "history (replicate j (GetMoves t)) = []"
  by (induction j) simp_all

section \<open>The property at a concrete system\<close>

text \<open>The one write rotates, and the reader finds it in the stable file.\<close>

theorem reads_across_rotations_witness:
  "\<exists>db m s s1 j s2 s3. tidy_run example_libs (started db) ([PutBy ''key of 18 letters!'' ''v'' 0] @ replicate m WorkerMoves) s
     \<and> length (stableFiles (store s)) = 1 \<and> thread_step example_libs s (GetCall 7 ''key of 18 letters!'') s1
     \<and> tidy_run example_libs s1 (replicate j (GetMoves 7)) s2 \<and> thread_step example_libs s2 (GetReturns 7 (Some ''v'')) s3"
proof -
  let ?k = "''key of 18 letters!''" and ?ls = "[[(''key of 18 letters!'', ''v'')]]"
  have f: "fits_record ?k ''v''" by simp
  have fl: "fill_one 30 (?k, ''v'') ([], []) = (?ls, [])" by (simp add: fill_one_def value_offset_def header_size_def)
  obtain db s m where e: "opened example_libs [] [] [] db"
    "thread_run example_libs (started db) ([PutBy ?k ''v'' 0] @ replicate m WorkerMoves) s"
    "point s = TestRunning" "readers s = Map.empty" "running (store s)" "fulfilled (store s) = [0]"
    "store_ok example_libs (store s) ?ls [] [0..<length ?ls]"
    by (rule example_commit [OF f fl])
  let ?es = "[PutBy ?k ''v'' 0] @ replicate m WorkerMoves"
  have hist: "history (?es @ replicate j (GetMoves 7)) = [\<lparr>w_key = ?k, w_value = ''v'', w_promise = 0\<rparr>]" for j
    using example_moves_history [of ?k "''v''" m] by simp
  have run: "tidy_run example_libs (started db) ?es s"
    by (rule one_write_tidy [OF e(1) run_without_reads [OF e(2)]]) (use hist [of 0] in auto)
  have one: "length (stableFiles (store s)) = 1"
    using handles_ok_length [of "store s" "length ?ls" "[0..<length ?ls]"] e(7) by (simp add: store_ok_def)
  have "tidy s" using e(3) by (simp add: tidy_def)
  then obtain s1 j s2 v db1 where call: "thread_step example_libs s (GetCall 7 ?k) s1"
    and r: "tidy_run example_libs s1 (replicate j (GetMoves 7)) s2"
      "thread_step example_libs s2 (GetReturns 7 v) (s\<lparr>store := db1\<rparr>)"
    and st: "store s1 = store s" by (rule call_alone [OF e(7,4,5)])
  have fit: "fitting (length ([] :: kvs list)) (history (?es @ replicate j (GetMoves 7)))" unfolding hist by (simp add: fitting_def)
  have same: "length (stableFiles (store s2)) = 1"
    using reads_keep_count [OF r(1)] one st by auto
  have "\<exists>n. n \<le> 1 \<and> 1 \<le> n \<and> v = abs_get (abs_log [] [] [] @ batch (take n [\<lparr>w_key = ?k, w_value = ''v'', w_promise = 0\<rparr>])) ?k"
    using reads_across_rotations [OF e(1) run call r(1) _ r(2) fit] one same e(6) unfolding hist by auto
  then have "v = Some ''v''"
    by (auto simp: abs_log_def abs_get_def last_write_def visible_def TOMBSTONE_def batch_def)
  with run one call r show ?thesis by blast
qed

end
