(* ===== verification/ReadOrder.thy ===== *)
theory ReadOrder
  imports RotatingReads
begin

text \<open>
  Two calls of \<open>Get\<close>, the second after the first has returned, on any keys and by any threads: what the
  later one returns is not older than what the earlier one returned, unless a rotation ends during one
  of them.
\<close>

section \<open>Runs one after the other\<close>

lemma tidy_run_append:
  assumes "tidy_run L s1 es' s2" and "tidy_run L s0 es s1" shows "tidy_run L s0 (es @ es') s2"
  using assms
proof (induction rule: tidy_run.induct)
  case (tidy_step es' s e s')
  then show ?case using tidy_run.tidy_step [of L s0 "es @ es'" s e s'] by simp
qed simp

lemma tidy_run_tidy: "tidy_run L s0 es s \<Longrightarrow> tidy s0 \<Longrightarrow> tidy s"
  by (induction rule: tidy_run.induct) auto

text \<open>A call and a return leave the worker where it is.\<close>

lemma call_and_return:
  assumes "tidy_run L s0 es s" and "tidy s0" and "thread_step L s e s'" and "e = GetCall t k \<or> e = GetReturns t v"
  shows "tidy_run L s0 (es @ [e]) s'" and "history (es @ [e]) = history es"
proof -
  have "tidy s'" using assms(3,4) tidy_run_tidy [OF assms(1,2)] by (auto simp: thread_step_simps tidy_def)
  moreover have "stream_free s e" using assms(4) by (auto simp: stream_free_def)
  ultimately show "tidy_run L s0 (es @ [e]) s'" using tidy_step [OF assms(1,3)] by blast
  show "history (es @ [e]) = history es" using assms(4) by auto
qed

lemma started_tidy: "tidy (started db)"
  by (simp add: tidy_def started_def)

text \<open>What is in effect after a call returns is at most what is in effect later.\<close>

lemma effective_later:
  assumes "thread_step L s2 e s3" and "tidy_run L s3 es s4" and "order_inv h past s2"
  shows "effective L s2 \<le> effective L s4"
  using effective_run [OF run_from_step [OF assms(1,2)] assms(3)] by blast

section \<open>Reads keep their order\<close>

text \<open>C4. Reads do not go back, in the interleavings of \<open>tidy_run\<close>, which are those with two conditions: a
  batch rotates the active file at its last write only, and between the seek of a read and its reading
  no other read positions the same stream. When one \<open>Get\<close> has returned before another is called, and no rotation ends during either (any
  number may end between them), then both answer from the store after a number of writes that holds at
  least those acknowledged at their calls, and the number of the second is not the smaller one.\<close>
theorem reads_keep_order:
  assumes "opened L ls la ord db" and "tidy_run L (started db) es s" and "thread_step L s (GetCall t k) s1"
    and "tidy_run L s1 es1 s2" and "\<forall>u. GetReturns t u \<notin> set es1" and "thread_step L s2 (GetReturns t v) s3"
    and "tidy_run L s3 es2 s4" and "thread_step L s4 (GetCall t' k') s5"
    and "tidy_run L s5 es3 s6" and "\<forall>u. GetReturns t' u \<notin> set es3" and "thread_step L s6 (GetReturns t' v') s7"
    and "fitting (length ls) (history (es @ es1 @ es2 @ es3))"
    and "length (stableFiles (store s2)) \<le> length (stableFiles (store s))"
    and "length (stableFiles (store s6)) \<le> length (stableFiles (store s4))"
  defines "view m key \<equiv> abs_get (abs_log ls la ord @ batch (take m (history (es @ es1 @ es2 @ es3)))) key"
  shows "\<exists>m m'. v = view m k \<and> v' = view m' k' \<and> m \<le> m' \<and> m' \<le> length (history (es @ es1 @ es2 @ es3))
     \<and> length (fulfilled (store s)) \<le> m \<and> length (fulfilled (store s4)) \<le> m'"
proof -
  let ?h = "history (es @ es1)" and ?es = "es @ [GetCall t k] @ es1 @ [GetReturns t v] @ es2"
  note start = started_tidy [of db]
  have "fitting (length ls) (?h @ history (es2 @ es3))" using assms(12) by simp
  then have f1: "fitting (length ls) ?h" by (rule fitting_prefix)
  note one = read_in_effect [OF assms(1-6) f1]
  have r1: "tidy_run L (started db) ((es @ [GetCall t k]) @ es1) s2"
    by (rule tidy_run_append [OF assms(4) call_and_return(1) [OF assms(2) start assms(3)]]) simp
  have run: "tidy_run L (started db) ?es s4"
    using tidy_run_append [OF assms(7) call_and_return(1) [OF r1 start assms(6)]] by simp
  have h: "history (?es @ es3) = history (es @ es1 @ es2 @ es3)" by simp
  note two = read_in_effect [OF assms(1) run assms(8-11), unfolded h, OF assms(12)]
  obtain past where o: "order_inv ?h past s2" using one(4) by blast
  obtain m where m: "v = abs_get (abs_log ls la ord @ batch (take m ?h)) k" "m \<le> effective L s2"
    "length (fulfilled (store s)) \<le> m"
    using one(1,2) assms(13) effective_bounds(1) [where s = s and L = L] by fastforce
  obtain m' where m': "v' = view m' k'" "effective L s4 \<le> m'" "m' \<le> length (history (es @ es1 @ es2 @ es3))"
    using two(1-3) assms(14) unfolding view_def by fastforce
  have whole: "history (es @ es1 @ es2 @ es3) = ?h @ history (es2 @ es3)" by simp
  have prefix: "take m (history (es @ es1 @ es2 @ es3)) = take m ?h"
    using le_trans [OF m(2) one(3)] unfolding whole by (simp only: take_append diff_is_0_eq' take_0 append_Nil2)
  have "v = view m k" unfolding view_def prefix by (rule m(1))
  moreover have "m \<le> m'" using m(2) effective_later [OF assms(6,7) o] m'(2) by linarith
  moreover have "length (fulfilled (store s4)) \<le> m'" using effective_bounds(1) [where s = s4 and L = L] m'(2) by linarith
  ultimately show ?thesis using m m' by blast
qed

section \<open>The property at a concrete system\<close>

text \<open>One write is committed and rotates the file; then two threads read it, one after the other.\<close>

theorem reads_keep_order_witness:
  "\<exists>db m s s1 j s2 v s3 s5 i s6 v' s7.
     tidy_run example_libs (started db) ([PutBy ''key of 18 letters!'' ''v'' 0] @ replicate m WorkerMoves) s
     \<and> thread_step example_libs s (GetCall 1 ''key of 18 letters!'') s1
     \<and> tidy_run example_libs s1 (replicate j (GetMoves 1)) s2 \<and> thread_step example_libs s2 (GetReturns 1 v) s3
     \<and> thread_step example_libs s3 (GetCall 2 ''key of 18 letters!'') s5
     \<and> tidy_run example_libs s5 (replicate i (GetMoves 2)) s6 \<and> thread_step example_libs s6 (GetReturns 2 v') s7
     \<and> v = Some ''v'' \<and> v' = Some ''v''"
proof -
  let ?k = "''key of 18 letters!''" and ?ls = "[[(''key of 18 letters!'', ''v'')]]" and ?L = example_libs
  have f: "fits_record ?k ''v''" by simp
  have fl: "fill_one 30 (?k, ''v'') ([], []) = (?ls, [])" by (simp add: fill_one_def value_offset_def header_size_def)
  obtain db s m where e: "opened ?L [] [] [] db" "thread_run ?L (started db) ([PutBy ?k ''v'' 0] @ replicate m WorkerMoves) s"
    "point s = TestRunning" "readers s = Map.empty" "running (store s)" "fulfilled (store s) = [0]"
    "store_ok ?L (store s) ?ls [] [0..<length ?ls]"
    by (rule example_commit [OF f fl])
  let ?es = "[PutBy ?k ''v'' 0] @ replicate m WorkerMoves"
  have hist: "history (?es @ replicate j (GetMoves 1) @ [] @ replicate i (GetMoves 2)) =
      [\<lparr>w_key = ?k, w_value = ''v'', w_promise = 0\<rparr>]" for i j
    using example_moves_history [of ?k "''v''" m] moves_write_nothing by simp
  have run: "tidy_run ?L (started db) ?es s"
    by (rule one_write_tidy [OF e(1) run_without_reads [OF e(2)]]) (use example_moves_history [of ?k "''v''" m] in auto)
  have ti: "tidy s" using e(3) by (simp add: tidy_def)
  then obtain s1 j s2 v db1 where a: "thread_step ?L s (GetCall 1 ?k) s1" "tidy_run ?L s1 (replicate j (GetMoves 1)) s2"
    "thread_step ?L s2 (GetReturns 1 v) (s\<lparr>store := db1\<rparr>)" "store s1 = store s"
    "store_ok ?L db1 ?ls [] [0..<length ?ls]" "running db1"
    by (rule call_alone [OF e(7,4,5)])
  let ?s3 = "s\<lparr>store := db1\<rparr>"
  have s3: "store_ok ?L (store ?s3) ?ls [] [0..<length ?ls]" "readers ?s3 = Map.empty" "running (store ?s3)" "tidy ?s3"
    using a(5,6) e(4) ti by (simp_all add: tidy_def)
  obtain s5 i s6 v' db2 where b: "thread_step ?L ?s3 (GetCall 2 ?k) s5" "tidy_run ?L s5 (replicate i (GetMoves 2)) s6"
    "thread_step ?L s6 (GetReturns 2 v') (?s3\<lparr>store := db2\<rparr>)" "store s5 = store ?s3"
    by (rule call_alone [OF s3])
  have counts: "length (stableFiles (store s2)) \<le> length (stableFiles (store s))"
    "length (stableFiles (store s6)) \<le> length (stableFiles (store ?s3))"
    using reads_keep_count [OF a(2)] reads_keep_count [OF b(2)] a(4) b(4) by simp_all
  have fit: "fitting (length ([] :: kvs list)) (history (?es @ replicate j (GetMoves 1) @ [] @ replicate i (GetMoves 2)))"
    unfolding hist by (simp add: fitting_def)
  have quiet: "\<forall>u. GetReturns 1 u \<notin> set (replicate j (GetMoves 1))" "\<forall>u. GetReturns 2 u \<notin> set (replicate i (GetMoves 2))"
    by simp_all
  obtain x y where "v = abs_get (abs_log [] [] [] @ batch (take x [\<lparr>w_key = ?k, w_value = ''v'', w_promise = 0\<rparr>])) ?k"
    "v' = abs_get (abs_log [] [] [] @ batch (take y [\<lparr>w_key = ?k, w_value = ''v'', w_promise = 0\<rparr>])) ?k"
    "x \<le> y" "y \<le> 1" "1 \<le> x"
    using reads_keep_order [OF e(1) run a(1,2) quiet(1) a(3) tidy_start b(1,2) quiet(2) b(3) fit counts] e(6) unfolding hist by auto
  moreover from this have "x = 1" "y = 1" by simp_all
  ultimately have "v = Some ''v''" "v' = Some ''v''"
    by (simp_all add: abs_log_def abs_get_def last_write_def visible_def TOMBSTONE_def batch_def)
  with run a(1-3) b(1-3) show ?thesis by blast
qed

end
