(* ===== verification/Liveness.thy ===== *)
theory Liveness
  imports Threads
begin

text \<open>
  Progress of the commit worker among the other threads: however the steps are interleaved, a bounded
  number of moves of the worker makes every future ready that was handed out before them, as long as
  the store is not being destroyed.
\<close>

section \<open>The moves to the end of a batch\<close>

fun moves_left :: "point \<Rightarrow> nat" where
  "moves_left (WriteFiles ws left cs) = length left + 3 * length ws + 4"
| "moves_left (InsertStable ws cs) = 3 * length ws + 3"
| "moves_left (ClearActive ws cs) = 3 * length ws + 2"
| "moves_left (Publish PutActive ws cs i) = 3 * (length ws - i) + 1"
| "moves_left (Publish PutIndex ws cs i) = 3 * (length ws - i)"
| "moves_left (Publish SetPromise ws cs i) = 3 * (length ws - i) - 1"
| "moves_left _ = 0"

text \<open>
  The moves until the first \<open>p\<close> promises are fulfilled, when there are never more than \<open>n\<close> writes: none,
  if they are; those of the batch in the worker's hands, if it holds the last of these writes; else
  also those of the batch after it.
\<close>

definition moves_due :: "nat \<Rightarrow> nat \<Rightarrow> Write list \<Rightarrow> ('am, 'rm) threads \<Rightarrow> nat" where
  "moves_due n p past s = (if p \<le> length (fulfilled (store s)) then 0
     else if p \<le> length past + length (held (point s)) then moves_left (point s)
     else if point s = TakeBatch then 4 * n + 5 else moves_left (point s) + 4 * n + 6)"

lemma moves_left_held:
  assumes "order_inv h past s" shows "moves_left (point s) \<le> 4 * length (held (point s)) + 4"
  using assms by (cases "point s" rule: moves_left.cases) (auto simp: order_inv_def)

lemma moves_due_bound:
  assumes "order_inv h past s" and "length h \<le> n" shows "moves_due n p past s \<le> 8 * n + 10"
proof -
  have "length (held (point s)) \<le> n" using assms by (auto simp: order_inv_def)
  then show ?thesis using moves_left_held [OF assms(1)] by (auto simp: moves_due_def)
qed

lemma fulfilled_length:
  "order_inv h past s \<Longrightarrow> length (fulfilled (store s)) = length past + set_count (point s)"
  by (simp add: order_inv_numbers(2))

text \<open>A move of the worker brings the end of the batch nearer by one.\<close>

lemma move_counts:
  assumes "order_inv h past s" and "commit_step L (point s) (store s) = Inr (p, db)"
    and "point s \<noteq> TakeBatch" and "point s \<noteq> TestRunning" and "point s \<noteq> Gone"
  shows "Suc (moves_left p) = moves_left (point s)" and "p \<noteq> TestRunning \<Longrightarrow> held p = held (point s)"
    and "p = TestRunning \<Longrightarrow> held p = []" and "p \<noteq> TakeBatch"
  using assms
  by (cases "(L, point s, store s)" rule: commit_step.cases; auto simp: order_inv_def split: sum.splits if_splits)+

lemma worker_due:
  assumes "order_inv h past s" and "thread_step L s WorkerMoves s'" and "p \<le> length h" and "length h \<le> n"
    and "point s' \<noteq> Gone"
  shows "moves_due n p (next_past past s WorkerMoves s') s' = 0
     \<or> Suc (moves_due n p (next_past past s WorkerMoves s') s') \<le> moves_due n p past s"
proof -
  obtain q db where w: "point s \<noteq> Gone" "commit_step L (point s) (store s) = Inr (q, db)" "s' = s\<lparr>store := db, point := q\<rparr>"
    using assms(2) by (auto simp: thread_step_simps)
  have h: "h = past @ held (point s) @ pending (store s)" using assms(1) by (simp add: order_inv_def)
  have o: "order_inv h (next_past past s WorkerMoves s') s'" using order_inv_step [OF assms(1,2)] by simp
  note f = fulfilled_length [OF assms(1)] fulfilled_length [OF o]
  consider "point s = TakeBatch" | "point s = TestRunning" | "point s \<noteq> TakeBatch" "point s \<noteq> TestRunning" by blast
  then show ?thesis
  proof cases
    case 1
    then show ?thesis using w h f(1) assms(3,4) by (auto simp: moves_due_def next_past_def)
  next
    case 2
    then show ?thesis using w f(1) assms(5) by (auto simp: moves_due_def next_past_def split: if_splits)
  next
    case 3
    note m = move_counts [OF assms(1) w(2) 3 w(1)]
    have grow: "length (fulfilled (store s)) \<le> length (fulfilled (store s'))"
      using f m(2) w(3) 3 assms(1) w(2)
      by (cases "(L, point s, store s)" rule: commit_step.cases) (auto simp: next_past_def order_inv_def split: sum.splits if_splits)
    show ?thesis
    proof (cases "q = TestRunning")
      case True
      then show ?thesis using w(3) f(2) m(1,3) grow by (auto simp: moves_due_def next_past_def)
    next
      case False
      then show ?thesis using w(3) m(1) m(2) [OF False] m(4) grow 3 by (auto simp: moves_due_def next_past_def)
    qed
  qed
qed

text \<open>The other threads neither delay the worker nor take anything back.\<close>

lemma client_due:
  assumes "order_inv h past s" and "thread_step L s e s'" and "e \<noteq> WorkerMoves"
  shows "moves_due n p (next_past past s e s') s' = moves_due n p past s"
proof -
  have "length (fulfilled (store s')) = length (fulfilled (store s))"
    using fulfilled_length [OF assms(1)] fulfilled_length [OF order_inv_step [OF assms(1,2)]]
      client_step(1) [OF assms(2,3)] assms(3) by (simp add: next_past_def)
  then show ?thesis using client_step(1) [OF assms(2,3)] assms(3) by (simp add: moves_due_def next_past_def)
qed

lemma step_running: "thread_step L s e s' \<Longrightarrow> running (store s') \<Longrightarrow> running (store s)"
proof (erule thread_step.cases, goal_cases)
  case 6
  then show ?case
    by (cases "(L, point s, store s)" rule: commit_step.cases)
      (auto simp: insert_stable_def clear_active_def split: sum.splits if_splits dest!: commit_write_fields)
qed (auto dest: Put_fields Delete_fields stream_moved_fields [OF Get_step_moves] split: option.splits)

lemma step_not_gone:
  assumes "thread_step L s e s'" and "running (store s')" and "point s \<noteq> Gone" shows "point s' \<noteq> Gone"
proof (cases "e = WorkerMoves")
  case True
  then obtain p db where "commit_step L (point s) (store s) = Inr (p, db)" "s' = s\<lparr>store := db, point := p\<rparr>"
    using assms(1) by (auto simp: thread_step_simps)
  then show ?thesis using assms(2,3) step_running [OF assms(1,2)]
    by (cases "(L, point s, store s)" rule: commit_step.cases) (auto split: sum.splits if_splits)
next
  case False
  then show ?thesis using client_step(1) [OF assms(1)] assms(3) by simp
qed

lemma run_running: "thread_run L s0 es s \<Longrightarrow> running (store s) \<Longrightarrow> point s0 \<noteq> Gone \<Longrightarrow> running (store s0) \<and> point s \<noteq> Gone"
  by (induction rule: thread_run.induct) (auto dest: step_running step_not_gone)

lemma run_order: "thread_run L s0 es s \<Longrightarrow> order_inv h past s0 \<Longrightarrow> \<exists>past. order_inv (h @ history es) past s"
proof (induction rule: thread_run.induct)
  case (run_step es s e s')
  then obtain past where "order_inv (h @ history es) past s" by blast
  from order_inv_step [OF this run_step.hyps(2)] show ?case by auto
qed auto

text \<open>The moves of a run count against the moves that are due.\<close>

lemma run_due:
  assumes "thread_run L s es s'" and "order_inv h past s" and "p \<le> length h" and "point s \<noteq> Gone"
    and "running (store s')" and "length (h @ history es) \<le> n"
  shows "\<exists>past'. order_inv (h @ history es) past' s'
     \<and> (moves_due n p past' s' = 0 \<or> moves_due n p past' s' + count_list es WorkerMoves \<le> moves_due n p past s)"
  using assms(1,5,6)
proof (induction rule: thread_run.induct)
  case run_start
  then show ?case using assms(2) by auto
next
  case (run_step es s1 e s')
  have r: "running (store s1)" by (rule step_running [OF run_step.hyps(2) run_step.prems(1)])
  have len: "length (h @ history es) \<le> n" using run_step.prems(2) by simp
  obtain past1 where i: "order_inv (h @ history es) past1 s1"
    "moves_due n p past1 s1 = 0 \<or> moves_due n p past1 s1 + count_list es WorkerMoves \<le> moves_due n p past s"
    using run_step.IH [OF r len] by blast
  have o: "order_inv (h @ history (es @ [e])) (next_past past1 s1 e s') s'"
    using order_inv_step [OF i(1) run_step.hyps(2)] by simp
  have "moves_due n p (next_past past1 s1 e s') s' = 0
     \<or> moves_due n p (next_past past1 s1 e s') s' + count_list (es @ [e]) WorkerMoves \<le> moves_due n p past s"
  proof (cases "e = WorkerMoves")
    case True
    have "point s' \<noteq> Gone" using run_running [OF thread_run.run_step [OF run_step.hyps] run_step.prems(1) assms(4)] by simp
    from worker_due [OF i(1) run_step.hyps(2) [unfolded True] _ len this, of p] i(2) assms(3) True show ?thesis by auto
  next
    case False
    then show ?thesis using client_due [OF i(1) run_step.hyps(2) False, of n p] i(2) by simp
  qed
  then show ?case using o by blast
qed

text \<open>C10. Every future becomes ready. From any moment of any run, \<open>8 n + 10\<close> moves of the worker make
  every future ready that had been handed out by then, where \<open>n\<close> is the number of writes queued in the
  whole run, however the puts, deletes and reads of the other threads are interleaved with these moves
  and whatever they add to the queue, unless the store is being destroyed meanwhile.\<close>
theorem futures_become_ready:
  assumes "just_started db" and "thread_run L (started db) es s" and "thread_run L s es' s'"
    and "running (store s')" and "8 * length (history (es @ es')) + 10 \<le> count_list es' WorkerMoves"
  shows "\<exists>m. fulfilled (store s') = [0..<m] \<and> next_promise (store s) \<le> m"
proof -
  let ?n = "length (history (es @ es'))" and ?p = "next_promise (store s)"
  have "order_inv [] [] (started db)" using assms(1) by (simp add: order_inv_def started_def just_started_def)
  then obtain past where o: "order_inv (history es) past s" using run_order [OF assms(2)] by fastforce
  note p = order_inv_numbers(1) [OF o]
  have start: "point (started db) \<noteq> Gone" by (simp add: started_def)
  have "running (store s)"
    using assms(3,4) by (induction rule: thread_run.induct) (auto dest: step_running)
  from run_running [OF assms(2) this start] have gone: "point s \<noteq> Gone" by simp
  have hist: "history es @ history es' = history (es @ es')" by simp
  obtain past' where o': "order_inv (history (es @ es')) past' s'"
    and due: "moves_due ?n ?p past' s' = 0 \<or> moves_due ?n ?p past' s' + count_list es' WorkerMoves \<le> moves_due ?n ?p past s"
    using run_due [OF assms(3) o _ gone assms(4), of ?p ?n] p unfolding hist by auto
  have "moves_due ?n ?p past s \<le> 8 * ?n + 10" by (rule moves_due_bound [OF o]) simp
  then have zero: "moves_due ?n ?p past' s' = 0" using due assms(5) by linarith
  have gone': "point s' \<noteq> Gone" using run_running [OF assms(3,4) gone] by simp
  have ready: "?p \<le> length (fulfilled (store s'))"
  proof (rule ccontr)
    assume np: "\<not> ?p \<le> length (fulfilled (store s'))"
    have "moves_left (point s') = 0 \<Longrightarrow> point s' = TakeBatch \<or> point s' = TestRunning \<or> point s' = Gone"
      using o' by (cases "point s'" rule: moves_left.cases) (auto simp: order_inv_def)
    then show False using zero np gone' fulfilled_length [OF o'] by (auto simp: moves_due_def split: if_splits)
  qed
  with order_inv_numbers(2) [OF o'] fulfilled_length [OF o'] show ?thesis by auto
qed

section \<open>The worker can make these moves\<close>

lemma worker_never_blocked:
  assumes "opened L ls0 la0 ord0 db" and "thread_run L (started db) es s" and "fitting (length ls0) (history es)"
    and "running (store s)"
  shows "\<exists>s'. thread_run L (started db) (es @ replicate m WorkerMoves) s' \<and> thread_run L s (replicate m WorkerMoves) s'
     \<and> running (store s')"
proof (induction m)
  case 0
  show ?case using assms(2,4) run_start [of L s] by auto
next
  case (Suc m)
  then obtain s1 where r: "thread_run L (started db) (es @ replicate m WorkerMoves) s1"
    "thread_run L s (replicate m WorkerMoves) s1" "running (store s1)" by blast
  have hist: "history (es @ replicate m WorkerMoves) = history es" by (simp add: history_moves)
  obtain past where i: "order_inv (history es) past s1" "files_inv L (concat ls0 @ la0) (length ls0) past s1"
    using thread_inv_run [OF assms(1) r(1)] assms(3) unfolding hist thread_inv_def by blast
  have start: "point (started db) \<noteq> Gone" by (simp add: started_def)
  have gone: "point s1 \<noteq> Gone" using run_running [OF r(1,3) start] by simp
  obtain p db' where c: "commit_step L (point s1) (store s1) = Inr (p, db')"
    by (rule worker_moves [OF i assms(3)]) blast
  note st = thread_step.work [OF gone c]
  have "running db' = running (store s1)" using c
    by (cases "(L, point s1, store s1)" rule: commit_step.cases)
      (auto simp: insert_stable_def clear_active_def split: sum.splits if_splits dest!: commit_write_fields)
  moreover have "replicate (Suc m) WorkerMoves = replicate m WorkerMoves @ [WorkerMoves]"
    by (simp add: replicate_append_same)
  ultimately show ?case
    using run_step [OF r(1) st] run_step [OF r(2) st] r(3) by (auto simp del: replicate_Suc)
qed

theorem futures_become_ready_witness:
  "\<exists>db s s'. thread_run example_libs (started db) [PutBy ''k'' ''v'' 0] s \<and> fulfilled (store s) = []
     \<and> thread_run example_libs s (replicate 18 WorkerMoves) s' \<and> fulfilled (store s') = [0]"
proof -
  obtain db s where e: "opened example_libs [] [] [] db"
    "thread_run example_libs (started db) [PutBy ''k'' ''v'' 0] s" "fulfilled (store s) = []" "running (store s)"
    by (rule example_threads)
  have fit: "fitting (length ([] :: kvs list)) (history [PutBy ''k'' ''v'' 0])" using example_written(1) [of 0] by simp
  obtain s' where r: "thread_run example_libs (started db) ([PutBy ''k'' ''v'' 0] @ replicate 18 WorkerMoves) s'"
    "thread_run example_libs s (replicate 18 WorkerMoves) s'" "running (store s')"
    using worker_never_blocked [OF e(1,2) fit e(4)] by blast
  have start: "just_started db" using e(1) by (simp add: opened_def)
  have n: "8 * length (history ([PutBy ''k'' ''v'' 0] @ replicate 18 WorkerMoves)) + 10
      \<le> count_list (replicate 18 WorkerMoves) WorkerMoves"
    unfolding example_written(2) by (simp add: eval_nat_numeral)
  obtain m where m: "fulfilled (store s') = [0..<m]" "next_promise (store s) \<le> m"
    using futures_become_ready [OF start e(2) r(2,3) n] by blast
  have o: "order_inv [] [] (started db)" using start by (simp add: order_inv_def started_def just_started_def)
  obtain p1 p2 where p: "order_inv (history [PutBy ''k'' ''v'' 0]) p1 s"
    "order_inv (history ([PutBy ''k'' ''v'' 0] @ replicate 18 WorkerMoves)) p2 s'"
    using run_order [OF e(2) o] run_order [OF r(1) o] by auto
  note n = order_inv_numbers [OF p(1)] order_inv_numbers [OF p(2)]
  have "m = length (fulfilled (store s'))" unfolding m(1) by simp
  then have "m \<le> 1" using n(5,6) unfolding example_written(2) by simp
  moreover have "next_promise (store s) = 1" using n(1) by simp
  ultimately have "m = 1" using m by simp
  then show ?thesis using e(2,3) r(2) m(1) by auto
qed

end
