(* ===== verification/Crash.thy ===== *)
theory Crash
  imports Reads
begin

text \<open>
  Crashes. \<open>CommitWrite\<close> sets the promises of a batch without a \<open>flush\<close> of the active file's stream, which
  is flushed only by a rotation and by the destructor. When the process stops without the destructor,
  the active file holds what the stream has passed on by then, some beginning of what was written to
  it (\<open>kept\<close> bytes); a rotated file is complete. The next start reads such a directory.
\<close>

definition crashed :: "fsys \<Rightarrow> string \<Rightarrow> nat \<Rightarrow> fsys" where
  "crashed F d kept = (let p = getActivePathInDir F d in put_file p (take kept (file_content F p)) F)"

text \<open>
  What the disk holds while a step is under way: between two steps, and inside the one of the worker
  that writes a record, after the record is written and, if it fills the file, after the full file is
  opened again as a stable one. The new active file then is the end of that step.
\<close>

definition crash_disks :: "('am, 'rm) libs \<Rightarrow> ('am, 'rm) threads \<Rightarrow> fsys list" where
  "crash_disks L s = (let db = store s in disk db # (case point s of
       WriteFiles ws (w # left) cs \<Rightarrow>
         (case activeFile db of None \<Rightarrow> []
          | Some af \<Rightarrow>
              (case ActiveFile_Write (lib_crc L) (disk db) af (w_key w) (w_value w) of Inl e \<Rightarrow> []
               | Inr (valueOffset, F, af) \<Rightarrow>
                   if (ucast valueOffset :: u64) < GetMaxFileSize (setting db) then [F]
                   else let fd = ucast (getActiveFD db) + word_of_nat (length (cs_new cs)) :: u64;
                            (_, F', _) = OpenFile F new_fstream (db_file (GetDbPath (setting db)) (unat fd))
                              {ios_binary, ios_in, ios_app}
                        in [F, F']))
     | _ \<Rightarrow> []))"

lemma crash_disks_between:
  "crash_disks L s = [disk (store s)] \<or> (\<exists>ws w left cs. point s = WriteFiles ws (w # left) cs)"
proof (cases "point s")
  case (WriteFiles ws left cs)
  then show ?thesis by (cases left) (simp_all add: crash_disks_def Let_def)
qed (simp_all add: crash_disks_def Let_def)

text \<open>
  A record of which \<open>m\<close> bytes are left looks whole to \<open>ReadRecord\<close> when its header is there and the
  checksum in it is also the one of what \<open>ReadRecord\<close> reads then: no value, and no key either if the
  key is cut off. Nothing is assumed of the checksum function, so this can happen by chance.
\<close>

definition looks_whole :: "crc_fn \<Rightarrow> key \<times> val \<Rightarrow> nat \<Rightarrow> bool" where
  "looks_whole ext r m \<longleftrightarrow> header_size \<le> m \<and> m < rec_size r
     \<and> (let h = fst (fillHeader ext (fst r) (snd r))
        in h_crc32 h = getCRC32 ext h (if header_size + length (fst r) \<le> m then fst r else []) [])"

lemma cut_record_stops:
  assumes "m < rec_size r" and "rec_size r < 2 ^ 32" and "\<not> looks_whole ext r m"
  shows "tail_stops ext (take m (enc_record ext r))"
proof (cases "m < header_size")
  case False
  let ?bs = "take m (enc_record ext r)" and ?h = "fst (fillHeader ext (fst r) (snd r))"
  have len: "length ?bs = m" using assms(1) by simp
  have rest: "?bs = header_bytes ?h @ take (m - header_size) (fst r @ snd r)"
    using False by (simp add: enc_record_def)
  have h: "header_of_bytes ?bs = ?h"
    unfolding rest by (rule header_of_bytes_append)
  have sz: "unat (h_keySize ?h) = length (fst r)" "unat (h_valueSize ?h) = length (snd r)"
    using assms(2) by (simp_all add: fillHeader_sizes rec_size_def unat_of_nat_u32)
  have "parsed_key ?bs = (if header_size + length (fst r) \<le> m then take (length (fst r)) (drop header_size ?bs) else [])"
    by (simp only: parsed_key_def h sz len Let_def)
  then have "parsed_key ?bs = (if header_size + length (fst r) \<le> m then fst r else [])"
    unfolding rest by simp
  moreover have "parsed_value ?bs = []"
    unfolding parsed_value_def h sz len Let_def using assms(1) by (simp add: rec_size_def)
  ultimately show ?thesis using assms(1,3) False unfolding tail_stops_def h looks_whole_def Let_def by simp
qed (simp add: tail_stops_def min_def)

text \<open>A beginning of a log is a log of its first records and a torn record, or nothing, behind it.\<close>

lemma cut_log:
  assumes "log_size rs < 2 ^ 32"
  obtains j tail where "take kept (enc_log ext rs) = enc_log ext (take j rs) @ tail" and "j \<le> length rs"
    and "j < length rs \<and> looks_whole ext (rs ! j) (kept - log_size (take j rs)) \<or> tail_stops ext tail"
    and "log_size (take j rs) + length tail \<le> log_size rs"
    and "log_size rs \<le> kept \<longrightarrow> j = length rs" and "log_size (take j rs) \<le> kept"
    and "j < length rs \<longrightarrow> kept < log_size (take (Suc j) rs)"
  using assms
proof (induction rs arbitrary: kept thesis)
  case Nil
  show thesis by (rule Nil.prems(1) [of 0 "[]"]) simp_all
next
  case (Cons r rs)
  have small: "rec_size r < 2 ^ 32" "log_size rs < 2 ^ 32" using Cons.prems(2) by simp_all
  show thesis
  proof (cases "rec_size r \<le> kept")
    case True
    obtain j tail where j: "take (kept - rec_size r) (enc_log ext rs) = enc_log ext (take j rs) @ tail" "j \<le> length rs"
      "j < length rs \<and> looks_whole ext (rs ! j) (kept - rec_size r - log_size (take j rs)) \<or> tail_stops ext tail"
      "log_size (take j rs) + length tail \<le> log_size rs"
      "log_size rs \<le> kept - rec_size r \<longrightarrow> j = length rs" "log_size (take j rs) \<le> kept - rec_size r"
      "j < length rs \<longrightarrow> kept - rec_size r < log_size (take (Suc j) rs)"
      by (rule Cons.IH [OF _ small(2)])
    show thesis by (rule Cons.prems(1) [of "Suc j" tail]) (use j True in auto)
  next
    case False
    then have "looks_whole ext r kept \<or> tail_stops ext (take kept (enc_record ext r))"
      using cut_record_stops [OF _ small(1)] by (meson not_le)
    with False show thesis
      by (intro Cons.prems(1) [of 0 "take kept (enc_record ext r)"]) auto
  qed
qed

lemma restart_after_crash:
  fixes L :: "('am, 'rm) libs"
  assumes "libs_ok L" and "files_ok (lib_crc L) F (GetDbPath st) ls la" and "dir_ok F (GetDbPath st) (length ls)"
    and "length ls < 2 ^ 31"
  obtains j where "j \<le> length la" and "log_size la \<le> kept \<longrightarrow> j = length la"
    and "log_size (take j la) \<le> kept" and "j < length la \<longrightarrow> kept < log_size (take (Suc j) la)"
    and "j < length la \<and> looks_whole (lib_crc L) (la ! j) (kept - log_size (take j la))
      \<or> (\<exists>db. BitcaskImpl_new L st (crashed F (GetDbPath st) kept) = Inr db
           \<and> readable_ok L db ls (take j la) (lex_order (length ls)))"
proof -
  let ?d = "GetDbPath st" and ?p = "db_file (GetDbPath st) (length ls)"
  have act: "holds_log (lib_crc L) F ?p la" using assms(2) by (simp add: files_ok_def)
  then have small: "log_size la < 2 ^ 32" by (simp add: holds_log_def)
  obtain j tail where j: "take kept (enc_log (lib_crc L) la) = enc_log (lib_crc L) (take j la) @ tail" "j \<le> length la"
    "j < length la \<and> looks_whole (lib_crc L) (la ! j) (kept - log_size (take j la)) \<or> tail_stops (lib_crc L) tail"
    "log_size (take j la) + length tail \<le> log_size la"
    "log_size la \<le> kept \<longrightarrow> j = length la" "log_size (take j la) \<le> kept"
    "j < length la \<longrightarrow> kept < log_size (take (Suc j) la)"
    by (rule cut_log [OF small])
  have image: "crashed F ?d kept = put_file ?p (enc_log (lib_crc L) (take j la) @ tail) F"
    using act j(1) getActivePathInDir_ok [OF assms(3,4)] by (simp add: crashed_def holds_log_def)
  have "\<exists>db. BitcaskImpl_new L st (crashed F ?d kept) = Inr db \<and> readable_ok L db ls (take j la) (lex_order (length ls))"
    if "tail_stops (lib_crc L) tail"
  proof -
    have "dir_holds (lib_crc L) (crashed F ?d kept) ?d ls (take j la) (replicate (length ls) []) tail"
      unfolding image using dir_holds_torn_log [OF assms(2-4) that] j(4) act by (simp add: holds_log_def)
    from BitcaskImpl_new_readable [OF assms(1) this] show ?thesis by metis
  qed
  with j(2,3,5-7) show thesis by (intro that) blast+
qed

section \<open>The disk at every moment of a run\<close>

lemma writing_disks:
  assumes "in_loop L db cs ls la ord" and "log_size la + rec_size (w_key w, w_value w) < 2 ^ 32" and "Suc (length ls) < 2 ^ 32"
    and "dir_ok (disk db) (GetDbPath (setting db)) (length ls)" and "store s = db" and "point s = WriteFiles ws (w # left) cs"
    and "F \<in> set (crash_disks L s)" and "F \<noteq> disk db"
  shows "files_ok (lib_crc L) F (GetDbPath (setting db)) ls (la @ [(w_key w, w_value w)])
     \<and> dir_ok F (GetDbPath (setting db)) (length ls)"
proof -
  let ?d = "GetDbPath (setting db)"
  obtain m where m: "distinct ord" "set ord = {..<m}" "stable_handles ?d ord (stableFiles db)"
    and inv: "loop_inv (lib_crc L) ?d m (cs\<lparr>cs_disk := disk db, cs_active := activeFile db\<rparr>) ls la"
    using assms(1) unfolding in_loop_def by blast
  obtain af where af: "activeFile db = Some af" "af_on (disk db) (db_file ?d (length ls)) af"
    and f: "files_ok (lib_crc L) (disk db) ?d ls la" "length ls = m + length (cs_new cs)"
    using inv unfolding loop_inv_of by blast
  obtain F1 af1 where w: "ActiveFile_Write (lib_crc L) (disk db) af (w_key w) (w_value w)
      = Inr (word_of_nat (value_offset la (w_key w, w_value w)), F1, af1)"
    "files_ok (lib_crc L) F1 ?d ls (la @ [(w_key w, w_value w)])" "grows ?d (length ls) (length ls) (disk db) F1"
    by (rule write_active [OF f(1) af(2) assms(2)])
  have fd: "unat (ucast (getActiveFD db) + word_of_nat (length (cs_new cs)) :: u64) = length ls"
    unfolding stable_count_fd [OF m(3,1,2)] using rotation_number(1) [OF f(2) assms(3)] .
  have o: "\<exists>h. OpenFile F1 new_fstream (db_file ?d (length ls)) {ios_binary, ios_in, ios_app} = (True, F1, h)"
    using OpenFile_app usable_dir_file(1) w(2) unfolding files_ok_def holds_log_def by blast
  have "F = F1"
    using assms(5-8) af(1) w(1) o by (auto simp: crash_disks_def fd Let_def split: if_splits)
  then show ?thesis using w(2) dir_ok_grows [OF assms(4) w(3)] by simp
qed

lemma crash_files:
  assumes "opened L ls0 la0 ord0 db" and "thread_run L (started db) es s"
    and "fitting (length ls0) (history es)" and "F \<in> set (crash_disks L s)"
  obtains m c ls la where "fulfilled (store s) = [0..<m]" and "m \<le> c" and "c \<le> length (history es)"
    and "files_ok (lib_crc L) F (GetDbPath (setting (store s))) ls la"
    and "concat ls @ la = concat ls0 @ la0 @ batch (take c (history es))"
    and "dir_ok F (GetDbPath (setting (store s))) (length ls)" and "length ls < 2 ^ 31"
proof (cases "F = disk (store s)")
  case True
  then show thesis by (metis run_files [OF assms(1-3)] that)
next
  case False
  obtain ws w left cs where p: "point s = WriteFiles ws (w # left) cs"
    using crash_disks_between [of L s] assms(4) False by force
  obtain past where o: "order_inv (history es) past s" and f: "files_inv L (concat ls0 @ la0) (length ls0) past s"
    using thread_inv_run [OF assms(1-3)] unfolding thread_inv_def by blast
  obtain ls la ord where l: "concat ls @ la = (concat ls0 @ la0) @ batch (past @ written (point s))"
    "in_loop L (store s) cs ls la ord" "length ls \<le> length ls0 + length (past @ written (point s))"
    "dir_ok (disk (store s)) (GetDbPath (setting (store s))) (length ls)" "log_size la < limit_of (store s) + max_record"
    and lim: "limit_of (store s) \<le> 2 ^ 31"
    using f unfolding files_inv_def by (auto simp: p)
  obtain pre where pre: "ws = pre @ w # left" using o by (auto simp: order_inv_def p)
  have h: "history es = past @ pre @ w # left @ pending (store s)" and wr: "written (point s) = pre"
    using o by (simp_all add: order_inv_def p pre)
  have n: "length ls < 2 ^ 31" using l(3) assms(3) unfolding wr h by (simp add: fitting_def)
  have fits: "fits_record (w_key w) (w_value w)" using assms(3) unfolding h by (simp add: fitting_def)
  have room: "log_size la + rec_size (w_key w, w_value w) < 2 ^ 32"
    using fits l(5) lim by (simp add: fits_record_def max_record_def)
  have n1: "Suc (length ls) < 2 ^ 32" using n by simp
  have disk: "files_ok (lib_crc L) F (GetDbPath (setting (store s))) ls (la @ [(w_key w, w_value w)])"
    "dir_ok F (GetDbPath (setting (store s))) (length ls)"
    using writing_disks [OF l(2) room n1 l(4) refl p assms(4) False] by blast+
  let ?c = "length (past @ pre @ [w])"
  have "take ?c (history es) = past @ pre @ [w]" unfolding h by simp
  then have log: "concat ls @ (la @ [(w_key w, w_value w)]) = concat ls0 @ la0 @ batch (take ?c (history es))"
    using l(1) wr by simp
  have ful: "fulfilled (store s) = [0..<length past]" using order_inv_numbers(2) [OF o] by (simp add: p)
  show thesis by (rule that [OF ful _ _ disk(1) log disk(2) n]) (simp_all add: h)
qed

text \<open>C6. A crash at any moment, also inside a rotation, loses only an end of the history. Whatever the
  clients and the worker were doing and however much of the active file had reached the system, the
  next start succeeds and answers from the complete stable files and the first \<open>j\<close> records of the
  active one, those that had been passed on completely; all of its records if nothing of it was lost,
  and then every write whose future was ready is there. The exception is a record that is cut off and
  happens to look whole (\<open>looks_whole\<close>): its checksum is also the one of what is left of it.\<close>
theorem crash_recovers_prefix:
  assumes "opened L ls0 la0 ord0 db" and "thread_run L (started db) es s"
    and "fitting (length ls0) (history es)" and "F \<in> set (crash_disks L s)"
  shows "\<exists>m c ls la j. fulfilled (store s) = [0..<m] \<and> m \<le> c \<and> c \<le> length (history es)
     \<and> concat ls @ la = concat ls0 @ la0 @ batch (take c (history es))
     \<and> j \<le> length la \<and> (log_size la \<le> kept \<longrightarrow> j = length la) \<and> log_size (take j la) \<le> kept
     \<and> (j < length la \<longrightarrow> kept < log_size (take (Suc j) la))
     \<and> (j < length la \<and> looks_whole (lib_crc L) (la ! j) (kept - log_size (take j la))
        \<or> (\<exists>db'. BitcaskImpl_new L (setting (store s)) (crashed F (GetDbPath (setting (store s))) kept) = Inr db'
             \<and> (\<forall>k. \<exists>db''. Get L k db' = Inr (abs_get (abs_log ls (take j la) (lex_order (length ls))) k, db''))))"
proof -
  have libs: "libs_ok L" using assms(1) by (simp add: opened_def)
  obtain m c ls la where r: "fulfilled (store s) = [0..<m]" "m \<le> c" "c \<le> length (history es)"
    "files_ok (lib_crc L) F (GetDbPath (setting (store s))) ls la"
    "concat ls @ la = concat ls0 @ la0 @ batch (take c (history es))"
    "dir_ok F (GetDbPath (setting (store s))) (length ls)" "length ls < 2 ^ 31"
    by (rule crash_files [OF assms])
  obtain j where j: "j \<le> length la" "log_size la \<le> kept \<longrightarrow> j = length la" "log_size (take j la) \<le> kept"
      "j < length la \<longrightarrow> kept < log_size (take (Suc j) la)"
      "j < length la \<and> looks_whole (lib_crc L) (la ! j) (kept - log_size (take j la))
        \<or> (\<exists>db. BitcaskImpl_new L (setting (store s)) (crashed F (GetDbPath (setting (store s))) kept) = Inr db
             \<and> readable_ok L db ls (take j la) (lex_order (length ls)))"
    by (rule restart_after_crash [OF libs r(4,6,7), of kept])
  have "\<exists>db''. Get L k db' = Inr (abs_get (abs_log ls (take j la) (lex_order (length ls))) k, db'')"
    if "readable_ok L db' ls (take j la) (lex_order (length ls))" for db' k
    using Get_readable [OF that] by metis
  with r(1-3,5) j show ?thesis by blast
qed

text \<open>At a concrete system: one write is acknowledged, then the store crashes with nothing lost.\<close>

lemma set_abs_log: "set ord = {..<length ls} \<Longrightarrow> set (abs_log ls la ord) = set (concat ls @ la)"
  by (force simp: abs_log_def in_set_conv_nth)

lemma last_write_only: "set rs = {(k, v)} \<Longrightarrow> last_write rs k = Some v"
  by (metis last_write_def list.set_map map_of_SomeD map_of_eq_None_iff not_None_eq image_insert insertI1
      prod.sel(1) set_rev singletonD snd_conv)

theorem crash_recovers_prefix_witness:
  "\<exists>db s m db' db''. thread_run example_libs (started db) ([PutBy ''k'' ''v'' 0] @ replicate m WorkerMoves) s
     \<and> fulfilled (store s) = [0]
     \<and> BitcaskImpl_new example_libs (setting (store s))
          (crashed (disk (store s)) (GetDbPath (setting (store s))) 1000) = Inr db'
     \<and> Get example_libs ''k'' db' = Inr (Some ''v'', db'')"
proof -
  obtain db s m where e: "opened example_libs [] [] [] db"
    "thread_run example_libs (started db) ([PutBy ''k'' ''v'' 0] @ replicate m WorkerMoves) s" "fulfilled (store s) = [0]"
    by (rule example_turn)
  let ?h = "history ([PutBy ''k'' ''v'' 0] @ replicate m WorkerMoves)"
  have fit: "fitting (length ([] :: kvs list)) ?h" using example_written(1) by simp
  have now: "disk (store s) \<in> set (crash_disks example_libs s)" by (simp add: crash_disks_def Let_def)
  obtain n c ls la j where r: "fulfilled (store s) = [0..<n]" "n \<le> c" "c \<le> length ?h"
    "concat ls @ la = concat [] @ [] @ batch (take c ?h)" "log_size la \<le> 1000 \<longrightarrow> j = length la"
    "j < length la \<and> looks_whole (lib_crc example_libs) (la ! j) (1000 - log_size (take j la))
      \<or> (\<exists>db'. BitcaskImpl_new example_libs (setting (store s))
            (crashed (disk (store s)) (GetDbPath (setting (store s))) 1000) = Inr db'
          \<and> (\<forall>k. \<exists>db''. Get example_libs k db' = Inr (abs_get (abs_log ls (take j la) (lex_order (length ls))) k, db'')))"
    using crash_recovers_prefix [OF e(1,2) fit now, of 1000] by blast
  have "length [0..<n] = 1" using r(1) e(3) by (metis One_nat_def length_Cons list.size(3))
  then have "c = 1" using r(2,3) unfolding example_written(2) by simp
  then have log: "concat ls @ la = [(''k'', ''v'')]" using r(4) unfolding example_written(2) by simp
  then have "log_size la \<le> 1000" by (cases la) (auto simp: append_eq_Cons_conv rec_size_def header_size_def)
  then have "set (abs_log ls (take j la) (lex_order (length ls))) = {(''k'', ''v'')}"
    using r(5) log set_abs_log [of "lex_order (length ls)" ls la] by simp
  from last_write_only [OF this] have "abs_get (abs_log ls (take j la) (lex_order (length ls))) ''k'' = Some ''v''"
    by (simp add: abs_get_def visible_def TOMBSTONE_def)
  moreover have "j = length la" using r(5) \<open>log_size la \<le> 1000\<close> by blast
  ultimately show ?thesis using r(6) e(2,3) by (metis less_irrefl)
qed

text \<open>
  The loss at a concrete system: a write is acknowledged, the process stops with nothing of the
  stream's buffer passed on, and the next start does not know the key.
\<close>

lemma acknowledged_write_lost:
  "\<exists>db s m db' db''. thread_run example_libs (started db) ([PutBy ''k'' ''v'' 0] @ replicate m WorkerMoves) s
     \<and> fulfilled (store s) = [0]
     \<and> BitcaskImpl_new example_libs (setting (store s))
          (crashed (disk (store s)) (GetDbPath (setting (store s))) 0) = Inr db'
     \<and> Get example_libs ''k'' db' = Inr (None, db'')"
proof -
  obtain db s m where e: "opened example_libs [] [] [] db" "setting db = example_setting"
    "thread_run example_libs (started db) ([PutBy ''k'' ''v'' 0] @ replicate m WorkerMoves) s"
    "point s = TestRunning" "fulfilled (store s) = [0]"
    by (rule example_turn)
  let ?h = "history ([PutBy ''k'' ''v'' 0] @ replicate m WorkerMoves)" and ?d = "GetDbPath (setting (store s))"
  have "small_log db [] [] ?h"
    using example_written [of m] e(2) by (simp add: small_log_def limit_of_def rec_size_def header_size_def)
  then obtain past where q: "quiet example_libs db [] [] [] ?h past s" using quiet_run [OF e(1,3)] by blast
  have "length past = 1" using quiet_past(4) [OF q] e(4,5) by simp
  moreover have "past = take (length past) ?h" using quiet_past(1) [OF q] e(4) by simp
  ultimately have past: "past = ?h" unfolding example_written(2) by simp
  have "disk_ok example_libs (store s) [] ([] @ batch (past @ written (point s))) []"
    by (rule quiet_disk) (use q in \<open>simp_all add: quiet_def\<close>)
  then have f: "files_ok (lib_crc example_libs) (disk (store s)) ?d [] [(''k'', ''v'')]"
    unfolding past example_written(2) e(4) disk_ok_def by (simp add: batch_def)
  have dir: "dir_ok (disk (store s)) ?d (length ([] :: kvs list))"
    using q unfolding quiet_def quiet_inv_def by blast
  obtain j where j: "log_size (take j [(''k'', ''v'')]) \<le> 0"
    "j < length [(''k'', ''v'')] \<and> looks_whole (lib_crc example_libs) ([(''k'', ''v'')] ! j) (0 - log_size (take j [(''k'', ''v'')]))
      \<or> (\<exists>db'. BitcaskImpl_new example_libs (setting (store s)) (crashed (disk (store s)) ?d 0) = Inr db'
           \<and> readable_ok example_libs db' [] (take j [(''k'', ''v'')]) (lex_order (length ([] :: kvs list))))"
    by (rule restart_after_crash [OF libs_ok_example f dir, of 0]) simp_all
  have "\<not> looks_whole ext r 0" for ext r by (simp add: looks_whole_def header_size_def)
  then obtain db' where n: "BitcaskImpl_new example_libs (setting (store s)) (crashed (disk (store s)) ?d 0) = Inr db'"
      "readable_ok example_libs db' [] (take j [(''k'', ''v'')]) (lex_order (length ([] :: kvs list)))"
    using j(2) by auto
  have "take j [(''k'', ''v'')] = []" using j(1) by (cases j) (simp_all add: rec_size_def header_size_def)
  then have "abs_get (abs_log [] (take j [(''k'', ''v'')]) (lex_order (length ([] :: kvs list)))) ''k'' = None"
    by (simp add: abs_log_def abs_get_def last_write_def visible_def lex_order_small)
  then obtain db'' where "Get example_libs ''k'' db' = Inr (None, db'')"
    using Get_readable [OF n(2), of "''k''"] by metis
  with e(3,5) n(1) show ?thesis by blast
qed

end
