(* ===== verification/Shutdown.thy ===== *)
theory Shutdown
  imports Liveness Crash
begin

text \<open>
  The end of a store: \<open>~BitcaskImpl\<close> clears \<open>_running\<close> (the step \<open>DestroyedBy\<close>), waits for the worker to
  leave its loop and then destroys the members. A write that is still in \<open>_writes\<close> is destroyed with
  its promise, whose future then is ready with the error \<open>broken_promise\<close>.
\<close>

section \<open>The destructor\<close>

text \<open>What is left of a store: the disk, its streams when they are deleted, and its futures.\<close>

record remains =
  left_disk :: fsys
  left_streams :: "fstream option list"
  with_value :: "nat list"
  with_error :: "nat list"

definition destroy_members :: "('am, 'rm) BitcaskImpl \<Rightarrow> remains" where
  "destroy_members db = \<lparr>left_disk = disk db,
     left_streams = (case activeFile db of None \<Rightarrow> [] | Some af \<Rightarrow> [ActiveFile_destroy af])
       @ map (\<lambda>(fd, sf). StableFile_destroy sf) (stableFiles db),
     with_value = fulfilled db, with_error = map w_promise (pending db)\<rparr>"

text \<open>\<open>join\<close> returns when the worker has left its loop; a call under way would be undefined behaviour.\<close>

definition BitcaskImpl_destroy :: "('am, 'rm) threads \<Rightarrow> remains option" where
  "BitcaskImpl_destroy s = (if \<not> running (store s) \<and> point s = Gone \<and> readers s = Map.empty
     then Some (destroy_members (store s)) else None)"

text \<open>What \<open>get()\<close> of a future does afterwards.\<close>

datatype future_end = Value | BrokenPromise | Blocks

definition future_end :: "remains \<Rightarrow> nat \<Rightarrow> future_end" where
  "future_end r p = (if p \<in> set (with_value r) then Value else if p \<in> set (with_error r) then BrokenPromise else Blocks)"

section \<open>After the flag is cleared\<close>

lemma thread_run_append:
  assumes "thread_run L s1 es' s2" and "thread_run L s0 es s1" shows "thread_run L s0 (es @ es') s2"
  using assms
proof (induction rule: thread_run.induct)
  case (run_step es' s e s')
  then show ?case using thread_run.run_step [of L s0 "es @ es'" s e s'] by simp
qed simp

text \<open>No call queues a write any more, and the worker takes a batch once more at most.\<close>

lemma stopped_client:
  assumes "thread_step L s e s'" and "\<not> running (store s)" and "e \<noteq> WorkerMoves"
  shows "pending (store s') = pending (store s)"
  using assms by cases (auto dest: stream_moved_fields [OF Get_step_moves])

lemma stopped_step:
  assumes "thread_step L s e s'" and "\<not> running (store s)"
  shows "\<not> running (store s')" and "written_by e = []"
proof -
  show "\<not> running (store s')" using step_running [OF assms(1)] assms(2) by blast
  show "written_by e = []" using assms by cases auto
qed

lemma commit_step_queue:
  assumes "commit_step L p db = Inr (q, db')" and "p \<noteq> TakeBatch"
  shows "pending db' = pending db" and "q = TakeBatch \<Longrightarrow> running db"
  using assms
  by (cases "(L, p, db)" rule: commit_step.cases;
      auto simp: insert_stable_def clear_active_def split: sum.splits if_splits dest!: commit_write_fields)+

text \<open>The writes that the worker will not take, and the moves to the end of its loop.\<close>

definition left_behind :: "('am, 'rm) threads \<Rightarrow> Write list" where
  "left_behind s = (if point s = TakeBatch then [] else pending (store s))"

definition moves_to_end :: "('am, 'rm) threads \<Rightarrow> nat" where
  "moves_to_end s = (if point s = TakeBatch then 4 * length (pending (store s)) + 6
     else if point s = Gone then 0 else moves_left (point s) + 1)"

lemma stopped_worker:
  assumes "thread_step L s WorkerMoves s'" and "\<not> running (store s)" and "order_inv h past s"
  shows "left_behind s' = left_behind s" and "Suc (moves_to_end s') = moves_to_end s"
proof -
  obtain q db where w: "point s \<noteq> Gone" "commit_step L (point s) (store s) = Inr (q, db)" "s' = s\<lparr>store := db, point := q\<rparr>"
    using assms(1) by (auto simp: thread_step_simps)
  have "left_behind s' = left_behind s \<and> Suc (moves_to_end s') = moves_to_end s"
  proof (cases "point s = TakeBatch \<or> point s = TestRunning")
    case True
    then show ?thesis using w assms(2) by (auto simp: left_behind_def moves_to_end_def)
  next
    case False
    note m = move_counts [OF assms(3) w(2) _ _ w(1)] and c = commit_step_queue [OF w(2)]
    have "q \<noteq> Gone" using w(1,2) False
      by (cases "(L, point s, store s)" rule: commit_step.cases) (auto split: sum.splits if_splits)
    then show ?thesis using False w(1,3) m(1,4) c(1) by (auto simp: left_behind_def moves_to_end_def)
  qed
  then show "left_behind s' = left_behind s" and "Suc (moves_to_end s') = moves_to_end s" by blast+
qed

lemma stopped_run:
  assumes "thread_run L s es s'" and "\<not> running (store s)" and "order_inv h past s"
  shows "\<not> running (store s') \<and> history es = [] \<and> left_behind s' = left_behind s
     \<and> moves_to_end s' + count_list es WorkerMoves = moves_to_end s"
  using assms(1)
proof (induction rule: thread_run.induct)
  case run_start
  then show ?case using assms(2) by simp
next
  case (run_step es s1 e s2)
  have i: "\<not> running (store s1)" "history es = []" "left_behind s1 = left_behind s"
    "moves_to_end s1 + count_list es WorkerMoves = moves_to_end s" using run_step.IH by blast+
  obtain past1 where o: "order_inv h past1 s1" using run_order [OF run_step.hyps(1) assms(3)] i(2) by auto
  show ?case
  proof (cases "e = WorkerMoves")
    case True
    show ?thesis
      using stopped_worker [OF run_step.hyps(2) [unfolded True] i(1) o] stopped_step [OF run_step.hyps(2) i(1)] i True by simp
  next
    case False
    have "left_behind s2 = left_behind s1" "moves_to_end s2 = moves_to_end s1"
      using stopped_client [OF run_step.hyps(2) i(1) False] client_step(1) [OF run_step.hyps(2) False]
      by (simp_all add: left_behind_def moves_to_end_def)
    then show ?thesis using stopped_step [OF run_step.hyps(2) i(1)] i False by simp
  qed
qed

lemma destroyed_step:
  assumes "thread_step L s DestroyedBy s'"
  shows "\<not> running (store s')" and "left_behind s' = left_behind s" and "moves_to_end s' = moves_to_end s"
    and "order_inv h past s \<Longrightarrow> order_inv h past s'"
  using assms by (auto elim!: thread_stepE simp: left_behind_def moves_to_end_def order_inv_def)

section \<open>The destructor returns\<close>

text \<open>C9. The destructor returns. Once the flag is cleared, at any moment of any interleaving, the worker
  makes at most \<open>4 n + 6\<close> moves, for the \<open>n\<close> writes queued in the whole run, whatever readers do between
  them; until it has left its loop it can make the next one, so \<open>join\<close> returns.\<close>
theorem destructor_returns:
  assumes "opened L ls0 la0 ord0 db" and "thread_run L (started db) es s" and "thread_step L s DestroyedBy s'"
    and "thread_run L s' es' s''" and "fitting (length ls0) (history es)"
  shows "count_list es' WorkerMoves \<le> 4 * length (history es) + 6
     \<and> (point s'' = Gone \<or> (\<exists>t. thread_step L s'' WorkerMoves t))
     \<and> (count_list es' WorkerMoves = 4 * length (history es) + 6 \<longrightarrow> point s'' = Gone)"
proof -
  obtain past where o: "order_inv (history es) past s"
    using thread_inv_run [OF assms(1,2,5)] unfolding thread_inv_def by blast
  note d = destroyed_step [OF assms(3)]
  have r: "history es' = []" "moves_to_end s'' + count_list es' WorkerMoves = moves_to_end s"
    using stopped_run [OF assms(4) d(1) d(4) [OF o]] d(3) by simp_all
  have "moves_left (point s) \<le> 4 * length (held (point s)) + 4" by (rule moves_left_held [OF o])
  then have bound: "moves_to_end s \<le> 4 * length (history es) + 6" using o by (auto simp: moves_to_end_def order_inv_def)
  have "point s'' = Gone" if "moves_to_end s'' = 0" using that by (auto simp: moves_to_end_def split: if_splits)
  moreover have "point s'' = Gone \<or> (\<exists>t. thread_step L s'' WorkerMoves t)"
  proof -
    have "thread_run L (started db) (es @ DestroyedBy # es') s''"
      using thread_run_append [OF assms(4) run_step [OF assms(2,3)]] by simp
    then obtain past' where i: "order_inv (history es) past' s''" "files_inv L (concat ls0 @ la0) (length ls0) past' s''"
      using thread_inv_run [OF assms(1)] assms(5) r(1) unfolding thread_inv_def by fastforce
    show ?thesis using worker_moves [OF i assms(5)] thread_step.work by metis
  qed
  ultimately show ?thesis using r(2) bound by auto
qed

section \<open>What a closed store leaves\<close>

lemma closed_store:
  assumes "opened L ls0 la0 ord0 db" and "thread_run L (started db) es s"
    and "fitting (length ls0) (history es)" and "BitcaskImpl_destroy s = Some r"
  obtains ls la where "\<forall>p < length (history es). future_end r p
        = (if p < length (history es) - length (left_behind s) then Value else BrokenPromise)"
    and "files_ok (lib_crc L) (left_disk r) (GetDbPath (setting (store s))) ls la"
    and "concat ls @ la = concat ls0 @ la0 @ batch (take (length (history es) - length (left_behind s)) (history es))"
    and "dir_ok (left_disk r) (GetDbPath (setting (store s))) (length ls)" and "length ls < 2 ^ 31"
proof -
  have g: "point s = Gone" and r: "r = destroy_members (store s)"
    using assms(4) by (auto simp: BitcaskImpl_destroy_def split: if_splits)
  obtain past where o: "order_inv (history es) past s" and f: "files_inv L (concat ls0 @ la0) (length ls0) past s"
    using thread_inv_run [OF assms(1-3)] unfolding thread_inv_def by blast
  obtain ls la ord where l: "concat ls @ la = (concat ls0 @ la0) @ batch past" "length ls \<le> length ls0 + length past"
    "dir_ok (disk (store s)) (GetDbPath (setting (store s))) (length ls)" "disk_ok L (store s) ls la ord"
    using f unfolding files_inv_def by (auto simp: g)
  have h: "history es = past @ pending (store s)" using o by (simp add: order_inv_def g)
  have num: "map w_promise (history es) = [0..<length (history es)]"
    unfolding order_inv_numbers(1) [OF o] using o unfolding order_inv_def by blast
  have behind: "left_behind s = pending (store s)" by (simp add: left_behind_def g)
  have m: "length (history es) - length (left_behind s) = length past" unfolding behind h by simp
  have "fulfilled (store s) = [0..<length past]" using order_inv_numbers(2) [OF o] by (simp add: g)
  moreover have "map w_promise (pending (store s)) = drop (length past) (map w_promise (history es))" by (simp add: h)
  ultimately have futures: "with_value r = [0..<length past]" "with_error r = [length past..<length (history es)]"
    unfolding num by (simp_all add: r destroy_members_def)
  have n: "length ls < 2 ^ 31" using l(2) assms(3) by (simp add: h fitting_def)
  have fut: "\<forall>p < length (history es). future_end r p = (if p < length past then Value else BrokenPromise)"
    by (simp add: future_end_def futures)
  have log: "concat ls @ la = concat ls0 @ la0 @ batch (take (length past) (history es))" using l(1) by (simp add: h)
  have left: "left_disk r = disk (store s)" by (simp add: r destroy_members_def)
  have files: "files_ok (lib_crc L) (disk (store s)) (GetDbPath (setting (store s))) ls la" using l(4) by (simp add: disk_ok_def)
  show thesis using that [of ls la] fut log files l(3) n unfolding left m by blast
qed

text \<open>C11. A closed store keeps its promises. When the destructor has returned, after any interleaving, the
  futures of the first \<open>m\<close> writes have a value and all others have the error \<open>broken_promise\<close>, none blocks;
  the files hold exactly what they held at the start and these \<open>m\<close> writes, every stream is closed, and
  the next start answers from them (in the order of the file names).\<close>
theorem closed_store_durable:
  assumes "opened L ls0 la0 ord0 db" and "thread_run L (started db) es s"
    and "fitting (length ls0) (history es)" and "BitcaskImpl_destroy s = Some r"
  shows "\<exists>m ls la db'. (\<forall>p < length (history es). future_end r p = (if p < m then Value else BrokenPromise))
     \<and> files_ok (lib_crc L) (left_disk r) (GetDbPath (setting (store s))) ls la
     \<and> concat ls @ la = concat ls0 @ la0 @ batch (take m (history es))
     \<and> (\<forall>strm. Some strm \<in> set (left_streams r) \<longrightarrow> \<not> is_open strm)
     \<and> BitcaskImpl_new L (setting (store s)) (left_disk r) = Inr db'
     \<and> (\<forall>k. \<exists>db''. Get L k db' = Inr (abs_get (abs_log ls la (lex_order (length ls))) k, db''))"
proof -
  let ?m = "length (history es) - length (left_behind s)"
  obtain ls la where c: "\<forall>p < length (history es). future_end r p = (if p < ?m then Value else BrokenPromise)"
    "files_ok (lib_crc L) (left_disk r) (GetDbPath (setting (store s))) ls la"
    "concat ls @ la = concat ls0 @ la0 @ batch (take ?m (history es))"
    "dir_ok (left_disk r) (GetDbPath (setting (store s))) (length ls)" "length ls < 2 ^ 31"
    by (rule closed_store [OF assms])
  have "libs_ok L" using assms(1) by (simp add: opened_def)
  then obtain db' where n: "BitcaskImpl_new L (setting (store s)) (left_disk r) = Inr db'"
    "store_ok L db' ls la (lex_order (length ls))" by (rule restart_ok [OF _ c(2,4,5)])
  have "\<exists>db''. Get L k db' = Inr (abs_get (abs_log ls la (lex_order (length ls))) k, db'')" for k
    using Get_readable [OF store_ok_readable [OF n(2)], of k] by metis
  moreover have "\<not> is_open strm" if "Some strm \<in> set (left_streams r)" for strm
    using that assms(4) destroyed_closed
    by (force simp: BitcaskImpl_destroy_def destroy_members_def split: if_splits option.splits)
  ultimately show ?thesis using c(1-3) n(1) by metis
qed

text \<open>C19. Which writes are lost. When the destructor clears the flag while the worker is on its way from
  taking a batch to the test of the flag, the writes that are in the queue at that moment are never
  written and their futures end with \<open>broken_promise\<close>, although \<open>PutAsync\<close> had returned; all others are
  written. When the worker is about to take a batch, none is lost.\<close>
theorem put_lost_at_shutdown:
  assumes "opened L ls0 la0 ord0 db" and "thread_run L (started db) es s" and "thread_step L s DestroyedBy s'"
    and "thread_run L s' es' s''" and "fitting (length ls0) (history es)" and "BitcaskImpl_destroy s'' = Some r"
  defines "m \<equiv> length (history es) - (if point s = TakeBatch then 0 else length (pending (store s)))"
  shows "(\<forall>p < length (history es). future_end r p = (if p < m then Value else BrokenPromise))
     \<and> (\<exists>ls la. files_ok (lib_crc L) (left_disk r) (GetDbPath (setting (store s''))) ls la
          \<and> concat ls @ la = concat ls0 @ la0 @ batch (take m (history es)))"
proof -
  obtain past where o: "order_inv (history es) past s"
    using thread_inv_run [OF assms(1,2,5)] unfolding thread_inv_def by blast
  note d = destroyed_step [OF assms(3)]
  have t: "history es' = []" "left_behind s'' = left_behind s"
    using stopped_run [OF assms(4) d(1) d(4) [OF o]] d(2) by simp_all
  have run: "thread_run L (started db) ((es @ [DestroyedBy]) @ es') s''"
    by (rule thread_run_append [OF assms(4) run_step [OF assms(2,3)]])
  have h: "history ((es @ [DestroyedBy]) @ es') = history es" using t(1) by simp
  have m: "length (history es) - length (left_behind s'') = m" unfolding t(2) by (simp add: left_behind_def m_def)
  from closed_store [OF assms(1) run _ assms(6)] show ?thesis unfolding h m using assms(5) by metis
qed

section \<open>The properties at a concrete system\<close>

text \<open>The worker alone reaches the end of its loop.\<close>

lemma run_to_end:
  assumes "opened L ls0 la0 ord0 db" and "thread_run L (started db) es s" and "fitting (length ls0) (history es)"
    and "\<not> running (store s)"
  shows "\<exists>s'. thread_run L s (replicate (moves_to_end s) WorkerMoves) s' \<and> point s' = Gone \<and> readers s' = readers s"
  using assms(2-4)
proof (induction "moves_to_end s" arbitrary: s es)
  case 0
  then have "point s = Gone" by (auto simp: moves_to_end_def split: if_splits)
  then show ?case using 0 run_start [of L s] by (metis replicate_0)
next
  case (Suc n)
  obtain past where i: "order_inv (history es) past s" "files_inv L (concat ls0 @ la0) (length ls0) past s"
    using thread_inv_run [OF assms(1) Suc.prems(1,2)] unfolding thread_inv_def by blast
  have gone: "point s \<noteq> Gone" using Suc.hyps(2) by (auto simp: moves_to_end_def)
  obtain q db' where "commit_step L (point s) (store s) = Inr (q, db')" by (rule worker_moves [OF i Suc.prems(2)])
  then obtain s1 where st: "thread_step L s WorkerMoves s1" "readers s1 = readers s" using thread_step.work [OF gone] by fastforce
  have n: "n = moves_to_end s1" using stopped_worker(2) [OF st(1) Suc.prems(3) i(1)] Suc.hyps(2) by simp
  have "fitting (length ls0) (history (es @ [WorkerMoves]))" using Suc.prems(2) by simp
  from Suc.hyps(1) [OF n run_step [OF Suc.prems(1) st(1)] this stopped_step(1) [OF st(1) Suc.prems(3)]]
  obtain s' where r: "thread_run L s1 (replicate n WorkerMoves) s'" "point s' = Gone" "readers s' = readers s"
    using n st(2) by auto
  have "thread_run L s (replicate (Suc n) WorkerMoves) s'"
    using thread_run_append [OF r(1) run_step [OF run_start st(1)]] by simp
  then show ?case using r(2,3) Suc.hyps(2) by metis
qed

text \<open>One write, before the worker takes its batch or after it has taken an empty one; then the destructor.\<close>

lemma example_closing:
  assumes "opened example_libs [] [] [] db" and "thread_run example_libs (started db) es s"
    and "history es = [\<lparr>w_key = ''k'', w_value = ''v'', w_promise = 0\<rparr>]" and "running (store s)" and "readers s = Map.empty"
  obtains s' s'' r where "thread_step example_libs s DestroyedBy s'"
    and "thread_run example_libs s' (replicate (moves_to_end s) WorkerMoves) s''" and "point s'' = Gone"
    and "BitcaskImpl_destroy s'' = Some r" and "fitting (length ([] :: kvs list)) (history es)"
    and "thread_run example_libs (started db) (es @ DestroyedBy # replicate (moves_to_end s) WorkerMoves) s''"
proof -
  let ?s = "s\<lparr>store := (store s)\<lparr>running := False\<rparr>\<rparr>"
  have fit: "fitting (length ([] :: kvs list)) (history es)" unfolding assms(3) by (simp add: fitting_def)
  have st: "thread_step example_libs s DestroyedBy ?s" by (rule thread_step.destroy [OF assms(4)])
  note run = run_step [OF assms(2) st]
  have "fitting (length ([] :: kvs list)) (history (es @ [DestroyedBy]))" using fit by simp
  from run_to_end [OF assms(1) run this] obtain s'' where e: "point s'' = Gone" "readers s'' = Map.empty"
    "thread_run example_libs ?s (replicate (moves_to_end s) WorkerMoves) s''"
    using assms(5) destroyed_step(3) [OF st] by auto
  obtain past where "order_inv (history es) past s"
    using thread_inv_run [OF assms(1,2) fit] unfolding thread_inv_def by blast
  from stopped_run [OF e(3) _ destroyed_step(4) [OF st this]] have "\<not> running (store s'')" by simp
  then have "BitcaskImpl_destroy s'' = Some (destroy_members (store s''))" using e by (simp add: BitcaskImpl_destroy_def)
  moreover have "thread_run example_libs (started db) (es @ DestroyedBy # replicate (moves_to_end s) WorkerMoves) s''"
    using thread_run_append [OF e(3) run] by simp
  ultimately show thesis using that [OF st e(3,1)] fit by blast
qed

lemma example_late_put:
  obtains db s where "opened example_libs [] [] [] db"
    and "thread_run example_libs (started db) [WorkerMoves, PutBy ''k'' ''v'' 0] s" and "point s \<noteq> TakeBatch"
    and "length (pending (store s)) = 1" and "running (store s)" and "readers s = Map.empty"
proof -
  obtain db where db: "opened example_libs [] [] [] db" by (rule example_opened)
  then have j: "running db" "next_promise db = 0" "pending db = []" by (simp_all add: opened_def just_started_def)
  let ?s1 = "(started db)\<lparr>store := db\<lparr>pending := []\<rparr>, point := WriteFiles [] [] (commit_start db)\<rparr>"
  let ?s2 = "?s1\<lparr>store := snd (Put ''k'' ''v'' (store ?s1))\<rparr>"
  have "thread_step example_libs (started db) WorkerMoves ?s1"
    by (rule thread_step.work) (simp_all add: started_def j)
  note run = run_step [OF run_start this]
  have "thread_step example_libs ?s1 (PutBy ''k'' ''v'' 0) ?s2"
    by (rule thread_step.put) (simp_all add: started_def j Put_def)
  then have "thread_run example_libs (started db) (([] @ [WorkerMoves]) @ [PutBy ''k'' ''v'' 0]) ?s2" by (rule run_step [OF run])
  then have "thread_run example_libs (started db) [WorkerMoves, PutBy ''k'' ''v'' 0] ?s2" by (simp only: append_Nil append_Cons)
  then show thesis by (intro that [OF db, of ?s2]) (simp_all add: started_def j Put_def)
qed

theorem destructor_returns_witness:
  "\<exists>db s s' m s''. thread_run example_libs (started db) [PutBy ''k'' ''v'' 0] s
     \<and> thread_step example_libs s DestroyedBy s' \<and> thread_run example_libs s' (replicate m WorkerMoves) s''
     \<and> m \<le> 10 \<and> point s'' = Gone"
proof -
  obtain db s where e: "opened example_libs [] [] [] db" "thread_run example_libs (started db) [PutBy ''k'' ''v'' 0] s"
    "running (store s)" "readers s = Map.empty" by (rule example_threads)
  have h: "history [PutBy ''k'' ''v'' 0] = [\<lparr>w_key = ''k'', w_value = ''v'', w_promise = 0\<rparr>]" by simp
  obtain s' s'' where d: "thread_step example_libs s DestroyedBy s'"
    "thread_run example_libs s' (replicate (moves_to_end s) WorkerMoves) s''" "point s'' = Gone"
    "fitting (length ([] :: kvs list)) (history [PutBy ''k'' ''v'' 0])"
    by (rule example_closing [OF e(1,2) h e(3,4)])
  have "count_list (replicate n WorkerMoves) WorkerMoves = n" for n by (induction n) simp_all
  with destructor_returns [OF e(1,2) d(1,2,4)] have "moves_to_end s \<le> 10" unfolding h by simp
  with e(2) d(1-3) show ?thesis by blast
qed

theorem closed_store_durable_witness:
  "\<exists>db m s r db' db''. thread_run example_libs (started db) ([PutBy ''k'' ''v'' 0] @ DestroyedBy # replicate m WorkerMoves) s
     \<and> BitcaskImpl_destroy s = Some r \<and> future_end r 0 = Value
     \<and> BitcaskImpl_new example_libs (setting (store s)) (left_disk r) = Inr db' \<and> Get example_libs ''k'' db' = Inr (Some ''v'', db'')"
proof -
  obtain db s where e: "opened example_libs [] [] [] db" "thread_run example_libs (started db) [PutBy ''k'' ''v'' 0] s"
    "point s = TakeBatch" "running (store s)" "readers s = Map.empty" by (rule example_threads)
  let ?es = "[PutBy ''k'' ''v'' 0] @ DestroyedBy # replicate (moves_to_end s) WorkerMoves"
  have h: "history [PutBy ''k'' ''v'' 0] = [\<lparr>w_key = ''k'', w_value = ''v'', w_promise = 0\<rparr>]" by simp
  then have h': "history ?es = [\<lparr>w_key = ''k'', w_value = ''v'', w_promise = 0\<rparr>]" by (simp add: history_moves)
  obtain s' s'' r where d: "thread_step example_libs s DestroyedBy s'"
    "thread_run example_libs s' (replicate (moves_to_end s) WorkerMoves) s''"
    "BitcaskImpl_destroy s'' = Some r" "fitting (length ([] :: kvs list)) (history [PutBy ''k'' ''v'' 0])"
    "thread_run example_libs (started db) ?es s''"
    by (rule example_closing [OF e(1,2) h e(4,5)])
  have fit: "fitting (length ([] :: kvs list)) (history ?es)" using d(4) unfolding h h' .
  obtain past where "order_inv (history [PutBy ''k'' ''v'' 0]) past s"
    using thread_inv_run [OF e(1,2) d(4)] unfolding thread_inv_def by blast
  then have "left_behind s'' = []"
    using stopped_run [OF d(2) destroyed_step(1) [OF d(1)] destroyed_step(4) [OF d(1)]] destroyed_step(2) [OF d(1)] e(3)
    by (simp add: left_behind_def)
  then have val: "future_end r 0 = Value"
    using closed_store [OF e(1) d(5) fit d(3)] unfolding h' by (metis diff_zero length_Cons list.size(3) zero_less_Suc)
  obtain m ls la db' where c: "\<forall>p < length (history ?es). future_end r p = (if p < m then Value else BrokenPromise)"
    "concat ls @ la = concat [] @ [] @ batch (take m (history ?es))"
    "BitcaskImpl_new example_libs (setting (store s'')) (left_disk r) = Inr db'"
    "\<forall>k. \<exists>db''. Get example_libs k db' = Inr (abs_get (abs_log ls la (lex_order (length ls))) k, db'')"
    using closed_store_durable [OF e(1) d(5) fit d(3)] by blast
  have "0 < m" using c(1) val unfolding h' by (metis future_end.distinct(1) length_Cons zero_less_Suc)
  then have "concat ls @ la = [(''k'', ''v'')]" using c(2) unfolding h' by (simp add: batch_def)
  then have "set (abs_log ls la (lex_order (length ls))) = {(''k'', ''v'')}"
    using set_abs_log [of "lex_order (length ls)" ls la] by simp
  from last_write_only [OF this] have "abs_get (abs_log ls la (lex_order (length ls))) ''k'' = Some ''v''"
    by (simp add: abs_get_def visible_def TOMBSTONE_def)
  with c(3,4) d(3,5) val show ?thesis by metis
qed

theorem put_lost_at_shutdown_witness:
  "\<exists>db s s' m s'' r. thread_run example_libs (started db) [WorkerMoves, PutBy ''k'' ''v'' 0] s
     \<and> thread_step example_libs s DestroyedBy s' \<and> thread_run example_libs s' (replicate m WorkerMoves) s''
     \<and> BitcaskImpl_destroy s'' = Some r \<and> future_end r 0 = BrokenPromise"
proof -
  let ?es = "[WorkerMoves, PutBy ''k'' ''v'' 0]"
  obtain db s where e: "opened example_libs [] [] [] db" "thread_run example_libs (started db) ?es s"
    "point s \<noteq> TakeBatch" "length (pending (store s)) = 1" "running (store s)" "readers s = Map.empty"
    by (rule example_late_put)
  have h: "history ?es = [\<lparr>w_key = ''k'', w_value = ''v'', w_promise = 0\<rparr>]" by simp
  obtain s' s'' r where d: "thread_step example_libs s DestroyedBy s'"
    "thread_run example_libs s' (replicate (moves_to_end s) WorkerMoves) s''"
    "BitcaskImpl_destroy s'' = Some r" "fitting (length ([] :: kvs list)) (history ?es)"
    by (rule example_closing [OF e(1,2) h e(5,6)])
  have "future_end r 0 = BrokenPromise"
    using put_lost_at_shutdown [OF e(1,2) d(1,2,4,3)] e(3,4) unfolding h by simp
  with e(2) d(1-3) show ?thesis by blast
qed

end
