(* ===== verification/StringCast.thy ===== *)
theory StringCast
  imports Prelude
begin

text \<open>
  The string conversions of src/utils/StringCast.hpp, which the logger uses for wide strings. The
  build is the one of the README's platforms: \<open>wchar_t\<close> has 32 bits (\<open>useLargeWchar\<close>) and
  \<open>forceUCS_2\<close> is false. A \<open>std::u16string\<close> is a list of 16-bit units, a \<open>std::u32string\<close> and a
  \<open>std::wstring\<close> a list of 32-bit ones. The first part models what the code uses of the standard
  library (libstdc++): the codecs behind \<open>std::wstring_convert\<close>, which throws \<open>std::range_error\<close> on text
  that is not well formed, but leaves out a last character of which only a beginning is there, and
  \<open>std::stoll\<close> and \<open>std::stoull\<close> with base 0.
\<close>

type_synonym u16 = "16 word"
type_synonym u16string = "u16 list"
type_synonym u32string = "u32 list"
type_synonym wstring = "u32 list"

section \<open>The codecs of the standard library\<close>

text \<open>What a codec reads: a character and the rest, the beginning of a character at the end of the text,
  or units that no character begins with.\<close>

datatype char_read = Char nat "nat list" | Incomplete | Invalid

definition scalar :: "nat \<Rightarrow> bool" where
  "scalar c \<longleftrightarrow> c < 0x110000 \<and> \<not> (0xD800 \<le> c \<and> c < 0xE000)"

text \<open>UTF-8, as numbers below 256.\<close>

definition utf8_unit :: "nat \<Rightarrow> nat list" where
  "utf8_unit c =
     (if c < 0x80 then [c]
      else if c < 0x800 then [0xC0 + c div 64, 0x80 + c mod 64]
      else if c < 0x10000 then [0xE0 + c div 4096, 0x80 + c div 64 mod 64, 0x80 + c mod 64]
      else [0xF0 + c div 262144, 0x80 + c div 4096 mod 64, 0x80 + c div 64 mod 64, 0x80 + c mod 64])"

definition continuation :: "nat \<Rightarrow> bool" where
  "continuation b \<longleftrightarrow> 0x80 \<le> b \<and> b < 0xC0"

text \<open>
  Overlong forms, surrogates and stray bytes are refused. \<open>utf8_second\<close> and \<open>utf8_second_4\<close> test the
  second byte of three and of four, which decides whether a character can follow.
\<close>

definition utf8_second :: "nat \<Rightarrow> nat \<Rightarrow> bool" where
  "utf8_second b x \<longleftrightarrow> (let c = (b - 0xE0) * 4096 + (x - 0x80) * 64 in continuation x \<and> 0x800 \<le> c \<and> scalar c)"

definition utf8_second_4 :: "nat \<Rightarrow> nat \<Rightarrow> bool" where
  "utf8_second_4 b x \<longleftrightarrow> (let c = (b - 0xF0) * 262144 + (x - 0x80) * 4096 in continuation x \<and> 0x10000 \<le> c \<and> scalar c)"

definition utf8_next :: "nat list \<Rightarrow> char_read" where
  "utf8_next bs = (case bs of
       [] \<Rightarrow> Incomplete
     | b # r \<Rightarrow>
         if b < 0x80 then Char b r
         else if 0xC2 \<le> b \<and> b < 0xE0 then
           (case r of [] \<Rightarrow> Incomplete
            | x # r \<Rightarrow> if continuation x then Char ((b - 0xC0) * 64 + (x - 0x80)) r else Invalid)
         else if 0xE0 \<le> b \<and> b < 0xF0 then
           (case r of [] \<Rightarrow> Incomplete
            | x # r \<Rightarrow> if \<not> utf8_second b x then Invalid
                else (case r of [] \<Rightarrow> Incomplete
                   | y # r \<Rightarrow> if continuation y then Char ((b - 0xE0) * 4096 + (x - 0x80) * 64 + (y - 0x80)) r else Invalid))
         else if 0xF0 \<le> b \<and> b < 0xF5 then
           (case r of [] \<Rightarrow> Incomplete
            | x # r \<Rightarrow> if \<not> utf8_second_4 b x then Invalid
                else (case r of [] \<Rightarrow> Incomplete
                   | y # r \<Rightarrow> if \<not> continuation y then Invalid
                       else (case r of [] \<Rightarrow> Incomplete
                          | z # r \<Rightarrow> if continuation z
                              then Char ((b - 0xF0) * 262144 + (x - 0x80) * 4096 + (y - 0x80) * 64 + (z - 0x80)) r
                              else Invalid)))
         else Invalid)"

text \<open>UTF-16, as numbers below 65536.\<close>

definition utf16_unit :: "nat \<Rightarrow> nat list" where
  "utf16_unit c = (if c < 0x10000 then [c]
     else [0xD800 + (c - 0x10000) div 1024, 0xDC00 + (c - 0x10000) mod 1024])"

definition utf16_next :: "nat list \<Rightarrow> char_read" where
  "utf16_next us = (case us of
       [] \<Rightarrow> Incomplete
     | u # r \<Rightarrow>
         if u < 0xD800 \<or> 0xE000 \<le> u \<and> u < 0x10000 then Char u r
         else if u < 0xDC00 then
           (case r of [] \<Rightarrow> Incomplete
            | x # r \<Rightarrow> if 0xDC00 \<le> x \<and> x < 0xE000
                then Char (0x10000 + (u - 0xD800) * 1024 + (x - 0xDC00)) r else Invalid)
         else Invalid)"

definition utf32_next :: "nat list \<Rightarrow> char_read" where
  "utf32_next us = (case us of [] \<Rightarrow> Incomplete | u # r \<Rightarrow> if scalar u then Char u r else Invalid)"

text \<open>A whole text, one character after the other; the number bounds the characters.\<close>

fun decode_all :: "(nat list \<Rightarrow> char_read) \<Rightarrow> nat \<Rightarrow> nat list \<Rightarrow> nat list option" where
  "decode_all nxt n [] = Some []"
| "decode_all nxt 0 (u # us) = None"
| "decode_all nxt (Suc n) (u # us) = (case nxt (u # us) of Invalid \<Rightarrow> None
     | Incomplete \<Rightarrow> Some []
     | Char c r \<Rightarrow> map_option ((#) c) (decode_all nxt n r))"

definition decode :: "(nat list \<Rightarrow> char_read) \<Rightarrow> nat list \<Rightarrow> nat list option" where
  "decode nxt us = decode_all nxt (length us) us"

text \<open>The proper beginnings of a character, nothing among them.\<close>

definition begins_char :: "(nat \<Rightarrow> nat list) \<Rightarrow> nat list \<Rightarrow> bool" where
  "begins_char unit us \<longleftrightarrow> (\<exists>c vs. scalar c \<and> vs \<noteq> [] \<and> unit c = us @ vs)"

text \<open>The contract of a codec: what \<open>unit\<close> writes for a character \<open>nxt\<close> reads back, and it finds a text
  incomplete exactly when it is the proper beginning of a character.\<close>

locale codec =
  fixes unit :: "nat \<Rightarrow> nat list" and nxt :: "nat list \<Rightarrow> char_read"
  assumes unit_nonempty: "unit c \<noteq> []"
    and nxt_unit: "scalar c \<Longrightarrow> nxt (unit c @ us) = Char c us"
    and nxt_sound: "nxt us = Char c r \<Longrightarrow> scalar c \<and> us = unit c @ r"
    and nxt_begins: "nxt us = Incomplete \<longleftrightarrow> begins_char unit us"
begin

lemma begins_empty: "begins_char unit []"
  using unit_nonempty [of 0] by (auto simp: begins_char_def scalar_def intro: exI [of _ 0])

lemma decode_all_units:
  "\<forall>c \<in> set cs. scalar c \<Longrightarrow> length cs \<le> n \<Longrightarrow> decode_all nxt n (concat (map unit cs)) = Some cs"
proof (induction cs arbitrary: n)
  case (Cons c cs)
  obtain u us where u: "unit c = u # us" using unit_nonempty [of c] by (cases "unit c") auto
  obtain m where n: "n = Suc m" using Cons.prems(2) by (cases n) auto
  have "nxt (u # us @ concat (map unit cs)) = Char c (concat (map unit cs))"
    using nxt_unit [of c "concat (map unit cs)"] Cons.prems(1) u by simp
  then show ?case using Cons u n by simp
qed simp

lemma units_length: "length cs \<le> length (concat (map unit cs))"
proof (induction cs)
  case (Cons c cs)
  then show ?case using unit_nonempty [of c] by (cases "unit c") auto
qed simp

lemma decode_units: "\<forall>c \<in> set cs. scalar c \<Longrightarrow> decode nxt (concat (map unit cs)) = Some cs"
  unfolding decode_def by (rule decode_all_units [OF _ units_length])

lemma decode_all_tail:
  assumes "\<forall>c \<in> set cs. scalar c" and "begins_char unit tail"
  shows "length cs + length tail \<le> n \<Longrightarrow> decode_all nxt n (concat (map unit cs) @ tail) = Some cs"
  using assms(1)
proof (induction cs arbitrary: n)
  case Nil
  show ?case
  proof (cases tail)
    case (Cons u us)
    then obtain m where "n = Suc m" using Nil.prems(1) by (cases n) auto
    then show ?thesis using assms(2) Cons nxt_begins [of tail] by simp
  qed simp
next
  case (Cons c cs)
  obtain u us where u: "unit c = u # us" using unit_nonempty [of c] by (cases "unit c") auto
  obtain m where n: "n = Suc m" using Cons.prems(1) by (cases n) auto
  have "nxt (u # us @ concat (map unit cs) @ tail) = Char c (concat (map unit cs) @ tail)"
    using nxt_unit [of c "concat (map unit cs) @ tail"] Cons.prems(2) u by simp
  then show ?case using Cons u n by simp
qed

lemma decode_all_sound:
  "decode_all nxt n us = Some cs \<Longrightarrow> (\<forall>c \<in> set cs. scalar c) \<and> (\<exists>tail. begins_char unit tail \<and> us = concat (map unit cs) @ tail)"
proof (induction n arbitrary: us cs)
  case (Suc n)
  show ?case
  proof (cases us)
    case Nil
    then show ?thesis using Suc.prems begins_empty by simp
  next
    case (Cons u t)
    show ?thesis
    proof (cases "nxt us")
      case (Char c r)
      then obtain ds where d: "decode_all nxt n r = Some ds" "cs = c # ds" using Suc.prems Cons by auto
      then show ?thesis using nxt_sound [OF Char] Suc.IH [OF d(1)] by auto
    qed (use Suc.prems Cons nxt_begins [of us] in auto)
  qed
next
  case 0
  then show ?case using begins_empty by (cases us) auto
qed

lemma decode_iff:
  "decode nxt us = Some cs \<longleftrightarrow>
     (\<forall>c \<in> set cs. scalar c) \<and> (\<exists>tail. begins_char unit tail \<and> us = concat (map unit cs) @ tail)"
proof
  assume "(\<forall>c \<in> set cs. scalar c) \<and> (\<exists>tail. begins_char unit tail \<and> us = concat (map unit cs) @ tail)"
  then obtain tail where t: "\<forall>c \<in> set cs. scalar c" "begins_char unit tail" "us = concat (map unit cs) @ tail" by blast
  have "length cs + length tail \<le> length us" using units_length [of cs] by (simp add: t(3))
  then show "decode nxt us = Some cs" unfolding decode_def t(3) by (rule decode_all_tail [OF t(1,2)])
qed (use decode_all_sound in \<open>auto simp: decode_def\<close>)

end

lemma split_3: "(c::nat) div 4096 * 4096 + c div 64 mod 64 * 64 + c mod 64 = c"
proof -
  have "c div 4096 = c div 64 div 64" by (simp add: div_mult2_eq [symmetric])
  then show ?thesis using div_mult_mod_eq [of "c div 64" 64] div_mult_mod_eq [of c 64] by linarith
qed

lemma split_4: "(c::nat) div 262144 * 262144 + c div 4096 mod 64 * 4096 + c div 64 mod 64 * 64 + c mod 64 = c"
proof -
  have "c div 262144 = c div 4096 div 64" by (simp add: div_mult2_eq [symmetric])
  then show ?thesis using div_mult_mod_eq [of "c div 4096" 64] split_3 [of c] by linarith
qed

text \<open>
  \<open>std::wstring_convert\<close>: a text is read with one codec and written with another. The conversion stops
  without an error at a beginning of a character at the end (\<open>codecvt_base::partial\<close>), and throws
  \<open>std::range_error\<close> at units that are not well formed.
\<close>

definition transcode :: "(nat list \<Rightarrow> char_read) \<Rightarrow> (nat \<Rightarrow> nat list) \<Rightarrow> nat list \<Rightarrow> nat list outcome" where
  "transcode nxt unit us = (case decode nxt us of None \<Rightarrow> Inl RangeError
     | Some cs \<Rightarrow> Inr (concat (map unit cs)))"

locale transcoder = a: codec unit_a nxt_a + b: codec unit_b nxt_b
  for unit_a nxt_a unit_b nxt_b
begin

lemma forth_iff:
  "transcode nxt_a unit_b us = Inr vs \<longleftrightarrow> (\<exists>cs. ((\<forall>c \<in> set cs. scalar c)
     \<and> (\<exists>tail. begins_char unit_a tail \<and> us = concat (map unit_a cs) @ tail)) \<and> vs = concat (map unit_b cs))"
  unfolding a.decode_iff [symmetric] by (auto simp: transcode_def split: option.splits)

lemma back_iff:
  "transcode nxt_b unit_a vs = Inr us \<longleftrightarrow> (\<exists>cs. ((\<forall>c \<in> set cs. scalar c)
     \<and> (\<exists>tail. begins_char unit_b tail \<and> vs = concat (map unit_b cs) @ tail)) \<and> us = concat (map unit_a cs))"
  unfolding b.decode_iff [symmetric] by (auto simp: transcode_def split: option.splits)

lemma forth_units: "\<forall>c \<in> set cs. scalar c \<Longrightarrow>
    transcode nxt_a unit_b (concat (map unit_a cs)) = Inr (concat (map unit_b cs))"
  by (simp add: transcode_def a.decode_units)

lemma back_units: "\<forall>c \<in> set cs. scalar c \<Longrightarrow>
    transcode nxt_b unit_a (concat (map unit_b cs)) = Inr (concat (map unit_a cs))"
  by (simp add: transcode_def b.decode_units)

text \<open>The conversion back gives the text without the beginning of a character at its end.\<close>

lemma back_forth:
  assumes "transcode nxt_a unit_b us = Inr vs"
  obtains tail where "begins_char unit_a tail" and "transcode nxt_b unit_a vs = Inr (take (length us - length tail) us)"
    and "us = take (length us - length tail) us @ tail"
proof -
  obtain cs tail where "\<forall>c \<in> set cs. scalar c" "begins_char unit_a tail" "us = concat (map unit_a cs) @ tail"
    "vs = concat (map unit_b cs)" using assms unfolding forth_iff by blast
  with back_units [of cs] show thesis by (intro that [of tail]) simp_all
qed

end

text \<open>A number put together from a quotient and a remainder has these.\<close>

lemma quotient_remainder: "c = k * m + z \<Longrightarrow> z < m \<Longrightarrow> c div m = k \<and> c mod m = (z::nat)"
  by simp

lemma continuation_less: "continuation x \<Longrightarrow> x - 0x80 < 64 \<and> 0x80 + (x - 0x80) = x"
  by (auto simp: continuation_def)

text \<open>The characters with the same bytes but the last.\<close>

lemma scalar_low: "z < 64 \<Longrightarrow> scalar (m * 64) \<longleftrightarrow> scalar (m * 64 + z)"
  unfolding scalar_def by presburger

lemma utf8_second_unit:
  assumes "scalar c" and "0x800 \<le> c" and "c < 0x10000"
  shows "utf8_second (0xE0 + c div 4096) (0x80 + c div 64 mod 64)"
proof -
  have c: "c div 64 * 64 + c mod 64 = c" "c div 4096 * 4096 + c div 64 mod 64 * 64 = c div 64 * 64"
    using split_3 [of c] div_mult_mod_eq [of c 64] by linarith+
  have "scalar (c div 64 * 64)" using scalar_low [of "c mod 64" "c div 64"] assms(1) by (simp only: c(1))
  moreover have "0x800 \<le> c div 64 * 64" using assms(2) by presburger
  ultimately show ?thesis by (simp add: utf8_second_def continuation_def c(2) Let_def)
qed

lemma utf8_second_4_unit:
  assumes "scalar c" and "0x10000 \<le> c"
  shows "utf8_second_4 (0xF0 + c div 262144) (0x80 + c div 4096 mod 64)"
proof -
  have "c div 64 mod 64 * 64 + c mod 64 = c mod 4096"
    using split_3 [of c] div_mult_mod_eq [of c 4096] by linarith
  then have c: "c div 262144 * 262144 + c div 4096 mod 64 * 4096 = c div 4096 * 4096"
    using split_4 [of c] div_mult_mod_eq [of c 4096] by linarith
  have "16 \<le> c div 4096" using assms(2) by (simp add: less_eq_div_iff_mult_less_eq)
  then have "0x10000 \<le> c div 4096 * 4096" by linarith
  moreover from this have "scalar (c div 4096 * 4096)"
    using assms(1) div_mult_mod_eq [of c 4096] unfolding scalar_def by linarith
  ultimately show ?thesis unfolding utf8_second_4_def Let_def
    by (simp only: add_diff_cancel_left' c simp_thms) (simp add: continuation_def)
qed

lemma utf8_next_unit:
  assumes "scalar c"
  shows "utf8_next (utf8_unit c @ us) = Char c us"
proof -
  have m: "continuation (0x80 + x mod 64)" for x by (simp add: continuation_def)
  consider "c < 0x80" | "0x80 \<le> c" "c < 0x800" | "0x800 \<le> c" "c < 0x10000" | "0x10000 \<le> c" by linarith
  then show ?thesis
  proof cases
    case 1
    then show ?thesis by (simp add: utf8_unit_def utf8_next_def)
  next
    case 2
    then have "2 \<le> c div 64" "c div 64 < 32" by simp_all
    with 2 m [of c] show ?thesis by (simp add: utf8_unit_def utf8_next_def)
  next
    case 3
    then have "c div 4096 < 16" by linarith
    then show ?thesis using 3 utf8_second_unit [OF assms 3] m [of c] by (simp add: utf8_unit_def utf8_next_def split_3)
  next
    case 4
    have "c div 262144 < 5" using assms unfolding scalar_def by linarith
    then show ?thesis using 4 utf8_second_4_unit [OF assms 4] m [of c] m [of "c div 64"] by (simp add: utf8_unit_def utf8_next_def split_4)
  qed
qed

lemma utf8_unit_2: "2 \<le> a \<Longrightarrow> a < 32 \<Longrightarrow> z < 64 \<Longrightarrow>
    utf8_unit (a * 64 + z) = [0xC0 + a, 0x80 + z] \<and> scalar (a * 64 + z)"
  by (simp add: utf8_unit_def scalar_def)

lemma utf8_unit_3:
  assumes "0x800 \<le> a * 4096 + y * 64 + z" and "a < 16" and "y < 64" and "z < 64"
  shows "utf8_unit (a * 4096 + y * 64 + z) = [0xE0 + a, 0x80 + y, 0x80 + z]"
proof -
  let ?c = "a * 4096 + y * 64 + z"
  have "?c div 4096 = a" using quotient_remainder [of ?c a 4096 "y * 64 + z"] assms by linarith
  moreover have "?c div 64 = a * 64 + y \<and> ?c mod 64 = z"
    using assms(4) by (intro quotient_remainder) simp_all
  ultimately show ?thesis using assms by (simp add: utf8_unit_def)
qed

lemma utf8_unit_4:
  assumes "0x10000 \<le> a * 262144 + x * 4096 + y * 64 + z" and "x < 64" and "y < 64" and "z < 64"
  shows "utf8_unit (a * 262144 + x * 4096 + y * 64 + z) = [0xF0 + a, 0x80 + x, 0x80 + y, 0x80 + z]"
proof -
  let ?c = "a * 262144 + x * 4096 + y * 64 + z"
  have "?c div 262144 = a" using quotient_remainder [of ?c a 262144 "x * 4096 + y * 64 + z"] assms by linarith
  moreover have "?c div 4096 = a * 64 + x"
    using quotient_remainder [of ?c "a * 64 + x" 4096 "y * 64 + z"] assms by linarith
  moreover have 64: "?c div 64 = (a * 64 + x) * 64 + y \<and> ?c mod 64 = z"
    using assms(4) by (intro quotient_remainder) simp_all
  moreover have "?c div 64 mod 64 = y"
    using 64 quotient_remainder [of "?c div 64" "a * 64 + x" 64 y] assms(3) by simp
  ultimately show ?thesis using assms by (simp add: utf8_unit_def)
qed

text \<open>The second byte decides whether the others can complete a character.\<close>

lemma utf8_second_char:
  assumes "utf8_second b x" and "0xE0 \<le> b" and "b < 0xF0" and "continuation y"
  defines "c \<equiv> (b - 0xE0) * 4096 + (x - 0x80) * 64 + (y - 0x80)"
  shows "scalar c" and "utf8_unit c = [b, x, y]"
proof -
  have x: "x - 0x80 < 64" "0x80 + (x - 0x80) = x" and y: "y - 0x80 < 64" "0x80 + (y - 0x80) = y"
    using continuation_less [of x] continuation_less [of y] assms(1,4) by (auto simp: utf8_second_def Let_def)
  have le: "0x800 \<le> c" using assms(1) by (simp add: c_def utf8_second_def Let_def)
  have m: "((b - 0xE0) * 64 + (x - 0x80)) * 64 = (b - 0xE0) * 4096 + (x - 0x80) * 64" by simp
  show "scalar c" using assms(1) scalar_low [OF y(1), of "(b - 0xE0) * 64 + (x - 0x80)"]
    unfolding utf8_second_def Let_def c_def m by blast
  show "utf8_unit c = [b, x, y]"
    using utf8_unit_3 [OF le [unfolded c_def] _ x(1) y(1)] assms(2,3) x(2) y(2) by (simp add: c_def)
qed

lemma utf8_second_4_char:
  assumes "utf8_second_4 b x" and "0xF0 \<le> b" and "b < 0xF5" and "continuation y" and "continuation z"
  defines "c \<equiv> (b - 0xF0) * 262144 + (x - 0x80) * 4096 + (y - 0x80) * 64 + (z - 0x80)"
  shows "scalar c" and "utf8_unit c = [b, x, y, z]"
proof -
  have x: "x - 0x80 < 64" "0x80 + (x - 0x80) = x" and y: "y - 0x80 < 64" "0x80 + (y - 0x80) = y"
    and z: "z - 0x80 < 64" "0x80 + (z - 0x80) = z"
    using continuation_less [of x] continuation_less [of y] continuation_less [of z] assms(1,4,5)
    by (auto simp: utf8_second_4_def Let_def)
  have le: "0x10000 \<le> c" using assms(1) by (simp add: c_def utf8_second_4_def Let_def)
  have "(b - 0xF0) * 262144 + (x - 0x80) * 4096 < 0x110000" using assms(1) by (simp add: utf8_second_4_def scalar_def Let_def)
  then have "((b - 0xF0) * 64 + (x - 0x80)) < 0x110" by simp
  then have "c < 0x110000" using y(1) z(1) unfolding c_def by linarith
  then show "scalar c" using le by (simp add: scalar_def)
  show "utf8_unit c = [b, x, y, z]"
    using utf8_unit_4 [OF le [unfolded c_def] x(1) y(1) z(1)] assms(2) x(2) y(2) z(2) by (simp add: c_def)
qed

lemma utf8_next_sound:
  assumes "utf8_next us = Char c r"
  shows "scalar c \<and> us = utf8_unit c @ r"
proof (cases us)
  case Nil
  then show ?thesis using assms by (simp add: utf8_next_def)
next
  case (Cons b t)
  consider "b < 0x80" | "0xC2 \<le> b" "b < 0xE0" | "0xE0 \<le> b" "b < 0xF0" | "0xF0 \<le> b" "b < 0xF5"
    using assms Cons by (force simp: utf8_next_def split: if_splits)
  then show ?thesis
  proof cases
    case 1
    then show ?thesis using assms Cons by (simp add: utf8_next_def utf8_unit_def scalar_def)
  next
    case 2
    then obtain x where t: "t = x # r" "continuation x" "c = (b - 0xC0) * 64 + (x - 0x80)"
      using assms Cons by (auto simp: utf8_next_def split: if_splits list.splits)
    show ?thesis using utf8_unit_2 [of "b - 0xC0" "x - 0x80"] continuation_less [of x] 2 t Cons by simp
  next
    case 3
    then obtain x y where t: "t = x # y # r" "utf8_second b x" "continuation y"
        "c = (b - 0xE0) * 4096 + (x - 0x80) * 64 + (y - 0x80)"
      using assms Cons by (auto simp: utf8_next_def split: if_splits list.splits)
    show ?thesis using utf8_second_char [OF t(2) 3 t(3)] t Cons by simp
  next
    case 4
    then obtain x y z where t: "t = x # y # z # r" "utf8_second_4 b x" "continuation y" "continuation z"
        "c = (b - 0xF0) * 262144 + (x - 0x80) * 4096 + (y - 0x80) * 64 + (z - 0x80)"
      using assms Cons by (auto simp: utf8_next_def split: if_splits list.splits)
    show ?thesis using utf8_second_4_char [OF t(2) 4 t(3,4)] t Cons by simp
  qed
qed

text \<open>What is incomplete is the beginning of a character, and the other way round.\<close>

lemma begins_charI: "scalar c \<Longrightarrow> unit c = us @ vs \<Longrightarrow> vs \<noteq> [] \<Longrightarrow> begins_char unit us"
  by (auto simp: begins_char_def)

lemma utf8_incomplete:
  assumes "utf8_next us = Incomplete" shows "begins_char utf8_unit us"
proof (cases us)
  case Nil
  then show ?thesis by (intro begins_charI [of 0 _ _ "[0]"]) (simp_all add: scalar_def utf8_unit_def)
next
  case (Cons b t)
  have cont: "continuation 0x80" by (simp add: continuation_def)
  consider "0xC2 \<le> b" "b < 0xE0" "t = []"
    | "0xE0 \<le> b" "b < 0xF0" "t = []" | x where "0xE0 \<le> b" "b < 0xF0" "t = [x]" "utf8_second b x"
    | "0xF0 \<le> b" "b < 0xF5" "t = []" | x where "0xF0 \<le> b" "b < 0xF5" "t = [x]" "utf8_second_4 b x"
    | x y where "0xF0 \<le> b" "b < 0xF5" "t = [x, y]" "utf8_second_4 b x" "continuation y"
    using assms Cons by (auto simp: utf8_next_def split: if_splits list.splits)
  then show ?thesis
  proof cases
    case 1
    then show ?thesis using utf8_unit_2 [of "b - 0xC0" 0] Cons by (intro begins_charI [of "(b - 0xC0) * 64" _ _ "[0x80]"]) simp_all
  next
    case 2
    define x :: nat where "x = (if b = 0xE0 then 0xA0 else 0x80)"
    have "utf8_second b x" using 2 by (auto simp: utf8_second_def continuation_def scalar_def x_def Let_def)
    from utf8_second_char [OF this 2(1,2) cont] show ?thesis
      using Cons 2(3) by (intro begins_charI [where vs = "[x, 0x80]"]) simp_all
  next
    case (3 x)
    from utf8_second_char [OF 3(4,1,2) cont] show ?thesis
      using Cons 3(3) by (intro begins_charI [where vs = "[0x80]"]) simp_all
  next
    case 4
    define x :: nat where "x = (if b = 0xF0 then 0x90 else 0x80)"
    have "utf8_second_4 b x" using 4 by (auto simp: utf8_second_4_def continuation_def scalar_def x_def Let_def)
    from utf8_second_4_char [OF this 4(1,2) cont cont] show ?thesis
      using Cons 4(3) by (intro begins_charI [where vs = "[x, 0x80, 0x80]"]) simp_all
  next
    case (5 x)
    from utf8_second_4_char [OF 5(4,1,2) cont cont] show ?thesis
      using Cons 5(3) by (intro begins_charI [where vs = "[0x80, 0x80]"]) simp_all
  next
    case (6 x y)
    from utf8_second_4_char [OF 6(4,1,2,5) cont] show ?thesis
      using Cons 6(3) by (intro begins_charI [where vs = "[0x80]"]) simp_all
  qed
qed

text \<open>A reader that knows a whole character and stops short of it was given too little of it.\<close>

lemma begins_incomplete:
  assumes "begins_char unit us" and "\<And>c rest. scalar c \<Longrightarrow> nxt (unit c @ rest) = Char c rest"
    and "\<And>c r vs. nxt us = Char c r \<Longrightarrow> nxt (us @ vs) = Char c (r @ vs)" and "\<And>vs. nxt us = Invalid \<Longrightarrow> nxt (us @ vs) = Invalid"
  shows "nxt us = Incomplete"
proof -
  obtain c vs where c: "scalar c" "vs \<noteq> []" "unit c = us @ vs" using assms(1) by (auto simp: begins_char_def)
  have "nxt (us @ vs) = Char c []" using assms(2) [OF c(1), of "[]"] c(3) by simp
  then show ?thesis using assms(3) [of _ _ vs] assms(4) [of vs] c(2) by (cases "nxt us") auto
qed

lemma utf8_next_append:
  "utf8_next us = Char c r \<Longrightarrow> utf8_next (us @ vs) = Char c (r @ vs)" "utf8_next us = Invalid \<Longrightarrow> utf8_next (us @ vs) = Invalid"
  by (auto simp: utf8_next_def split: if_splits list.splits)

interpretation utf8: codec utf8_unit utf8_next
proof
  show "utf8_unit c \<noteq> []" for c by (simp add: utf8_unit_def)
  show "utf8_next us = Incomplete \<longleftrightarrow> begins_char utf8_unit us" for us
    using utf8_incomplete begins_incomplete [OF _ utf8_next_unit utf8_next_append] by blast
qed (simp_all add: utf8_next_unit utf8_next_sound)

lemma utf16_next_unit:
  assumes "scalar c"
  shows "utf16_next (utf16_unit c @ us) = Char c us"
proof (cases "c < 0x10000")
  case True
  then show ?thesis using assms by (auto simp: utf16_unit_def utf16_next_def scalar_def)
next
  case False
  have "(c - 0x10000) div 1024 < 1024" using assms unfolding scalar_def by linarith
  moreover have "0x10000 + (c - 0x10000) div 1024 * 1024 + (c - 0x10000) mod 1024 = c"
    using False div_mult_mod_eq [of "c - 0x10000" 1024] by linarith
  ultimately show ?thesis using False by (simp add: utf16_unit_def utf16_next_def)
qed

lemma utf16_next_sound:
  assumes "utf16_next us = Char c r"
  shows "scalar c \<and> us = utf16_unit c @ r"
proof (cases us)
  case Nil
  then show ?thesis using assms by (simp add: utf16_next_def)
next
  case (Cons u t)
  show ?thesis
  proof (cases "u < 0xD800 \<or> 0xE000 \<le> u \<and> u < 0x10000")
    case True
    then show ?thesis using assms Cons by (auto simp: utf16_next_def utf16_unit_def scalar_def)
  next
    case False
    then obtain x where x: "t = x # r" "0xD800 \<le> u" "u < 0xDC00" "0xDC00 \<le> x" "x < 0xE000"
        "c = 0x10000 + (u - 0xD800) * 1024 + (x - 0xDC00)"
      using assms Cons by (auto simp: utf16_next_def split: if_splits list.splits)
    define a z where "a = u - 0xD800" and "z = x - 0xDC00"
    have az: "a < 1024" "z < 1024" "u = 0xD800 + a" "x = 0xDC00 + z" using x by (simp_all add: a_def z_def)
    then show ?thesis using x Cons by (simp add: utf16_unit_def scalar_def)
  qed
qed

lemma utf16_incomplete:
  assumes "utf16_next us = Incomplete" shows "begins_char utf16_unit us"
proof (cases us)
  case Nil
  then show ?thesis by (intro begins_charI [of 0 _ _ "[0]"]) (simp_all add: scalar_def utf16_unit_def)
next
  case (Cons u t)
  then have u: "0xD800 \<le> u" "u < 0xDC00" "t = []"
    using assms by (auto simp: utf16_next_def split: if_splits list.splits)
  define a where "a = u - 0xD800"
  have "a < 1024" "u = 0xD800 + a" using u by (simp_all add: a_def)
  then show ?thesis using Cons u(3)
    by (intro begins_charI [of "0x10000 + a * 1024" _ _ "[0xDC00]"]) (simp_all add: scalar_def utf16_unit_def)
qed

lemma utf16_next_append:
  "utf16_next us = Char c r \<Longrightarrow> utf16_next (us @ vs) = Char c (r @ vs)" "utf16_next us = Invalid \<Longrightarrow> utf16_next (us @ vs) = Invalid"
  by (auto simp: utf16_next_def split: if_splits list.splits)

interpretation utf16: codec utf16_unit utf16_next
proof
  show "utf16_unit c \<noteq> []" for c by (simp add: utf16_unit_def)
  show "utf16_next us = Incomplete \<longleftrightarrow> begins_char utf16_unit us" for us
    using utf16_incomplete begins_incomplete [OF _ utf16_next_unit utf16_next_append] by blast
qed (simp_all add: utf16_next_unit utf16_next_sound)

lemma begins_single [simp]: "begins_char (\<lambda>c. [c]) us \<longleftrightarrow> us = []"
proof -
  have "scalar 0" by (simp add: scalar_def)
  then show ?thesis by (auto simp: begins_char_def Cons_eq_append_conv)
qed

interpretation utf32: codec "\<lambda>c. [c]" utf32_next
  by unfold_locales (auto simp: utf32_next_def split: list.splits if_splits)

interpretation utf8_utf32: transcoder utf8_unit utf8_next "\<lambda>c. [c]" utf32_next
  by unfold_locales

interpretation utf8_utf16: transcoder utf8_unit utf8_next utf16_unit utf16_next
  by unfold_locales

interpretation utf16_utf8: transcoder utf16_unit utf16_next utf8_unit utf8_next
  by unfold_locales

interpretation utf32_utf16: transcoder "\<lambda>c. [c]" utf32_next utf16_unit utf16_next
  by unfold_locales

text \<open>Every unit a codec writes fits its type.\<close>

lemma utf8_unit_bound: "scalar c \<Longrightarrow> \<forall>b \<in> set (utf8_unit c). b < 256"
proof -
  assume "scalar c"
  then have "c div 262144 < 5" unfolding scalar_def by linarith
  then show ?thesis by (auto simp: utf8_unit_def)
qed

lemma utf16_unit_bound: "scalar c \<Longrightarrow> \<forall>b \<in> set (utf16_unit c). b < 65536"
  by (auto simp: utf16_unit_def scalar_def)

section \<open>Numbers\<close>

text \<open>\<open>std::to_string\<close> and \<open>std::to_wstring\<close> of an integral type.\<close>

definition int_text :: "int \<Rightarrow> string" where
  "int_text n = (if n < 0 then CHR ''-'' # to_string (nat (- n)) else to_string (nat n))"

text \<open>
  \<open>std::stoll(s, 0, 0)\<close> and \<open>std::stoull(s, 0, 0)\<close> over the units of a narrow or wide string: white
  space and a sign are skipped, a prefix \<open>0x\<close> selects base 16 and any other leading zero base 8, the
  longest run of digits is converted and the rest is ignored.
\<close>

definition space_unit :: "nat \<Rightarrow> bool" where
  "space_unit u \<longleftrightarrow> u \<in> {9, 10, 11, 12, 13, 32}"

definition digit_val :: "nat \<Rightarrow> nat" where
  "digit_val u = (if 48 \<le> u \<and> u \<le> 57 then u - 48
     else if 65 \<le> u \<and> u \<le> 70 then u - 55
     else if 97 \<le> u \<and> u \<le> 102 then u - 87 else 16)"

definition sign_unit :: "nat list \<Rightarrow> bool \<times> nat list" where
  "sign_unit us = (case us of [] \<Rightarrow> (False, [])
     | u # r \<Rightarrow> if u = 45 then (True, r) else if u = 43 then (False, r) else (False, us))"

definition detect_base :: "nat list \<Rightarrow> nat \<times> nat list" where
  "detect_base us =
     (if 3 \<le> length us \<and> us ! 0 = 48 \<and> us ! 1 \<in> {88, 120} \<and> digit_val (us ! 2) < 16 then (16, drop 2 us)
      else if us \<noteq> [] \<and> us ! 0 = 48 then (8, us) else (10, us))"

definition number_parts :: "nat list \<Rightarrow> (bool \<times> nat) option" where
  "number_parts us =
     (let (neg, body) = sign_unit (dropWhile space_unit us);
          (base, body) = detect_base body;
          ds = takeWhile (\<lambda>u. digit_val u < base) body
      in if ds = [] then None else Some (neg, foldl (\<lambda>acc u. acc * base + digit_val u) 0 ds))"

definition stoll :: "nat list \<Rightarrow> u64 outcome" where
  "stoll us = (case number_parts us of None \<Rightarrow> Inl InvalidArgument
     | Some (neg, n) \<Rightarrow>
         if neg then (if 2 ^ 63 < n then Inl OutOfRange else Inr (- word_of_nat n))
         else (if 2 ^ 63 \<le> n then Inl OutOfRange else Inr (word_of_nat n)))"

definition stoull :: "nat list \<Rightarrow> u64 outcome" where
  "stoull us = (case number_parts us of None \<Rightarrow> Inl InvalidArgument
     | Some (neg, n) \<Rightarrow> if 2 ^ 64 \<le> n then Inl OutOfRange
         else Inr (if neg then - word_of_nat n else word_of_nat n))"

section \<open>Case and white space\<close>

text \<open>
  \<open>toLower\<close>, \<open>toUpper\<close> and \<open>ltrim\<close> over the units of a string of any character type, in the default
  locale.
\<close>

definition toLower :: "nat list \<Rightarrow> nat list" where
  "toLower = map (\<lambda>c. if 65 \<le> c \<and> c \<le> 90 then c + 32 else c)"

definition toUpper :: "nat list \<Rightarrow> nat list" where
  "toUpper = map (\<lambda>c. if 97 \<le> c \<and> c \<le> 122 then c - 32 else c)"

definition ltrim :: "nat list \<Rightarrow> nat list" where
  "ltrim us = dropWhile space_unit us"

section \<open>Conversions between strings\<close>

definition bytes :: "string \<Rightarrow> nat list" where
  "bytes s = map of_char s"

text \<open>An ASCII literal with any character type.\<close>

definition wide :: "string \<Rightarrow> 'a::len word list" where
  "wide s = map word_of_nat (bytes s)"

text \<open>To \<open>std::string\<close>.\<close>

definition string_of_u32string :: "u32string \<Rightarrow> string outcome" where
  "string_of_u32string str = map_sum id (map char_of) (transcode utf32_next utf8_unit (map unat str))"

definition string_of_u16string :: "u16string \<Rightarrow> string outcome" where
  "string_of_u16string str = map_sum id (map char_of) (transcode utf16_next utf8_unit (map unat str))"

definition string_of_wstring :: "wstring \<Rightarrow> string outcome" where
  "string_of_wstring str = map_sum id (map char_of) (transcode utf32_next utf8_unit (map unat str))"

definition string_of_bool :: "bool \<Rightarrow> string" where
  "string_of_bool b = (if b then ''true'' else ''false'')"

definition string_of_num :: "int \<Rightarrow> string" where
  "string_of_num num = int_text num"

text \<open>To \<open>std::u32string\<close>.\<close>

definition u32string_of_string :: "string \<Rightarrow> u32string outcome" where
  "u32string_of_string str = map_sum id (map word_of_nat) (transcode utf8_next (\<lambda>c. [c]) (bytes str))"

definition u32string_of_u16string :: "u16string \<Rightarrow> u32string outcome" where
  "u32string_of_u16string str = (case string_of_u16string str of Inl e \<Rightarrow> Inl e | Inr s \<Rightarrow> u32string_of_string s)"

definition u32string_of_wstring :: "wstring \<Rightarrow> u32string" where
  "u32string_of_wstring str = str"

definition u32string_of_bool :: "bool \<Rightarrow> u32string" where
  "u32string_of_bool b = (if b then wide ''true'' else wide ''false'')"

definition u32string_of_num :: "int \<Rightarrow> u32string outcome" where
  "u32string_of_num num = u32string_of_string (int_text num)"

text \<open>To \<open>std::u16string\<close>.\<close>

definition u16string_of_string :: "string \<Rightarrow> u16string outcome" where
  "u16string_of_string str = map_sum id (map word_of_nat) (transcode utf8_next utf16_unit (bytes str))"

definition u16string_of_u32string :: "u32string \<Rightarrow> u16string outcome" where
  "u16string_of_u32string str = (case string_of_u32string str of Inl e \<Rightarrow> Inl e | Inr s \<Rightarrow> u16string_of_string s)"

definition u16string_of_wstring :: "wstring \<Rightarrow> u16string outcome" where
  "u16string_of_wstring str = (case string_of_wstring str of Inl e \<Rightarrow> Inl e | Inr s \<Rightarrow> u16string_of_string s)"

definition u16string_of_bool :: "bool \<Rightarrow> u16string" where
  "u16string_of_bool b = (if b then wide ''true'' else wide ''false'')"

definition u16string_of_num :: "int \<Rightarrow> u16string outcome" where
  "u16string_of_num num = u16string_of_string (int_text num)"

text \<open>To \<open>std::wstring\<close>.\<close>

definition wstring_of_u32string :: "u32string \<Rightarrow> wstring" where
  "wstring_of_u32string str = str"

definition wstring_of_u16string :: "u16string \<Rightarrow> wstring outcome" where
  "wstring_of_u16string str = u32string_of_u16string str"

definition wstring_of_string :: "string \<Rightarrow> wstring outcome" where
  "wstring_of_string str = u32string_of_string str"

definition wstring_of_bool :: "bool \<Rightarrow> wstring" where
  "wstring_of_bool b = (if b then wide ''true'' else wide ''false'')"

definition wstring_of_num :: "int \<Rightarrow> wstring" where
  "wstring_of_num num = wide (int_text num)"

section \<open>Conversions to numbers and to \<open>bool\<close>\<close>

text \<open>
  A \<open>long long\<close> and an \<open>unsigned long long\<close> are 64-bit words, an \<open>int\<close> is a 32-bit word; the signed
  ones are read with \<open>sint\<close>. A \<open>std::u32string\<close> goes through a pointer to its characters, which
  ends at the first zero.
\<close>

definition c_str :: "'a::len word list \<Rightarrow> 'a word list" where
  "c_str str = takeWhile (\<lambda>u. u \<noteq> 0) str"

definition long_long_of_string :: "string \<Rightarrow> u64 outcome" where
  "long_long_of_string str = stoll (bytes str)"

definition long_long_of_wstring :: "wstring \<Rightarrow> u64 outcome" where
  "long_long_of_wstring str = stoll (map unat str)"

definition long_long_of_u32string :: "u32string \<Rightarrow> u64 outcome" where
  "long_long_of_u32string str = long_long_of_wstring (c_str str)"

definition long_long_of_u16string :: "u16string \<Rightarrow> u64 outcome" where
  "long_long_of_u16string str =
     (case u32string_of_u16string str of Inl e \<Rightarrow> Inl e | Inr s \<Rightarrow> long_long_of_u32string s)"

definition unsigned_long_long_of_string :: "string \<Rightarrow> u64 outcome" where
  "unsigned_long_long_of_string str = stoull (bytes str)"

definition unsigned_long_long_of_wstring :: "wstring \<Rightarrow> u64 outcome" where
  "unsigned_long_long_of_wstring str = stoull (map unat str)"

definition unsigned_long_long_of_u32string :: "u32string \<Rightarrow> u64 outcome" where
  "unsigned_long_long_of_u32string str = unsigned_long_long_of_wstring (c_str str)"

definition unsigned_long_long_of_u16string :: "u16string \<Rightarrow> u64 outcome" where
  "unsigned_long_long_of_u16string str =
     (case u32string_of_u16string str of Inl e \<Rightarrow> Inl e | Inr s \<Rightarrow> unsigned_long_long_of_u32string s)"

definition int_of_string :: "string \<Rightarrow> u32 outcome" where
  "int_of_string str = map_sum id ucast (stoll (bytes str))"

definition int_of_wstring :: "wstring \<Rightarrow> u32 outcome" where
  "int_of_wstring str = map_sum id ucast (stoll (map unat str))"

definition int_of_u16string :: "u16string \<Rightarrow> u32 outcome" where
  "int_of_u16string str = map_sum id ucast (long_long_of_u16string str)"

definition int_of_u32string :: "u32string \<Rightarrow> u32 outcome" where
  "int_of_u32string str = map_sum id ucast (long_long_of_u32string str)"

definition bool_of_string :: "string \<Rightarrow> bool" where
  "bool_of_string str = (let tempStr = toLower (bytes str) in if tempStr = bytes ''true'' then True else False)"

definition bool_of_wstring :: "wstring \<Rightarrow> bool" where
  "bool_of_wstring str = (let tempStr = toLower (map unat str) in if tempStr = bytes ''true'' then True else False)"

section \<open>Round trips between strings\<close>

lemma pack_iff:
  assumes "\<And>vs. x = Inr vs \<Longrightarrow> unpack (pack vs) = vs" and "\<And>s. pack (unpack s) = s"
  shows "map_sum id pack x = Inr s \<longleftrightarrow> x = Inr (unpack s)"
  using assms by (cases x) force+

lemma unpack_words:
  "\<forall>v \<in> set vs. v < 2 ^ LENGTH('a) \<Longrightarrow> map (unat :: 'a::len word \<Rightarrow> nat) (map word_of_nat vs) = vs"
  by (simp add: map_idI unsigned_of_nat take_bit_nat_eq_self)

lemma unpack_chars: "\<forall>v \<in> set vs. v < 256 \<Longrightarrow> bytes (map char_of vs) = vs"
  by (simp add: bytes_def map_idI)

lemma pack_words: "map word_of_nat (map unat us) = us"
  by (simp add: map_idI)

lemma pack_chars: "map char_of (bytes s) = s"
  by (simp add: bytes_def map_idI)

lemma utf8_bounded: "\<forall>c \<in> set cs. scalar c \<Longrightarrow> \<forall>v \<in> set (concat (map utf8_unit cs)). v < 256"
  using utf8_unit_bound by fastforce

lemma utf16_bounded: "\<forall>c \<in> set cs. scalar c \<Longrightarrow> \<forall>v \<in> set (concat (map utf16_unit cs)). v < 65536"
  using utf16_unit_bound by fastforce

lemma transcode_bounded:
  "transcode utf8_next (\<lambda>c. [c]) bs = Inr us \<Longrightarrow> \<forall>v \<in> set us. v < 2 ^ LENGTH(32)"
  "transcode utf32_next utf8_unit us = Inr bs \<Longrightarrow> \<forall>v \<in> set bs. v < 256"
  "transcode utf8_next utf16_unit bs = Inr ws \<Longrightarrow> \<forall>v \<in> set ws. v < 2 ^ LENGTH(16)"
  "transcode utf16_next utf8_unit ws = Inr bs \<Longrightarrow> \<forall>v \<in> set bs. v < 256"
proof -
  assume "transcode utf8_next (\<lambda>c. [c]) bs = Inr us"
  then show "\<forall>v \<in> set us. v < 2 ^ LENGTH(32)"
    by (auto simp: utf8_utf32.forth_iff scalar_def)
next
  assume "transcode utf32_next utf8_unit us = Inr bs"
  then obtain cs where "\<forall>c \<in> set cs. scalar c" "bs = concat (map utf8_unit cs)"
    unfolding utf8_utf32.back_iff by blast
  then show "\<forall>v \<in> set bs. v < 256" using utf8_bounded by blast
next
  assume "transcode utf8_next utf16_unit bs = Inr ws"
  then obtain cs where "\<forall>c \<in> set cs. scalar c" "ws = concat (map utf16_unit cs)"
    unfolding utf8_utf16.forth_iff by blast
  then show "\<forall>v \<in> set ws. v < 2 ^ LENGTH(16)" using utf16_bounded by simp
next
  assume "transcode utf16_next utf8_unit ws = Inr bs"
  then obtain cs where "\<forall>c \<in> set cs. scalar c" "bs = concat (map utf8_unit cs)"
    unfolding utf8_utf16.back_iff by blast
  then show "\<forall>v \<in> set bs. v < 256" using utf8_bounded by blast
qed

lemma u32string_of_string_iff:
  "u32string_of_string s = Inr us \<longleftrightarrow> transcode utf8_next (\<lambda>c. [c]) (bytes s) = Inr (map unat us)"
  unfolding u32string_of_string_def by (rule pack_iff [OF unpack_words [OF transcode_bounded(1)] pack_words])

lemma string_of_u32string_iff:
  "string_of_u32string us = Inr s \<longleftrightarrow> transcode utf32_next utf8_unit (map unat us) = Inr (bytes s)"
  unfolding string_of_u32string_def by (rule pack_iff [OF unpack_chars [OF transcode_bounded(2)] pack_chars])

lemma u16string_of_string_iff:
  "u16string_of_string s = Inr ws \<longleftrightarrow> transcode utf8_next utf16_unit (bytes s) = Inr (map unat ws)"
  unfolding u16string_of_string_def by (rule pack_iff [OF unpack_words [OF transcode_bounded(3)] pack_words])

lemma string_of_u16string_iff:
  "string_of_u16string ws = Inr s \<longleftrightarrow> transcode utf16_next utf8_unit (map unat ws) = Inr (bytes s)"
  unfolding string_of_u16string_def by (rule pack_iff [OF unpack_chars [OF transcode_bounded(4)] pack_chars])

lemmas conversion_iffs = u32string_of_string_iff string_of_u32string_iff u16string_of_string_iff
  string_of_u16string_iff

text \<open>Packed, the conversion back gives the text without the beginning of a character at its end.\<close>

lemma unpack_take: "bytes (take n s) = take n (bytes s)" "map unat (take n ws) = take n (map unat ws)"
    "bytes (drop n s) = drop n (bytes s)" "map unat (drop n ws) = drop n (map unat ws)" "length (bytes s) = length s"
  by (simp_all add: bytes_def take_map drop_map)

lemma u32string_back:
  assumes "string_of_u32string us = Inr s" shows "u32string_of_string s = Inr us"
proof -
  obtain cs where "\<forall>c \<in> set cs. scalar c" "map unat us = concat (map (\<lambda>c. [c]) cs)" "bytes s = concat (map utf8_unit cs)"
    using assms unfolding conversion_iffs utf8_utf32.back_iff begins_single by (metis append_Nil2)
  then show ?thesis unfolding conversion_iffs by (metis utf8_utf32.forth_units)
qed

lemma tail_of_take: "xs = take n xs @ tail \<Longrightarrow> drop n xs = tail"
  by (metis append_take_drop_id same_append_eq)

lemma string_back:
  assumes "u32string_of_string s = Inr us"
  obtains t rest where "s = t @ rest" and "begins_char utf8_unit (bytes rest)" and "string_of_u32string us = Inr t"
proof -
  obtain tail where t: "begins_char utf8_unit tail"
    "transcode utf32_next utf8_unit (map unat us) = Inr (take (length (bytes s) - length tail) (bytes s))"
    "bytes s = take (length (bytes s) - length tail) (bytes s) @ tail"
    using assms unfolding conversion_iffs by (rule utf8_utf32.back_forth)
  then show thesis
    using that [of "take (length s - length tail) s" "drop (length s - length tail) s"] tail_of_take [OF t(3)]
    by (simp add: conversion_iffs unpack_take)
qed

lemma u16_string_back:
  assumes "u16string_of_string s = Inr ws"
  obtains t rest where "s = t @ rest" and "begins_char utf8_unit (bytes rest)" and "string_of_u16string ws = Inr t"
proof -
  obtain tail where t: "begins_char utf8_unit tail"
    "transcode utf16_next utf8_unit (map unat ws) = Inr (take (length (bytes s) - length tail) (bytes s))"
    "bytes s = take (length (bytes s) - length tail) (bytes s) @ tail"
    using assms unfolding conversion_iffs by (rule utf8_utf16.back_forth)
  then show thesis
    using that [of "take (length s - length tail) s" "drop (length s - length tail) s"] tail_of_take [OF t(3)]
    by (simp add: conversion_iffs unpack_take)
qed

lemma u16string_back:
  assumes "string_of_u16string ws = Inr s"
  obtains vs rest where "ws = vs @ rest" and "begins_char utf16_unit (map unat rest)" and "u16string_of_string s = Inr vs"
proof -
  obtain tail where t: "begins_char utf16_unit tail"
    "transcode utf8_next utf16_unit (bytes s) = Inr (take (length (map unat ws) - length tail) (map unat ws))"
    "map unat ws = take (length (map unat ws) - length tail) (map unat ws) @ tail"
    using assms unfolding conversion_iffs by (rule utf16_utf8.back_forth)
  then show thesis
    using that [of "take (length ws - length tail) ws" "drop (length ws - length tail) ws"] tail_of_take [OF t(3)]
    by (simp add: conversion_iffs unpack_take)
qed

text \<open>What a conversion writes is whole, so it is converted back exactly.\<close>

lemma written_whole:
  "string_of_u16string ws = Inr s \<Longrightarrow> u16string_of_string s = Inr vs \<Longrightarrow> string_of_u16string vs = Inr s"
  "u16string_of_string s = Inr ws \<Longrightarrow> string_of_u16string ws = Inr t \<Longrightarrow> u16string_of_string t = Inr ws"
  "u32string_of_string s = Inr us \<Longrightarrow> string_of_u32string us = Inr t \<Longrightarrow> u32string_of_string t = Inr us"
proof -
  assume a: "string_of_u16string ws = Inr s" "u16string_of_string s = Inr vs"
  obtain cs where "\<forall>c \<in> set cs. scalar c" "bytes s = concat (map utf8_unit cs)"
    using a(1) unfolding conversion_iffs utf8_utf16.back_iff by blast
  then show "string_of_u16string vs = Inr s"
    using a(2) unfolding conversion_iffs by (metis utf8_utf16.forth_units utf8_utf16.back_units sum.inject(2))
next
  assume a: "u16string_of_string s = Inr ws" "string_of_u16string ws = Inr t"
  obtain cs where "\<forall>c \<in> set cs. scalar c" "map unat ws = concat (map utf16_unit cs)"
    using a(1) unfolding conversion_iffs utf8_utf16.forth_iff by blast
  then show "u16string_of_string t = Inr ws"
    using a(2) unfolding conversion_iffs by (metis utf8_utf16.forth_units utf8_utf16.back_units sum.inject(2))
qed (rule u32string_back)

lemma wstring_is_u32string: "string_of_wstring = string_of_u32string" "wstring_of_string = u32string_of_string"
    "wstring_of_u16string = u32string_of_u16string" "u16string_of_wstring = u16string_of_u32string"
  by (simp_all add: fun_eq_iff string_of_wstring_def string_of_u32string_def wstring_of_string_def
      wstring_of_u16string_def u16string_of_wstring_def u16string_of_u32string_def)

lemma through_string:
  "u16string_of_u32string us = Inr ws \<longleftrightarrow> (\<exists>s. string_of_u32string us = Inr s \<and> u16string_of_string s = Inr ws)"
  "u32string_of_u16string ws = Inr us \<longleftrightarrow> (\<exists>s. string_of_u16string ws = Inr s \<and> u32string_of_string s = Inr us)"
  by (auto simp: u16string_of_u32string_def u32string_of_u16string_def split: sum.splits)

text \<open>C35. What one conversion between two string types yields, the conversion back turns into the text it
  came from, exactly if that was UTF-32, and otherwise without the proper beginning of a character at
  its end (of UTF-8, or one high surrogate), which the conversions leave out silently. So no two whole
  texts are confused. All pairs of the four types, with a 32-bit \<open>wchar_t\<close> and UCS-2 not forced.\<close>
theorem string_casts_back:
  "(string_of_u32string us = Inr s \<longrightarrow> u32string_of_string s = Inr us)
   \<and> (string_of_wstring us = Inr s \<longrightarrow> wstring_of_string s = Inr us)
   \<and> (u16string_of_u32string us = Inr ws \<longrightarrow> u32string_of_u16string ws = Inr us)
   \<and> (u16string_of_wstring us = Inr ws \<longrightarrow> wstring_of_u16string ws = Inr us)
   \<and> wstring_of_u32string (u32string_of_wstring us) = us \<and> u32string_of_wstring (wstring_of_u32string us) = us
   \<and> (u32string_of_string s = Inr us \<longrightarrow>
        (\<exists>t rest. s = t @ rest \<and> begins_char utf8_unit (bytes rest) \<and> string_of_u32string us = Inr t))
   \<and> (wstring_of_string s = Inr us \<longrightarrow>
        (\<exists>t rest. s = t @ rest \<and> begins_char utf8_unit (bytes rest) \<and> string_of_wstring us = Inr t))
   \<and> (u16string_of_string s = Inr ws \<longrightarrow>
        (\<exists>t rest. s = t @ rest \<and> begins_char utf8_unit (bytes rest) \<and> string_of_u16string ws = Inr t))
   \<and> (string_of_u16string ws = Inr s \<longrightarrow>
        (\<exists>vs rest. ws = vs @ rest \<and> begins_char utf16_unit (map unat rest) \<and> u16string_of_string s = Inr vs))
   \<and> (u32string_of_u16string ws = Inr us \<longrightarrow>
        (\<exists>vs rest. ws = vs @ rest \<and> begins_char utf16_unit (map unat rest) \<and> u16string_of_u32string us = Inr vs))
   \<and> (wstring_of_u16string ws = Inr us \<longrightarrow>
        (\<exists>vs rest. ws = vs @ rest \<and> begins_char utf16_unit (map unat rest) \<and> u16string_of_wstring us = Inr vs))"
proof -
  have a: "u32string_of_u16string ws = Inr us" if u: "u16string_of_u32string us = Inr ws"
  proof -
    obtain t where t: "string_of_u32string us = Inr t" "u16string_of_string t = Inr ws"
      using u unfolding through_string by blast
    obtain cs where cs: "\<forall>c \<in> set cs. scalar c" "bytes t = concat (map utf8_unit cs)"
      using t(1) unfolding conversion_iffs utf8_utf32.back_iff by blast
    then have "string_of_u16string ws = Inr t"
      using t(2) unfolding conversion_iffs by (metis utf8_utf16.forth_units utf8_utf16.back_units sum.inject(2))
    then show ?thesis unfolding through_string using u32string_back [OF t(1)] by blast
  qed
  have b: "\<exists>vs rest. ws = vs @ rest \<and> begins_char utf16_unit (map unat rest) \<and> u16string_of_u32string us = Inr vs"
    if u: "u32string_of_u16string ws = Inr us"
  proof -
    obtain t where t: "string_of_u16string ws = Inr t" "u32string_of_string t = Inr us"
      using u unfolding through_string by blast
    obtain vs rest where v: "ws = vs @ rest" "begins_char utf16_unit (map unat rest)" "u16string_of_string t = Inr vs"
      using t(1) by (rule u16string_back)
    obtain cs where cs: "\<forall>c \<in> set cs. scalar c" "bytes t = concat (map utf8_unit cs)"
      using t(1) unfolding conversion_iffs utf8_utf16.back_iff by blast
    then have "string_of_u32string us = Inr t"
      using t(2) unfolding conversion_iffs by (metis utf8_utf32.forth_units utf8_utf32.back_units sum.inject(2))
    then show ?thesis unfolding through_string using v by blast
  qed
  have c: "\<exists>t rest. s = t @ rest \<and> begins_char utf8_unit (bytes rest) \<and> string_of_u32string us = Inr t"
    if "u32string_of_string s = Inr us" using that by (rule string_back) blast
  have d: "\<exists>t rest. s = t @ rest \<and> begins_char utf8_unit (bytes rest) \<and> string_of_u16string ws = Inr t"
    if "u16string_of_string s = Inr ws" using that by (rule u16_string_back) blast
  have e: "\<exists>vs rest. ws = vs @ rest \<and> begins_char utf16_unit (map unat rest) \<and> u16string_of_string s = Inr vs"
    if "string_of_u16string ws = Inr s" using that by (rule u16string_back) blast
  show ?thesis
    unfolding wstring_is_u32string wstring_of_u32string_def u32string_of_wstring_def
    by (intro conjI impI refl; erule u32string_back a b c d e)
qed

text \<open>The text \<open>a\<close> followed by the first byte of four is cast to \<open>a\<close>.\<close>

theorem string_casts_back_witness:
  "u32string_of_string [CHR ''a'', char_of (0xF0 :: nat)] = Inr [97] \<and> string_of_u32string [97] = Inr ''a''
   \<and> u32string_of_string ''a'' = Inr [97]"
proof -
  have "u32string_of_string [CHR ''a'', char_of (0xF0 :: nat)] = Inr [97]" "string_of_u32string [97] = Inr ''a''"
    unfolding conversion_iffs
    by (simp_all add: transcode_def decode_def utf8_next_def utf32_next_def bytes_def scalar_def utf8_unit_def)
  then show ?thesis using string_casts_back [of "[97]" "''a''"] by blast
qed

text \<open>The way through UTF-8 is as good as the direct one.\<close>

lemma direct_iff:
  "u16string_of_u32string us = Inr ws \<longleftrightarrow>
     transcode utf32_next utf16_unit (map unat us) = Inr (map unat ws)" (is "_ \<longleftrightarrow> ?direct")
proof
  assume "u16string_of_u32string us = Inr ws"
  then obtain s cs where cs: "\<forall>c \<in> set cs. scalar c" "map unat us = concat (map (\<lambda>c. [c]) cs)"
      "bytes s = concat (map utf8_unit cs)" and s: "u16string_of_string s = Inr ws"
    unfolding through_string string_of_u32string_iff utf8_utf32.back_iff begins_single by (metis append_Nil2)
  from s show ?direct unfolding u16string_of_string_iff cs(2,3)
      utf8_utf16.forth_units [OF cs(1)] utf32_utf16.forth_units [OF cs(1)] .
next
  assume ?direct
  then obtain cs where cs: "\<forall>c \<in> set cs. scalar c" "map unat us = concat (map (\<lambda>c. [c]) cs)"
      "map unat ws = concat (map utf16_unit cs)"
    unfolding utf32_utf16.forth_iff begins_single by (metis append_Nil2)
  have b: "bytes (map char_of (concat (map utf8_unit cs))) = concat (map utf8_unit cs)"
    by (rule unpack_chars [OF utf8_bounded [OF cs(1)]])
  show "u16string_of_u32string us = Inr ws"
    unfolding through_string string_of_u32string_iff u16string_of_string_iff
    by (rule exI [of _ "map char_of (concat (map utf8_unit cs))"])
      (simp only: b cs(2,3) utf8_utf32.back_units [OF cs(1)] utf8_utf16.forth_units [OF cs(1)] simp_thms)
qed

text \<open>What the conversions write: from UTF-32 exactly the texts of Unicode characters are
  converted, each character to the one to four bytes of UTF-8 or the one or two units of UTF-16; the
  way through UTF-8 that the code takes to UTF-16 loses nothing and changes nothing.\<close>
lemma u32string_casts_text:
  "(string_of_u32string us = Inr s \<longleftrightarrow>
      list_all (\<lambda>u. scalar (unat u)) us \<and> bytes s = concat (map (\<lambda>u. utf8_unit (unat u)) us))
   \<and> (u16string_of_u32string us = Inr ws \<longleftrightarrow>
      list_all (\<lambda>u. scalar (unat u)) us \<and> map unat ws = concat (map (\<lambda>u. utf16_unit (unat u)) us))"
proof -
  have "concat (map (\<lambda>c. [c]) cs) = cs" for cs :: "nat list" by (induction cs) auto
  then show ?thesis
    unfolding direct_iff string_of_u32string_iff utf32_utf16.forth_iff utf8_utf32.back_iff
    by (auto simp: comp_def list_all_iff)
qed

section \<open>Numbers as text\<close>

lemma digit_val_char: "is_digit c \<Longrightarrow> digit_val (of_char c) = of_char c - 48 \<and> digit_val (of_char c) < 10"
  by (auto simp: is_digit_def digit_val_def)

lemma digits_value:
  "\<forall>c \<in> set ds. is_digit c \<Longrightarrow>
     foldl (\<lambda>acc u. acc * 10 + digit_val u) a (bytes ds) = foldl (\<lambda>acc c. 10 * acc + (of_char c - 48)) a ds"
  by (induction ds arbitrary: a) (simp_all add: bytes_def digit_val_char mult.commute)

lemma to_string_hd: "0 < n \<Longrightarrow> of_char (hd (to_string n)) \<noteq> (48::nat)"
proof (induction n rule: to_string.induct)
  case (1 n)
  show ?case
  proof (cases "n < 10")
    case True
    with 1 show ?thesis by (subst to_string.simps) simp
  next
    case False
    with "1.IH" show ?thesis by (subst to_string.simps) simp
  qed
qed

lemma number_parts_digits:
  assumes "sign_unit (dropWhile space_unit us) = (neg, bytes (to_string n))"
  shows "number_parts us = Some (neg, n)"
proof (cases "n = 0")
  case True
  then show ?thesis using assms
    by (simp add: number_parts_def to_string_zero bytes_def detect_base_def digit_val_def)
next
  case False
  have hd: "bytes (to_string n) ! 0 \<noteq> 48"
    using False to_string_hd [of n] by (cases "to_string n") (auto simp: bytes_def)
  have "\<forall>c \<in> set (to_string n). digit_val (of_char c) < 10"
    using to_string_digits [of n] digit_val_char by blast
  then have "takeWhile (\<lambda>u. digit_val u < 10) (bytes (to_string n)) = bytes (to_string n)"
    by (simp add: bytes_def takeWhile_eq_all_conv)
  moreover have "foldl (\<lambda>acc u. acc * 10 + digit_val u) 0 (bytes (to_string n)) = n"
    using digits_value [OF to_string_digits] digits_val_to_string [of n] by (simp add: digits_val_def)
  moreover have "bytes (to_string n) \<noteq> []" by (simp add: bytes_def)
  ultimately show ?thesis using assms hd by (simp add: number_parts_def detect_base_def Let_def del: takeWhile_eq_all_conv)
qed

lemma number_parts_text: "number_parts (bytes (int_text n)) = Some (n < 0, nat \<bar>n\<bar>)"
proof -
  obtain c cs where c: "to_string (nat n) = c # cs" "is_digit c" by (rule to_string_head)
  show ?thesis
    by (rule number_parts_digits)
      (use c in \<open>auto simp: int_text_def bytes_def sign_unit_def space_unit_def is_digit_def\<close>)
qed

lemma words_of_text: "map unat (wide s :: 'a::len word list) = bytes s" if "8 \<le> LENGTH('a)"
proof -
  have "(2::nat) ^ 8 \<le> 2 ^ LENGTH('a)" using that by (rule power_increasing) simp
  then have "\<forall>v \<in> set (bytes s). v < 2 ^ LENGTH('a)"
    using nat_of_char_less_256 by (auto simp: bytes_def intro: less_le_trans [OF nat_of_char_less_256])
  then show ?thesis unfolding wide_def by (rule unpack_words)
qed

lemma stoll_text: "stoll (bytes (int_text n)) =
    (if - (2 ^ 63) \<le> n \<and> n < 2 ^ 63 then Inr (word_of_int n) else Inl OutOfRange)"
  by (auto simp: stoll_def number_parts_text nat_less_iff)

lemma stoull_text: "stoull (bytes (int_text n)) =
    (if \<bar>n\<bar> < 2 ^ 64 then Inr (word_of_int n) else Inl OutOfRange)"
  by (auto simp: stoull_def number_parts_text nat_less_iff)

lemma narrow_int: "ucast (word_of_int n :: u64) = (word_of_int n :: u32)"
  by transfer simp

lemmas number_defs = stoll_def stoull_def number_parts_def bytes_def sign_unit_def detect_base_def
  digit_val_def space_unit_def

text \<open>C36. A number printed with \<open>string_cast\<close> and read back is the same number whenever it fits a
  \<open>long long\<close>, and \<open>std::out_of_range\<close> is thrown otherwise; the cast to \<open>int\<close> has the same range
  check and then keeps the low 32 bits, so it is exact for every \<open>int\<close> and wraps beyond.\<close>
theorem number_casts_back:
  "long_long_of_string (string_of_num n)
     = (if - (2 ^ 63) \<le> n \<and> n < 2 ^ 63 then Inr (word_of_int n) else Inl OutOfRange)
   \<and> long_long_of_wstring (wstring_of_num n)
     = (if - (2 ^ 63) \<le> n \<and> n < 2 ^ 63 then Inr (word_of_int n) else Inl OutOfRange)
   \<and> int_of_string (string_of_num n)
     = (if - (2 ^ 63) \<le> n \<and> n < 2 ^ 63 then Inr (word_of_int n) else Inl OutOfRange)
   \<and> unsigned_long_long_of_string (string_of_num n)
     = (if \<bar>n\<bar> < 2 ^ 64 then Inr (word_of_int n) else Inl OutOfRange)"
  by (simp add: long_long_of_string_def long_long_of_wstring_def int_of_string_def
      unsigned_long_long_of_string_def string_of_num_def wstring_of_num_def words_of_text
      stoll_text stoull_text narrow_int)

lemma bool_casts_back: "bool_of_string (string_of_bool b) = b \<and> bool_of_wstring (wstring_of_bool b) = b"
  by (cases b) (simp_all add: bool_of_string_def bool_of_wstring_def string_of_bool_def wstring_of_bool_def
      words_of_text toLower_def bytes_def)

lemma bool_of_string_upper: "bool_of_string ''TRUE''"
  by (simp add: bool_of_string_def toLower_def bytes_def)

end
