(* ===== verification/CastTest.thy ===== *)
theory CastTest
  imports StringCast
begin

text \<open>
  The test function at the end of src/utils/StringCast.hpp, compiled when \<open>UNIT_TEST\<close> is defined: its
  assertions with their lines, over the conversions of theory \<open>StringCast\<close>. The wrapper for
  pointers converts the string up to the first zero, a conversion to the same type is the identity.
  The literals are what the compiler makes of a list of characters.
\<close>

section \<open>Pointers, equal types and literals\<close>

definition pointed :: "string \<Rightarrow> string" where
  "pointed s = takeWhile (\<lambda>c. c \<noteq> CHR 0x00) s"

definition same_type :: "'a \<Rightarrow> 'a outcome" where
  "same_type s = Inr s"

definition u8_text :: "nat list \<Rightarrow> string" where
  "u8_text cs = map char_of (concat (map utf8_unit cs))"

definition u_text :: "nat list \<Rightarrow> u16string" where
  "u_text cs = map word_of_nat (concat (map utf16_unit cs))"

definition U_text :: "nat list \<Rightarrow> u32string" where
  "U_text cs = map word_of_nat cs"

section \<open>The assertions\<close>

text \<open>The line of an assertion, and what its condition yields: a truth value, or an exception.\<close>

type_synonym assertion = "nat \<times> bool outcome"

definition expect :: "'a \<Rightarrow> 'a outcome \<Rightarrow> bool outcome" where
  "expect a x = map_sum id (\<lambda>y. a = y) x"

definition via :: "'a outcome \<Rightarrow> ('a \<Rightarrow> 'b outcome) \<Rightarrow> 'b outcome" where
  "via x f = (case x of Inl e \<Rightarrow> Inl e | Inr y \<Rightarrow> f y)"

definition UnitTest_pointers :: "nat list \<Rightarrow> nat list \<Rightarrow> assertion list" where
  "UnitTest_pointers ucs literal =
     (let u8_ucs = u8_text ucs; L_ucs = U_text ucs; u8_literal = u8_text literal; u_literal = u_text literal;
          U_literal = U_text literal; L_literal = U_text literal
      in [(489, Inr (length L_literal = length U_literal)),
          (493, expect (pointed u8_ucs) (same_type (pointed u8_ucs))),
          (494, expect (pointed u8_ucs) (string_of_wstring (c_str L_ucs))),
          (495, expect (c_str L_ucs) (wstring_of_string (pointed u8_ucs))),
          (496, expect (c_str L_ucs) (same_type (c_str L_ucs))),
          (498, expect (pointed u8_literal) (same_type (pointed u8_literal))),
          (499, expect (pointed u8_literal) (string_of_u16string (c_str u_literal))),
          (500, expect (pointed u8_literal) (string_of_u32string (c_str U_literal))),
          (505, expect (pointed u8_literal) (string_of_wstring (c_str L_literal)))])"

definition UnitTest_to_string :: "nat list \<Rightarrow> assertion list" where
  "UnitTest_to_string literal =
     (let u8 = u8_text literal; u = u_text literal; U = U_text literal; L = U_text literal
      in [(508, expect u8 (via (same_type u8) same_type)),
          (509, expect u8 (via (u32string_of_string u8) string_of_u32string)),
          (510, expect u8 (via (u16string_of_string u8) string_of_u16string)),
          (512, expect u8 (via (wstring_of_string u8) string_of_wstring)),
          (515, expect u8 (string_of_u16string u)),
          (516, expect u8 (via (string_of_u16string u) same_type)),
          (517, expect u8 (via (u32string_of_u16string u) string_of_u32string)),
          (518, expect u8 (via (same_type u) string_of_u16string)),
          (520, expect u8 (via (wstring_of_u16string u) string_of_wstring)),
          (523, expect u8 (via (string_of_u32string U) same_type)),
          (524, expect u8 (via (same_type U) string_of_u32string)),
          (525, expect u8 (via (u16string_of_u32string U) string_of_u16string)),
          (527, expect u8 (string_of_wstring (wstring_of_u32string U))),
          (529, expect u8 (via (string_of_wstring L) same_type)),
          (530, expect u8 (via (same_type L) string_of_wstring)),
          (532, expect u8 (string_of_u32string (u32string_of_wstring L))),
          (533, expect u8 (via (u16string_of_wstring L) string_of_u16string))])"

definition UnitTest_to_u32string :: "nat list \<Rightarrow> assertion list" where
  "UnitTest_to_u32string literal =
     (let u = u_text literal; U = U_text literal; L = U_text literal
      in [(535, expect U (via (string_of_u32string U) u32string_of_string)),
          (536, expect U (via (same_type U) same_type)),
          (537, expect U (via (u16string_of_u32string U) u32string_of_u16string)),
          (538, expect U (Inr (u32string_of_wstring (wstring_of_u32string U)))),
          (540, expect U (via (string_of_u16string u) u32string_of_string)),
          (541, expect U (via (u32string_of_u16string u) same_type)),
          (542, expect U (via (same_type u) u32string_of_u16string)),
          (543, expect U (map_sum id u32string_of_wstring (wstring_of_u16string u))),
          (545, expect U (via (string_of_u32string U) u32string_of_string)),
          (546, expect U (via (same_type U) same_type)),
          (547, expect U (via (u16string_of_u32string U) u32string_of_u16string)),
          (548, expect U (Inr (u32string_of_wstring (wstring_of_u32string U)))),
          (551, expect U (via (string_of_wstring L) u32string_of_string)),
          (553, expect U (same_type (u32string_of_wstring L))),
          (554, expect U (via (u16string_of_wstring L) u32string_of_u16string)),
          (555, expect U (map_sum id u32string_of_wstring (same_type L)))])"

definition UnitTest_to_u16string :: "nat list \<Rightarrow> assertion list" where
  "UnitTest_to_u16string literal =
     (let u = u_text literal; U = U_text literal; L = U_text literal
      in [(557, expect u (via (string_of_u32string U) u16string_of_string)),
          (558, expect u (via (same_type U) u16string_of_u32string)),
          (559, expect u (via (u16string_of_u32string U) same_type)),
          (560, expect u (u16string_of_wstring (wstring_of_u32string U))),
          (562, expect u (via (string_of_u16string u) u16string_of_string)),
          (563, expect u (via (u32string_of_u16string u) u16string_of_u32string)),
          (564, expect u (via (same_type u) same_type)),
          (565, expect u (via (wstring_of_u16string u) u16string_of_wstring)),
          (567, expect u (via (string_of_u32string U) u16string_of_string)),
          (568, expect u (via (same_type U) u16string_of_u32string)),
          (569, expect u (via (u16string_of_u32string U) same_type)),
          (570, expect u (u16string_of_wstring (wstring_of_u32string U))),
          (573, expect u (via (string_of_wstring L) u16string_of_string)),
          (575, expect u (u16string_of_u32string (u32string_of_wstring L))),
          (576, expect u (via (u16string_of_wstring L) same_type)),
          (577, expect u (via (same_type L) u16string_of_wstring))])"

definition UnitTest_values :: "assertion list" where
  "UnitTest_values =
     [(579, expect ''42'' (Inr (string_of_num 42))), (580, expect (wide ''42'') (u32string_of_num 42)),
      (581, expect (wide ''42'') (u16string_of_num 42)), (582, expect (wide ''42'') (Inr (wstring_of_num 42))),
      (584, expect ''false'' (Inr (string_of_bool False))), (586, expect ''true'' (Inr (string_of_bool True))),
      (587, expect (wide ''true'') (Inr (u32string_of_bool True))),
      (588, expect (wide ''true'') (Inr (u16string_of_bool True))),
      (589, expect (wide ''true'') (Inr (wstring_of_bool True)))]"

definition UnitTest_ints :: "assertion list" where
  "UnitTest_ints =
     [(591, expect 0xA (int_of_string ''0010 bob'')), (592, expect 0xA (int_of_string '' 0010 bob'')),
      (593, expect 0xA (int_of_u32string (wide '' 000010 bob''))), (594, expect 0xA (int_of_u16string (wide '' 010 bob''))),
      (595, expect 0xA (int_of_wstring (wide ''   000010 bob''))),
      (597, expect 0xA (int_of_string '' 10 bob'')), (598, expect 0xA (int_of_u32string (wide '' 10 bob''))),
      (599, expect 0xA (int_of_u16string (wide '' 10 bob''))), (600, expect 0xA (int_of_wstring (wide '' 10 bob''))),
      (602, expect 0x7fffffff (int_of_string ''0x7fffffff'')), (603, expect 0x7fffffff (int_of_u32string (wide ''0x7fffffff''))),
      (604, expect 0x7fffffff (int_of_u16string (wide ''0x7fffffff''))),
      (605, expect 0x7fffffff (int_of_wstring (wide ''0x7fffffff'')))]"

definition UnitTest_longs :: "assertion list" where
  "UnitTest_longs =
     (let most = ''0x7fffffffffffffff''; all_ones = ''0xffffffffffffffff''; beyond = ''0xfffffffffffffffff''
      in [(607, expect 0x7fffffffffffffff (long_long_of_string most)),
          (608, expect 0x7fffffffffffffff (long_long_of_u32string (wide most))),
          (609, expect 0x7fffffffffffffff (long_long_of_u16string (wide most))),
          (610, expect 0x7fffffffffffffff (long_long_of_wstring (wide most))),
          (612, expect 0xffffffffffffffff (unsigned_long_long_of_string all_ones)),
          (614, expect 0xffffffffffffffff (unsigned_long_long_of_u32string (wide all_ones))),
          (616, expect 0xffffffffffffffff (unsigned_long_long_of_u16string (wide all_ones))),
          (618, expect 0xffffffffffffffff (unsigned_long_long_of_wstring (wide all_ones))),
          (621, expect 0 (unsigned_long_long_of_string beyond)),
          (622, expect 0 (unsigned_long_long_of_u32string (wide beyond))),
          (623, expect 0 (unsigned_long_long_of_u16string (wide beyond))),
          (624, expect 0 (unsigned_long_long_of_wstring (wide beyond)))])"

text \<open>The literals of the function, as characters.\<close>

definition ucs_literal :: "nat list" where
  "ucs_literal = [0x4F, 0x50, 0x53, 0x57, 0x41, 0x54, 0x6765, 0x65E5, 0x28, 0x32, 0x30, 0x31, 0x36, 0x5E74, 0x34, 0x6708, 0x29]"

definition emoji_literal :: "nat list" where
  "emoji_literal = [0x1F601, 0x20, 0x1F602, 0x20, 0x1F612, 0x20, 0x1F600, 0x1F62C, 0x1F61D] @ ucs_literal"

text \<open>A run of the function: it returns \<open>true\<close>, expect aborted at an assertion, or an exception leaves it.\<close>

datatype verdict = Returned bool | Aborted nat | Threw nat fault

fun run_assertions :: "assertion list \<Rightarrow> verdict" where
  "run_assertions [] = Returned True"
| "run_assertions ((line, Inr b) # rest) = (if b then run_assertions rest else Aborted line)"
| "run_assertions ((line, Inl e) # rest) = Threw line e"

definition UnitTest_assertions :: "assertion list" where
  "UnitTest_assertions = UnitTest_pointers ucs_literal emoji_literal @ UnitTest_to_string emoji_literal
     @ UnitTest_to_u32string emoji_literal @ UnitTest_to_u16string emoji_literal
     @ UnitTest_values @ UnitTest_ints @ UnitTest_longs"

definition UnitTest :: verdict where
  "UnitTest = run_assertions UnitTest_assertions"

definition not_met :: "assertion list \<Rightarrow> assertion list" where
  "not_met as = filter (\<lambda>a. snd a \<noteq> Inr True) as"

section \<open>The assertions on texts hold for every text\<close>

definition plain :: "nat list \<Rightarrow> bool" where
  "plain cs \<longleftrightarrow> (\<forall>c \<in> set cs. scalar c \<and> c \<noteq> 0)"

lemma text_units:
  assumes "plain cs"
  shows "bytes (u8_text cs) = concat (map utf8_unit cs)" and "map unat (u_text cs) = concat (map utf16_unit cs)"
    and "map unat (U_text cs) = cs"
proof -
  have sc: "\<forall>c \<in> set cs. scalar c" using assms by (simp add: plain_def)
  show "bytes (u8_text cs) = concat (map utf8_unit cs)"
    unfolding u8_text_def by (rule unpack_chars [OF utf8_bounded [OF sc]])
  show "map unat (u_text cs) = concat (map utf16_unit cs)"
    unfolding u_text_def by (rule unpack_words) (use utf16_bounded [OF sc] in simp)
  show "map unat (U_text cs) = cs"
    unfolding U_text_def by (rule unpack_words) (use sc in \<open>auto simp: scalar_def\<close>)
qed

lemma plain_texts:
  assumes "plain cs"
  shows "string_of_u32string (U_text cs) = Inr (u8_text cs)" and "u32string_of_string (u8_text cs) = Inr (U_text cs)"
    and "string_of_u16string (u_text cs) = Inr (u8_text cs)" and "u16string_of_string (u8_text cs) = Inr (u_text cs)"
proof -
  have sc: "\<forall>c \<in> set cs. scalar c" using assms by (simp add: plain_def)
  have c32: "concat (map (\<lambda>c. [c]) cs) = cs" by (induction cs) auto
  show "string_of_u32string (U_text cs) = Inr (u8_text cs)" and "u32string_of_string (u8_text cs) = Inr (U_text cs)"
    and "string_of_u16string (u_text cs) = Inr (u8_text cs)" and "u16string_of_string (u8_text cs) = Inr (u_text cs)"
    unfolding conversion_iffs text_units [OF assms]
    using utf8_utf32.back_units [OF sc] utf8_utf32.forth_units [OF sc]
      utf8_utf16.back_units [OF sc] utf8_utf16.forth_units [OF sc] by (simp_all add: c32)
qed

lemma plain_through:
  assumes "plain cs"
  shows "u16string_of_u32string (U_text cs) = Inr (u_text cs)" and "u32string_of_u16string (u_text cs) = Inr (U_text cs)"
  unfolding through_string using plain_texts [OF assms] by simp_all

lemma plain_pointed:
  assumes "plain cs"
  shows "pointed (u8_text cs) = u8_text cs" and "c_str (u_text cs) = u_text cs" and "c_str (U_text cs) = U_text cs"
proof -
  have units: "0 \<notin> set (utf8_unit c) \<and> 0 \<notin> set (utf16_unit c)" if "c \<noteq> 0" for c
    using that by (auto simp: utf8_unit_def utf16_unit_def)
  have none: "0 \<notin> set (bytes (u8_text cs))" "0 \<notin> set (map unat (u_text cs))" "0 \<notin> set (map unat (U_text cs))"
    using assms units unfolding text_units [OF assms] by (fastforce simp: plain_def)+
  have "CHR 0x00 \<notin> set (u8_text cs)" using none(1) by (force simp: bytes_def)
  moreover have "0 \<notin> set (u_text cs)" "0 \<notin> set (U_text cs)" using none(2,3) by force+
  ultimately show "pointed (u8_text cs) = u8_text cs" and "c_str (u_text cs) = u_text cs" and "c_str (U_text cs) = U_text cs"
    unfolding pointed_def c_str_def takeWhile_eq_all_conv by metis+
qed

lemmas text_defs = UnitTest_pointers_def UnitTest_to_string_def UnitTest_to_u32string_def UnitTest_to_u16string_def

lemma texts_met:
  assumes "plain ucs" and "plain cs"
  shows "not_met (UnitTest_pointers ucs cs) = []" and "not_met (UnitTest_to_string cs) = []"
    and "not_met (UnitTest_to_u32string cs) = []" and "not_met (UnitTest_to_u16string cs) = []"
  unfolding text_defs Let_def
  by (simp_all add: not_met_def expect_def via_def same_type_def wstring_is_u32string wstring_of_u32string_def
      u32string_of_wstring_def plain_texts [OF assms(1)] plain_texts [OF assms(2)] plain_through [OF assms(2)]
      plain_pointed [OF assms(1)] plain_pointed [OF assms(2)])

section \<open>The verdict\<close>

text \<open>ASCII literals are texts of one unit per character.\<close>

definition ascii :: "string \<Rightarrow> bool" where
  "ascii s \<longleftrightarrow> (\<forall>c \<in> set s. 0 < (of_char c :: nat) \<and> of_char c < (128::nat))"

lemma ascii_text:
  assumes "ascii s"
  shows "plain (bytes s)" and "u8_text (bytes s) = s" and "u_text (bytes s) = wide s" and "U_text (bytes s) = wide s"
proof -
  have "concat (map utf8_unit (bytes s)) = bytes s" "concat (map utf16_unit (bytes s)) = bytes s"
    using assms by (induction s) (auto simp: ascii_def bytes_def utf8_unit_def utf16_unit_def)
  then show "u8_text (bytes s) = s" and "u_text (bytes s) = wide s" and "U_text (bytes s) = wide s"
    by (simp_all add: u8_text_def u_text_def U_text_def wide_def pack_chars)
  show "plain (bytes s)" using assms by (fastforce simp: plain_def ascii_def bytes_def scalar_def)
qed

lemma ascii_wide:
  assumes "ascii s"
  shows "int_of_u32string (wide s) = int_of_string s" and "int_of_wstring (wide s) = int_of_string s"
    and "int_of_u16string (wide s) = int_of_string s" and "long_long_of_u32string (wide s) = long_long_of_string s"
    and "long_long_of_wstring (wide s) = long_long_of_string s" and "long_long_of_u16string (wide s) = long_long_of_string s"
    and "unsigned_long_long_of_u32string (wide s) = unsigned_long_long_of_string s"
    and "unsigned_long_long_of_wstring (wide s) = unsigned_long_long_of_string s"
    and "unsigned_long_long_of_u16string (wide s) = unsigned_long_long_of_string s"
proof -
  note t = ascii_text [OF assms]
  have w: "c_str (wide s :: u32 list) = wide s" "u32string_of_u16string (wide s) = Inr (wide s)"
    "map unat (wide s :: u32 list) = bytes s"
    using plain_pointed(3) [OF t(1)] plain_through(2) [OF t(1)] words_of_text [where 'a = 32] by (simp_all add: t)
  show "int_of_u32string (wide s) = int_of_string s" and "int_of_wstring (wide s) = int_of_string s"
    and "int_of_u16string (wide s) = int_of_string s" and "long_long_of_u32string (wide s) = long_long_of_string s"
    and "long_long_of_wstring (wide s) = long_long_of_string s" and "long_long_of_u16string (wide s) = long_long_of_string s"
    and "unsigned_long_long_of_u32string (wide s) = unsigned_long_long_of_string s"
    and "unsigned_long_long_of_wstring (wide s) = unsigned_long_long_of_string s"
    and "unsigned_long_long_of_u16string (wide s) = unsigned_long_long_of_string s"
    by (simp_all add: w int_of_u32string_def int_of_wstring_def int_of_u16string_def int_of_string_def
        long_long_of_u32string_def long_long_of_wstring_def long_long_of_u16string_def long_long_of_string_def
        unsigned_long_long_of_u32string_def unsigned_long_long_of_wstring_def unsigned_long_long_of_u16string_def
        unsigned_long_long_of_string_def)
qed

lemma literals_plain: "plain ucs_literal" "plain emoji_literal"
  by (simp_all add: plain_def ucs_literal_def emoji_literal_def scalar_def)

lemma run_met: "not_met xs = [] \<Longrightarrow> run_assertions (xs @ ys) = run_assertions ys"
  by (induction xs rule: run_assertions.induct) (auto simp: not_met_def split: if_splits)

lemma not_met_append [simp]: "not_met (xs @ ys) = not_met xs @ not_met ys"
  by (simp add: not_met_def)

lemma values_met: "not_met UnitTest_values = []"
proof -
  have n: "int_text 42 = ''42''" 
    by (simp add: int_text_def to_string.simps digit_def, code_simp)
  have "ascii ''42''" by (simp add: ascii_def)
  note t = ascii_text [OF this]
  have "u32string_of_num 42 = Inr (wide ''42'')" "u16string_of_num 42 = Inr (wide ''42'')"
    using plain_texts(2,4) [OF t(1)] by (simp_all add: t u32string_of_num_def u16string_of_num_def n)
  then show ?thesis
    by (simp add: UnitTest_values_def not_met_def expect_def n string_of_num_def wstring_of_num_def string_of_bool_def
        u32string_of_bool_def u16string_of_bool_def wstring_of_bool_def)
qed

lemma ints_not_met: "not_met UnitTest_ints = map (\<lambda>line. (line, Inr False)) [591, 592, 593, 594, 595]"
proof -
  have a: "ascii ''0010 bob''" "ascii '' 0010 bob''" "ascii '' 000010 bob''" "ascii '' 010 bob''" "ascii ''   000010 bob''"
    "ascii '' 10 bob''" "ascii ''0x7fffffff''" by (simp_all add: ascii_def)
  have v: "int_of_string ''0010 bob'' = Inr 8" "int_of_string '' 0010 bob'' = Inr 8"
    "int_of_string '' 000010 bob'' = Inr 8" "int_of_string '' 010 bob'' = Inr 8"
    "int_of_string ''   000010 bob'' = Inr 8" "int_of_string '' 10 bob'' = Inr 10"
    "int_of_string ''0x7fffffff'' = Inr 0x7fffffff"
    by (simp_all add: int_of_string_def number_defs)
  show ?thesis
    by (simp add: UnitTest_ints_def not_met_def expect_def a [THEN ascii_wide(1)] a [THEN ascii_wide(2)] a [THEN ascii_wide(3)] v)
qed

lemma longs_not_met: "not_met UnitTest_longs = map (\<lambda>line. (line, Inl OutOfRange)) [621, 622, 623, 624]"
proof -
  have a: "ascii ''0x7fffffffffffffff''" "ascii ''0xffffffffffffffff''" "ascii ''0xfffffffffffffffff''"
    by (simp_all add: ascii_def)
  have v: "long_long_of_string ''0x7fffffffffffffff'' = Inr 0x7fffffffffffffff"
    "unsigned_long_long_of_string ''0xffffffffffffffff'' = Inr 0xffffffffffffffff"
    "unsigned_long_long_of_string ''0xfffffffffffffffff'' = Inl OutOfRange"
    by (simp_all add: long_long_of_string_def unsigned_long_long_of_string_def number_defs)
  show ?thesis
    by (simp add: UnitTest_longs_def not_met_def expect_def a(1) [THEN ascii_wide(4)] a(1) [THEN ascii_wide(5)]
        a(1) [THEN ascii_wide(6)] a(2,3) [THEN ascii_wide(7)] a(2,3) [THEN ascii_wide(8)] a(2,3) [THEN ascii_wide(9)] v)
qed

text \<open>C37. The test function of the header does not pass. Its assertions on texts hold, but \<open>string_cast<int>\<close>
  reads a number with a leading zero in base 8, so the run is aborted at line 591; the five
  assertions of this kind are false, and where the last four expect 0 for a number beyond 64 bits
  the conversion throws. All others hold.\<close>
theorem UnitTest_fails:
  "UnitTest = Aborted 591
   \<and> not_met UnitTest_assertions = map (\<lambda>line. (line, Inr False)) [591, 592, 593, 594, 595]
       @ map (\<lambda>line. (line, Inl OutOfRange)) [621, 622, 623, 624]"
proof -
  note texts = texts_met [OF literals_plain]
  have first: "\<exists>rest. UnitTest_ints = (591, Inr False) # rest"
    by (simp add: UnitTest_ints_def expect_def int_of_string_def number_defs)
  have "run_assertions UnitTest_assertions = run_assertions (UnitTest_ints @ UnitTest_longs)"
    unfolding UnitTest_assertions_def by (simp only: run_met texts values_met)
  moreover obtain rest where rest: "UnitTest_ints = (591, Inr False) # rest" using first by blast
  have "run_assertions (UnitTest_ints @ UnitTest_longs) = Aborted 591" unfolding rest by simp
  ultimately have "UnitTest = Aborted 591" unfolding UnitTest_def by simp
  moreover have "not_met UnitTest_assertions = map (\<lambda>line. (line, Inr False)) [591, 592, 593, 594, 595]
       @ map (\<lambda>line. (line, Inl OutOfRange)) [621, 622, 623, 624]"
    unfolding UnitTest_assertions_def not_met_append texts values_met ints_not_met longs_not_met by simp
  ultimately show ?thesis ..
qed

end
