(* ===== verification/FloatCast.thy ===== *)
theory FloatCast
  imports StringCast
begin

text \<open>
  The conversions of floating-point numbers to strings of src/utils/StringCast.hpp, which print with
  \<open>std::to_string\<close> and \<open>std::to_wstring\<close>: the format \<open>%f\<close>, six digits behind the point, in the rounding
  mode to nearest that a program starts with. A finite number of type \<open>float\<close>, \<open>double\<close> or \<open>long double\<close> is
  its sign, an integer and a power of two, so that the digits are exact.
\<close>

datatype floating = Finite bool nat int | Infinite bool | Not_A_Number bool

definition sign_text :: "bool \<Rightarrow> string" where
  "sign_text neg = (if neg then ''-'' else [])"

text \<open>The integer nearest to a fraction, the even one of two that are equally near.\<close>

definition nearest :: "nat \<Rightarrow> nat \<Rightarrow> nat" where
  "nearest a d = (let q = a div d; r = a mod d
     in if 2 * r < d \<or> 2 * r = d \<and> even q then q else Suc q)"

definition millionths :: "nat \<Rightarrow> int \<Rightarrow> nat" where
  "millionths m e = nearest (m * 10 ^ 6 * 2 ^ nat e) (2 ^ nat (- e))"

fun fixed_digits :: "nat \<Rightarrow> nat \<Rightarrow> string" where
  "fixed_digits 0 n = []"
| "fixed_digits (Suc k) n = fixed_digits k (n div 10) @ [digit (n mod 10)]"

fun floating_text :: "floating \<Rightarrow> string" where
  "floating_text (Finite neg m e) =
     sign_text neg @ to_string (millionths m e div 10 ^ 6) @ ''.'' @ fixed_digits 6 (millionths m e mod 10 ^ 6)"
| "floating_text (Infinite neg) = sign_text neg @ ''inf''"
| "floating_text (Not_A_Number neg) = sign_text neg @ ''nan''"

definition string_of_floating :: "floating \<Rightarrow> string" where
  "string_of_floating num = floating_text num"

definition u32string_of_floating :: "floating \<Rightarrow> u32string outcome" where
  "u32string_of_floating num = u32string_of_string (floating_text num)"

definition u16string_of_floating :: "floating \<Rightarrow> u16string outcome" where
  "u16string_of_floating num = u16string_of_string (floating_text num)"

definition wstring_of_floating :: "floating \<Rightarrow> wstring" where
  "wstring_of_floating num = wide (floating_text num)"

section \<open>The digits\<close>

lemma nearest_bound:
  assumes "0 < d" shows "2 * \<bar>int (nearest a d) * int d - int a\<bar> \<le> int d"
proof -
  have a: "int a = int (a div d) * int d + int (a mod d)"
    by (metis mult_div_mod_eq mult.commute of_nat_add of_nat_mult)
  have r: "int (a mod d) < int d" using assms by simp
  show ?thesis
  proof (cases "nearest a d = a div d")
    case True
    then have "2 * (a mod d) \<le> d" by (auto simp: nearest_def Let_def split: if_splits)
    then show ?thesis unfolding True using a by simp
  next
    case False
    then have n: "nearest a d = Suc (a div d)" and "d \<le> 2 * (a mod d)" by (auto simp: nearest_def Let_def split: if_splits)
    then show ?thesis unfolding n using a r by (simp add: algebra_simps)
  qed
qed

lemma digits_val_append: "digits_val (ds @ es) = digits_val ds * 10 ^ length es + digits_val es"
proof (induction es rule: rev_induct)
  case (snoc e es)
  then show ?case by (simp add: digits_val_snoc append_assoc [symmetric] del: append_assoc)
qed (simp add: digits_val_def)

lemma fixed_digits [simp]:
  "length (fixed_digits k n) = k" "c \<in> set (fixed_digits k n) \<Longrightarrow> is_digit c" "digits_val (fixed_digits k n) = n mod 10 ^ k"
proof (induction k arbitrary: n)
  case (Suc k)
  { case 3
    have "n mod 10 ^ Suc k = 10 * (n div 10 mod 10 ^ k) + n mod 10" by (simp add: mod_mult2_eq)
    with Suc show ?case by (simp add: digits_val_snoc) }
qed (auto simp: digits_val_def)

lemma ascii_digit: "is_digit c \<Longrightarrow> (of_char c :: nat) < 128"
  by (simp add: is_digit_def)

text \<open>An ASCII text is the same text in every type.\<close>

lemma ascii_texts:
  assumes "\<And>c. c \<in> set s \<Longrightarrow> (of_char c :: nat) < 128"
  shows "u32string_of_string s = Inr (wide s)" and "u16string_of_string s = Inr (wide s)"
proof -
  have sc: "\<forall>c \<in> set (bytes s). scalar c"
    using assms by (fastforce simp: scalar_def bytes_def dest!: assms)
  have u: "concat (map utf8_unit (bytes s)) = bytes s" "concat (map utf16_unit (bytes s)) = bytes s" "concat (map (\<lambda>c. [c]) (bytes s)) = bytes s"
    using assms by (induction s) (fastforce simp: bytes_def utf8_unit_def utf16_unit_def)+
  have "decode utf8_next (bytes s) = Some (bytes s)" using utf8.decode_units [OF sc] unfolding u .
  then show "u32string_of_string s = Inr (wide s)" and "u16string_of_string s = Inr (wide s)"
    by (simp_all add: u32string_of_string_def u16string_of_string_def transcode_def u wide_def)
qed

lemma floating_text_ascii: "c \<in> set (floating_text x) \<Longrightarrow> (of_char c :: nat) < 128"
  using to_string_digits by (cases x) (auto simp: sign_text_def intro: ascii_digit split: if_splits)

text \<open>A floating-point number in text. A finite number is printed with its sign, a whole part without
  leading zeros, a point and six digits, and the digits read as a whole number are a million times its
  absolute value rounded to nearest; all four string types get this text.\<close>

lemma floating_casts:
  "\<exists>q. floating_text (Finite neg m e) = sign_text neg @ to_string (q div 10 ^ 6) @ ''.'' @ fixed_digits 6 (q mod 10 ^ 6)
     \<and> digits_val (to_string (q div 10 ^ 6) @ fixed_digits 6 (q mod 10 ^ 6)) = q
     \<and> 2 * \<bar>int q * 2 ^ nat (- e) - int m * 10 ^ 6 * 2 ^ nat e\<bar> \<le> 2 ^ nat (- e)
     \<and> string_of_floating x = floating_text x \<and> wstring_of_floating x = wide (floating_text x)
     \<and> u32string_of_floating x = Inr (wide (floating_text x)) \<and> u16string_of_floating x = Inr (wide (floating_text x))"
proof (intro exI [of _ "millionths m e"] conjI)
  show "digits_val (to_string (millionths m e div 10 ^ 6) @ fixed_digits 6 (millionths m e mod 10 ^ 6)) = millionths m e"
    by (simp only: digits_val_append fixed_digits digits_val_to_string mod_mod_trivial div_mult_mod_eq)
  show "2 * \<bar>int (millionths m e) * 2 ^ nat (- e) - int m * 10 ^ 6 * 2 ^ nat e\<bar> \<le> 2 ^ nat (- e)"
    using nearest_bound [of "2 ^ nat (- e)" "m * 10 ^ 6 * 2 ^ nat e"] by (simp add: millionths_def)
  show "u32string_of_floating x = Inr (wide (floating_text x))" and "u16string_of_floating x = Inr (wide (floating_text x))"
    unfolding u32string_of_floating_def u16string_of_floating_def by (rule ascii_texts [OF floating_text_ascii], assumption)+
qed (simp_all add: string_of_floating_def wstring_of_floating_def)

text \<open>One tenth as a \<open>double\<close>, minus one half, and minus zero.\<close>

lemma floating_examples:
  "floating_text (Finite False 3602879701896397 (- 55)) = ''0.100000''" "floating_text (Finite True 1 (- 1)) = ''-0.500000''"
  "floating_text (Finite True 0 0) = ''-0.000000''"
proof -
  have six: "fixed_digits 6 n = fixed_digits (Suc (Suc (Suc (Suc (Suc (Suc 0)))))) n" for n
    by (rule arg_cong [where f = "\<lambda>k. fixed_digits k n"]) simp
  have "millionths 3602879701896397 (- 55) = 100000" "millionths 1 (- 1) = 500000" "millionths 0 0 = 0"
    by (simp_all add: millionths_def nearest_def Let_def)
  moreover have digits: "digit 0 = CHR ''0''" "digit (Suc 0) = CHR ''1''" "digit 5 = CHR ''5''" by code_simp+
  moreover have zero: "to_string 0 = ''0''" by (subst to_string.simps) (simp add: digits)
  ultimately show "floating_text (Finite False 3602879701896397 (- 55)) = ''0.100000''" "floating_text (Finite True 1 (- 1)) = ''-0.500000''"
    "floating_text (Finite True 0 0) = ''-0.000000''"
    by (simp_all add: six sign_text_def zero digits)
qed

end
