(* ===== verification/CastPlatforms.thy ===== *)
theory CastPlatforms
  imports CastTest FloatCast
begin

text \<open>
  The conversions of src/utils/StringCast.hpp on every platform, and the templates that choose among
  them. The width of \<open>wchar_t\<close> is a type parameter: the code tests it with \<open>useLargeWchar\<close>, at compile
  time. The macro \<open>FORCE_UCS_2_FOR_WCHAR\<close> is a parameter \<open>ucs2\<close>. Theory \<open>StringCast\<close> has the branches of
  a build with a 32-bit \<open>wchar_t\<close> and without the macro; \<open>large_wide_casts\<close> shows that they are these.
\<close>

section \<open>The constants\<close>

definition useLargeWchar :: "'w::len itself \<Rightarrow> bool" where
  "useLargeWchar w = ((2::nat) ^ 17 < 2 ^ (LENGTH('w) - 1))"

definition forceUCS_2 :: "bool \<Rightarrow> bool" where
  "forceUCS_2 FORCE_UCS_2_FOR_WCHAR = (if FORCE_UCS_2_FOR_WCHAR then True else False)"

lemma useLargeWchar_simps [simp]: "useLargeWchar TYPE(32)" "\<not> useLargeWchar TYPE(16)"
  by (simp_all add: useLargeWchar_def)

section \<open>Wide strings\<close>

text \<open>
  A \<open>reinterpret_cast\<close> between character types of the same width keeps the units. The converter
  \<open>codecvt_utf8\<close> reads and writes one character for each unit (UCS-2 or UCS-4, after the width), so a
  surrogate is no character for it; \<open>codecvt_utf8_utf16\<close> reads and writes UTF-16 in units of any
  width. A \<open>wstring_convert\<close> with error strings returns these where one without throws.
\<close>

definition reinterpret :: "'a::len word list \<Rightarrow> 'b::len word list" where
  "reinterpret str = map ucast str"

definition or_error :: "'a \<Rightarrow> 'a outcome \<Rightarrow> 'a outcome" where
  "or_error bad x = (case x of Inl e \<Rightarrow> Inr bad | Inr v \<Rightarrow> Inr v)"

definition u32string_of_wide :: "'w::len word list \<Rightarrow> u32string outcome" where
  "u32string_of_wide str =
     (if useLargeWchar TYPE('w) then Inr (reinterpret str) else u32string_of_u16string (reinterpret str))"

definition string_of_wide :: "bool \<Rightarrow> 'w::len word list \<Rightarrow> string outcome" where
  "string_of_wide ucs2 str =
     (if forceUCS_2 ucs2 then
        or_error ''Bad Convert'' (map_sum id (map char_of) (transcode utf32_next utf8_unit (map unat (c_str str))))
      else if useLargeWchar TYPE('w) then map_sum id (map char_of) (transcode utf32_next utf8_unit (map unat str))
      else map_sum id (map char_of) (transcode utf16_next utf8_unit (map unat str)))"

definition u16string_of_wide :: "bool \<Rightarrow> 'w::len word list \<Rightarrow> u16string outcome" where
  "u16string_of_wide ucs2 str =
     (if useLargeWchar TYPE('w) then
        (case string_of_wide ucs2 str of Inl e \<Rightarrow> Inl e | Inr s \<Rightarrow> u16string_of_string s)
      else Inr (reinterpret str))"

definition wide_of_u32string :: "u32string \<Rightarrow> 'w::len word list outcome" where
  "wide_of_u32string str =
     (if useLargeWchar TYPE('w) then Inr (reinterpret str)
      else map_sum id reinterpret (u16string_of_u32string str))"

definition wide_of_u16string :: "u16string \<Rightarrow> 'w::len word list outcome" where
  "wide_of_u16string str =
     (if useLargeWchar TYPE('w) then map_sum id reinterpret (u32string_of_u16string str)
      else Inr (reinterpret str))"

definition wide_of_string :: "bool \<Rightarrow> string \<Rightarrow> 'w::len word list outcome" where
  "wide_of_string ucs2 str =
     (if useLargeWchar TYPE('w) then map_sum id reinterpret (u32string_of_string str)
      else if forceUCS_2 ucs2 then
        or_error (wide ''Bad Convert'') (map_sum id (map word_of_nat) (transcode utf8_next utf16_unit (bytes str)))
      else map_sum id (map word_of_nat) (transcode utf8_next utf16_unit (bytes str)))"

section \<open>The templates\<close>

text \<open>What \<open>string_cast\<close> can be applied to.\<close>

datatype 'x source = OfString string | OfU32 u32string | OfU16 u16string | OfWide "'x list"
  | OfBool bool | OfNum int | OfFloating floating

text \<open>The wrapper for pointers: \<open>char_type\<close> picks the string type, built up to the first zero.\<close>

fun pointer_text :: "'w::len word source \<Rightarrow> 'w word source" where
  "pointer_text (OfString s) = OfString (pointed s)"
| "pointer_text (OfU32 s) = OfU32 (c_str s)"
| "pointer_text (OfU16 s) = OfU16 (c_str s)"
| "pointer_text (OfWide s) = OfWide (c_str s)"
| "pointer_text x = x"

text \<open>The destination's converter, by the overload that fits; a source of its type is returned as it is.\<close>

fun string_cast_u32string :: "bool \<Rightarrow> 'w::len word source \<Rightarrow> u32string outcome" where
  "string_cast_u32string ucs2 (OfU32 s) = same_type s"
| "string_cast_u32string ucs2 (OfU16 s) = u32string_of_u16string s"
| "string_cast_u32string ucs2 (OfWide s) = u32string_of_wide s"
| "string_cast_u32string ucs2 (OfString s) = u32string_of_string s"
| "string_cast_u32string ucs2 (OfBool b) = Inr (u32string_of_bool b)"
| "string_cast_u32string ucs2 (OfNum n) = u32string_of_num n"
| "string_cast_u32string ucs2 (OfFloating x) = u32string_of_floating x"

fun string_cast_u16string :: "bool \<Rightarrow> 'w::len word source \<Rightarrow> u16string outcome" where
  "string_cast_u16string ucs2 (OfU16 s) = same_type s"
| "string_cast_u16string ucs2 (OfU32 s) = u16string_of_u32string s"
| "string_cast_u16string ucs2 (OfWide s) = u16string_of_wide ucs2 s"
| "string_cast_u16string ucs2 (OfString s) = u16string_of_string s"
| "string_cast_u16string ucs2 (OfBool b) = Inr (u16string_of_bool b)"
| "string_cast_u16string ucs2 (OfNum n) = u16string_of_num n"
| "string_cast_u16string ucs2 (OfFloating x) = u16string_of_floating x"

fun string_cast_wide :: "bool \<Rightarrow> 'w::len word source \<Rightarrow> 'w word list outcome" where
  "string_cast_wide ucs2 (OfWide s) = same_type s"
| "string_cast_wide ucs2 (OfU32 s) = wide_of_u32string s"
| "string_cast_wide ucs2 (OfU16 s) = wide_of_u16string s"
| "string_cast_wide ucs2 (OfString s) = wide_of_string ucs2 s"
| "string_cast_wide ucs2 (OfBool b) = Inr (if b then wide ''true'' else wide ''false'')"
| "string_cast_wide ucs2 (OfNum n) = Inr (wide (int_text n))"
| "string_cast_wide ucs2 (OfFloating x) = Inr (wide (floating_text x))"

fun string_cast_string :: "bool \<Rightarrow> 'w::len word source \<Rightarrow> string outcome" where
  "string_cast_string ucs2 (OfString s) = same_type s"
| "string_cast_string ucs2 (OfU32 s) = string_of_u32string s"
| "string_cast_string ucs2 (OfU16 s) = string_of_u16string s"
| "string_cast_string ucs2 (OfWide s) = string_of_wide ucs2 s"
| "string_cast_string ucs2 (OfBool b) = Inr (string_of_bool b)"
| "string_cast_string ucs2 (OfNum n) = Inr (string_of_num n)"
| "string_cast_string ucs2 (OfFloating x) = Inr (string_of_floating x)"

text \<open>
  To numbers and to \<open>bool\<close>, where the code has no converter from numbers and \<open>bool\<close>, nor to \<open>bool\<close> from
  the other strings (\<open>None\<close>: such a cast does not compile). A \<open>std::u16string\<close> or \<open>std::u32string\<close> of the
  width of \<open>wchar_t\<close> goes through a pointer to wide characters.
\<close>

definition long_long_of_u32 :: "'w::len itself \<Rightarrow> u32string \<Rightarrow> u64 outcome" where
  "long_long_of_u32 w str = (if useLargeWchar w then stoll (map unat (c_str str))
     else (case string_of_u32string str of Inl e \<Rightarrow> Inl e | Inr s \<Rightarrow> long_long_of_string s))"

definition long_long_of_u16 :: "'w::len itself \<Rightarrow> u16string \<Rightarrow> u64 outcome" where
  "long_long_of_u16 w str = (if useLargeWchar w
     then (case u32string_of_u16string str of Inl e \<Rightarrow> Inl e | Inr s \<Rightarrow> long_long_of_u32 w s)
     else stoll (map unat (c_str str)))"

definition unsigned_long_long_of_u32 :: "'w::len itself \<Rightarrow> u32string \<Rightarrow> u64 outcome" where
  "unsigned_long_long_of_u32 w str = (if useLargeWchar w then stoull (map unat (c_str str))
     else (case string_of_u32string str of Inl e \<Rightarrow> Inl e | Inr s \<Rightarrow> unsigned_long_long_of_string s))"

definition unsigned_long_long_of_u16 :: "'w::len itself \<Rightarrow> u16string \<Rightarrow> u64 outcome" where
  "unsigned_long_long_of_u16 w str = (if useLargeWchar w
     then (case u32string_of_u16string str of Inl e \<Rightarrow> Inl e | Inr s \<Rightarrow> unsigned_long_long_of_u32 w s)
     else stoull (map unat (c_str str)))"

fun string_cast_long_long :: "'w::len word source \<Rightarrow> u64 outcome option" where
  "string_cast_long_long (OfString s) = Some (long_long_of_string s)"
| "string_cast_long_long (OfWide s) = Some (stoll (map unat s))"
| "string_cast_long_long (OfU16 s) = Some (long_long_of_u16 TYPE('w) s)"
| "string_cast_long_long (OfU32 s) = Some (long_long_of_u32 TYPE('w) s)"
| "string_cast_long_long _ = None"

fun string_cast_unsigned_long_long :: "'w::len word source \<Rightarrow> u64 outcome option" where
  "string_cast_unsigned_long_long (OfString s) = Some (unsigned_long_long_of_string s)"
| "string_cast_unsigned_long_long (OfWide s) = Some (stoull (map unat s))"
| "string_cast_unsigned_long_long (OfU16 s) = Some (unsigned_long_long_of_u16 TYPE('w) s)"
| "string_cast_unsigned_long_long (OfU32 s) = Some (unsigned_long_long_of_u32 TYPE('w) s)"
| "string_cast_unsigned_long_long _ = None"

fun string_cast_int :: "'w::len word source \<Rightarrow> u32 outcome option" where
  "string_cast_int (OfString s) = Some (int_of_string s)"
| "string_cast_int (OfWide s) = Some (map_sum id ucast (stoll (map unat s)))"
| "string_cast_int (OfU16 s) = Some (map_sum id ucast (long_long_of_u16 TYPE('w) s))"
| "string_cast_int (OfU32 s) = Some (map_sum id ucast (long_long_of_u32 TYPE('w) s))"
| "string_cast_int _ = None"

fun string_cast_bool :: "'w::len word source \<Rightarrow> bool option" where
  "string_cast_bool (OfString s) = Some (bool_of_string s)"
| "string_cast_bool (OfWide s) = Some (let tempStr = toLower (map unat s) in if tempStr = bytes ''true'' then True else False)"
| "string_cast_bool (OfBool b) = Some b"
| "string_cast_bool _ = None"

section \<open>The modelled build\<close>

lemma reinterpret_same [simp]: "reinterpret (s :: 'a::len word list) = s"
  by (simp add: reinterpret_def map_idI)

lemma map_sum_reinterpret [simp]: "map_sum id reinterpret x = (x :: 'e + 'a::len word list)"
  by (cases x) simp_all

lemma large_wide_numbers:
  "long_long_of_u32 TYPE(32) = long_long_of_u32string" "long_long_of_u16 TYPE(32) = long_long_of_u16string"
  "unsigned_long_long_of_u32 TYPE(32) = unsigned_long_long_of_u32string"
  "unsigned_long_long_of_u16 TYPE(32) = unsigned_long_long_of_u16string"
proof -
  show l: "long_long_of_u32 TYPE(32) = long_long_of_u32string"
    and u: "unsigned_long_long_of_u32 TYPE(32) = unsigned_long_long_of_u32string"
    by (simp_all add: fun_eq_iff long_long_of_u32_def long_long_of_u32string_def long_long_of_wstring_def
        unsigned_long_long_of_u32_def unsigned_long_long_of_u32string_def unsigned_long_long_of_wstring_def)
  show "long_long_of_u16 TYPE(32) = long_long_of_u16string"
    and "unsigned_long_long_of_u16 TYPE(32) = unsigned_long_long_of_u16string"
    unfolding fun_eq_iff long_long_of_u16_def long_long_of_u16string_def l
      unsigned_long_long_of_u16_def unsigned_long_long_of_u16string_def u by simp_all
qed

lemma large_wide_casts:
  "u32string_of_wide str = Inr (u32string_of_wstring str)" "string_of_wide False str = string_of_wstring str"
  "u16string_of_wide False str = u16string_of_wstring str" "wide_of_u32string us = Inr (wstring_of_u32string us)"
  "wide_of_u16string ws = wstring_of_u16string ws" "wide_of_string False s = wstring_of_string s"
  by (simp_all add: u32string_of_wide_def u32string_of_wstring_def string_of_wide_def string_of_wstring_def forceUCS_2_def
      u16string_of_wide_def u16string_of_wstring_def wide_of_u32string_def wstring_of_u32string_def wide_of_u16string_def
      wstring_of_u16string_def wide_of_string_def wstring_of_string_def)

section \<open>The same text in every type\<close>

text \<open>A text of the characters \<open>cs\<close> in a wide string, and in each of the four string types.\<close>

definition W_text :: "nat list \<Rightarrow> 'w::len word list" where
  "W_text cs = map word_of_nat (if useLargeWchar TYPE('w) then cs else concat (map utf16_unit cs))"

definition texts :: "nat list \<Rightarrow> 'w::len word source list" where
  "texts cs = [OfString (u8_text cs), OfU16 (u_text cs), OfU32 (U_text cs), OfWide (W_text cs)]"

lemma reinterpret_units:
  "LENGTH('b) \<le> LENGTH('a) \<Longrightarrow> reinterpret (map word_of_nat vs :: 'a::len word list) = (map word_of_nat vs :: 'b::len word list)"
  unfolding reinterpret_def map_map comp_def by (rule map_cong [OF refl]) (transfer, simp add: take_bit_of_nat min_def)

lemma wchar_sizes:
  "LENGTH('w::len) = 16 \<Longrightarrow> \<not> useLargeWchar TYPE('w)" "LENGTH('w) = 32 \<Longrightarrow> useLargeWchar TYPE('w)"
  by (simp_all add: useLargeWchar_def)

lemma plain_units:
  assumes "plain cs"
  shows "decode utf8_next (bytes (u8_text cs)) = Some cs" and "decode utf16_next (concat (map utf16_unit cs)) = Some cs"
    and "decode utf32_next cs = Some cs" and "\<forall>v \<in> set (concat (map utf16_unit cs)). v < 2 ^ 16" and "\<forall>c \<in> set cs. c < 2 ^ 32"
proof -
  have sc: "\<forall>c \<in> set cs. scalar c" using assms by (simp add: plain_def)
  have c32: "concat (map (\<lambda>c. [c]) cs) = cs" by (induction cs) auto
  show "decode utf8_next (bytes (u8_text cs)) = Some cs" unfolding text_units(1) [OF assms] by (rule utf8.decode_units [OF sc])
  show "decode utf16_next (concat (map utf16_unit cs)) = Some cs" by (rule utf16.decode_units [OF sc])
  show "decode utf32_next cs = Some cs" using utf32.decode_units [OF sc] unfolding c32 .
  show "\<forall>v \<in> set (concat (map utf16_unit cs)). v < 2 ^ 16" using utf16_bounded [OF sc] by simp
  show "\<forall>c \<in> set cs. c < 2 ^ 32" using sc by (auto simp: scalar_def)
qed

text \<open>A wide string of a text, on either platform.\<close>

lemma W_text_units:
  assumes "plain cs" and "LENGTH('w::len) = 16 \<or> LENGTH('w) = 32"
  shows "map unat (W_text cs :: 'w word list) = (if useLargeWchar TYPE('w) then cs else concat (map utf16_unit cs))"
  using assms(2) unpack_words [of cs, where 'a = 'w] unpack_words [of "concat (map utf16_unit cs)", where 'a = 'w]
    plain_units(4,5) [OF assms(1)] by (auto simp: W_text_def wchar_sizes)

lemma wide_texts:
  assumes "plain cs" and "LENGTH('w::len) = 16 \<or> LENGTH('w) = 32"
  shows "u32string_of_wide (W_text cs :: 'w word list) = Inr (U_text cs)"
    and "string_of_wide False (W_text cs :: 'w word list) = Inr (u8_text cs)"
    and "u16string_of_wide False (W_text cs :: 'w word list) = Inr (u_text cs)"
    and "wide_of_u32string (U_text cs) = Inr (W_text cs :: 'w word list)"
    and "wide_of_u16string (u_text cs) = Inr (W_text cs :: 'w word list)"
    and "wide_of_string False (u8_text cs) = Inr (W_text cs :: 'w word list)"
    and "c_str (W_text cs :: 'w word list) = W_text cs"
proof -
  have W: "W_text cs = (if useLargeWchar TYPE('w) then map word_of_nat cs
      else (map word_of_nat (concat (map utf16_unit cs)) :: 'w word list))" by (simp add: W_text_def)
  note units = plain_units [OF assms(1)] and t = plain_texts [OF assms(1)] plain_through [OF assms(1)]
  have r: "useLargeWchar TYPE('w) \<Longrightarrow> reinterpret (W_text cs :: 'w word list) = U_text cs"
    "\<not> useLargeWchar TYPE('w) \<Longrightarrow> reinterpret (W_text cs :: 'w word list) = u_text cs"
    "useLargeWchar TYPE('w) \<Longrightarrow> reinterpret (U_text cs) = (W_text cs :: 'w word list)"
    "\<not> useLargeWchar TYPE('w) \<Longrightarrow> reinterpret (u_text cs) = (W_text cs :: 'w word list)"
    using assms(2) unfolding W U_text_def u_text_def by (auto simp: wchar_sizes reinterpret_units)
  show "u32string_of_wide (W_text cs :: 'w word list) = Inr (U_text cs)" by (simp add: u32string_of_wide_def r t)
  show s: "string_of_wide False (W_text cs :: 'w word list) = Inr (u8_text cs)"
    by (simp add: string_of_wide_def forceUCS_2_def W_text_units [OF assms] transcode_def units u8_text_def)
  show "u16string_of_wide False (W_text cs :: 'w word list) = Inr (u_text cs)" by (simp add: u16string_of_wide_def s r t)
  show "wide_of_u32string (U_text cs) = Inr (W_text cs :: 'w word list)" by (simp add: wide_of_u32string_def r t)
  show "wide_of_u16string (u_text cs) = Inr (W_text cs :: 'w word list)" by (simp add: wide_of_u16string_def r t)
  show "wide_of_string False (u8_text cs) = Inr (W_text cs :: 'w word list)"
    by (simp add: wide_of_string_def forceUCS_2_def r t transcode_def units W)
  have "0 \<notin> set (map unat (W_text cs :: 'w word list))"
    using assms(1) plain_pointed(2) [OF assms(1)] unfolding W_text_units [OF assms] text_units(2) [OF assms(1), symmetric]
    by (auto simp: plain_def c_str_def takeWhile_eq_all_conv unat_eq_zero)
  then have "0 \<notin> set (W_text cs :: 'w word list)" by force
  then show "c_str (W_text cs :: 'w word list) = W_text cs" unfolding c_str_def takeWhile_eq_all_conv by metis
qed

text \<open>C34. \<open>string_cast\<close> keeps the text, on every platform. From a text without zeros in any of the four
  string types, given as a string or by a pointer, the cast to any of the four yields the same text in
  the encoding of that type, with a 16-bit and with a 32-bit \<open>wchar_t\<close>, unless UCS-2 is forced.\<close>
theorem text_casts_any_platform:
  assumes "plain cs" and "LENGTH('w::len) = 16 \<or> LENGTH('w) = 32" and "x \<in> set (texts cs :: 'w word source list)"
  shows "string_cast_string False x = Inr (u8_text cs) \<and> string_cast_u16string False x = Inr (u_text cs)
     \<and> string_cast_u32string False x = Inr (U_text cs) \<and> string_cast_wide False x = Inr (W_text cs)
     \<and> pointer_text x = x"
proof -
  note w = wide_texts [OF assms(1,2)] and t = plain_texts [OF assms(1)] plain_through [OF assms(1)] plain_pointed [OF assms(1)]
  from assms(3) consider "x = OfString (u8_text cs)" | "x = OfU16 (u_text cs)" | "x = OfU32 (U_text cs)"
    | "x = OfWide (W_text cs)" by (auto simp: texts_def)
  then show ?thesis by cases (simp_all add: w t same_type_def)
qed

text \<open>With the macro \<open>FORCE_UCS_2_FOR_WCHAR\<close> on a platform with a 16-bit \<open>wchar_t\<close> a character beyond the
  16-bit range is written as UTF-16 and refused as UCS-2: the text comes back as the error string.\<close>

lemma forced_ucs2_loses:
  assumes "plain cs" and "c \<in> set cs" and "0x10000 \<le> c"
  shows "wide_of_string True (u8_text cs) = Inr (W_text cs :: u16 list)"
    and "string_of_wide True (W_text cs :: u16 list) = Inr ''Bad Convert''"
proof -
  note units = plain_units [OF assms(1)]
  have l: "LENGTH(16) = 16 \<or> LENGTH(16) = 32" by simp
  show "wide_of_string True (u8_text cs) = Inr (W_text cs :: u16 list)"
    by (simp add: wide_of_string_def forceUCS_2_def transcode_def units or_error_def W_text_def)
  have "c < 0x110000" using assms(1,2) by (auto simp: plain_def scalar_def)
  then have bad: "\<not> scalar (0xD800 + (c - 0x10000) div 1024)" by (auto simp: scalar_def)
  have "0xD800 + (c - 0x10000) div 1024 \<in> set (utf16_unit c)" using assms(3) by (simp add: utf16_unit_def)
  then have "\<not> (\<forall>u \<in> set (concat (map utf16_unit cs)). scalar u)" using assms(2) bad by auto
  then have "decode utf32_next (concat (map utf16_unit cs)) \<noteq> Some ds" for ds
    unfolding utf32.decode_iff by auto
  then have none: "decode utf32_next (concat (map utf16_unit cs)) = None" by (cases "decode utf32_next (concat (map utf16_unit cs))") auto
  have "map unat (c_str (W_text cs :: u16 list)) = concat (map utf16_unit cs)"
    unfolding wide_texts(7) [OF assms(1) l] W_text_units [OF assms(1) l] by simp
  then show "string_of_wide True (W_text cs :: u16 list) = Inr ''Bad Convert''"
    by (simp add: string_of_wide_def forceUCS_2_def transcode_def none or_error_def)
qed

section \<open>The property on both platforms\<close>

theorem text_casts_any_platform_witness:
  "string_cast_wide False (OfU32 [0x1F601] :: u16 source) = Inr [0xD83D, 0xDE01]
   \<and> string_cast_wide False (OfU32 [0x1F601] :: u32 source) = Inr [0x1F601]"
proof -
  have p: "plain [0x1F601]" by (simp add: plain_def scalar_def)
  have l: "LENGTH(16) = 16 \<or> LENGTH(16) = 32" "LENGTH(32) = 16 \<or> LENGTH(32) = 32" by simp_all
  have "OfU32 (U_text [0x1F601]) \<in> set (texts [0x1F601] :: u16 source list)"
    "OfU32 (U_text [0x1F601]) \<in> set (texts [0x1F601] :: u32 source list)" by (simp_all add: texts_def)
  with text_casts_any_platform [OF p l(1)] text_casts_any_platform [OF p l(2)]
  have "string_cast_wide False (OfU32 (U_text [0x1F601]) :: u16 source) = Inr (W_text [0x1F601])"
    "string_cast_wide False (OfU32 (U_text [0x1F601]) :: u32 source) = Inr (W_text [0x1F601])" by blast+
  then show ?thesis by (simp add: U_text_def W_text_def utf16_unit_def)
qed

end
