(* ===== verification/Logger.thy ===== *)
theory Logger
  imports StringCast
begin

unbundle bit_operations_syntax

text \<open>
  The logger: include/bitcask/Logger.hpp and src/Logger.cpp. The process-wide \<open>Statics\<close> is a state
  record; a \<open>std::function\<close> is a name of type \<open>'h\<close>, the empty lambda of the initial state is the
  parameter \<open>nop\<close>, and what the functions are called with is the trace \<open>emitted\<close>. A call whose
  arguments include a wide string may throw.
\<close>

section \<open>Levels\<close>

type_synonym LogLevel = u8

definition LOG_LEVEL_SILENCE :: LogLevel where "LOG_LEVEL_SILENCE = 0"
definition LOG_LEVEL_INFO :: LogLevel where "LOG_LEVEL_INFO = 1"
definition LOG_LEVEL_WARN :: LogLevel where "LOG_LEVEL_WARN = 2"
definition LOG_LEVEL_ERROR :: LogLevel where "LOG_LEVEL_ERROR = 4"
definition LOG_LEVEL_FATAL :: LogLevel where "LOG_LEVEL_FATAL = 8"
definition LOG_LEVEL_DEBUG :: LogLevel where "LOG_LEVEL_DEBUG = 16"
definition LOG_LEVEL_VERBOSE :: LogLevel where "LOG_LEVEL_VERBOSE = 32"
definition LOG_LEVEL_FROM_ERROR :: LogLevel where "LOG_LEVEL_FROM_ERROR = LOG_LEVEL_ERROR OR LOG_LEVEL_FATAL"
definition LOG_LEVEL_FROM_WARN :: LogLevel where "LOG_LEVEL_FROM_WARN = LOG_LEVEL_WARN OR LOG_LEVEL_FROM_ERROR"
definition LOG_LEVEL_FROM_INFO :: LogLevel where "LOG_LEVEL_FROM_INFO = LOG_LEVEL_INFO OR LOG_LEVEL_FROM_WARN"
definition LOG_LEVEL_FROM_DEBUG :: LogLevel where "LOG_LEVEL_FROM_DEBUG = LOG_LEVEL_DEBUG OR LOG_LEVEL_FROM_INFO"

lemmas level_defs = LOG_LEVEL_SILENCE_def LOG_LEVEL_INFO_def LOG_LEVEL_WARN_def LOG_LEVEL_ERROR_def
  LOG_LEVEL_FATAL_def LOG_LEVEL_DEBUG_def LOG_LEVEL_VERBOSE_def LOG_LEVEL_FROM_ERROR_def
  LOG_LEVEL_FROM_WARN_def LOG_LEVEL_FROM_INFO_def LOG_LEVEL_FROM_DEBUG_def

section \<open>Logger.cpp\<close>

record 'h Statics =
  out_fn :: 'h
  err_fn :: 'h
  allowedLevels :: LogLevel
  emitted :: "('h \<times> string) list"

definition statics :: "'h \<Rightarrow> 'h Statics" where
  "statics nop = \<lparr>out_fn = nop, err_fn = nop, allowedLevels = LOG_LEVEL_SILENCE, emitted = []\<rparr>"

definition changeLogLevels :: "LogLevel \<Rightarrow> 'h Statics \<Rightarrow> 'h Statics" where
  "changeLogLevels levels st = st\<lparr>allowedLevels := levels\<rparr>"

text \<open>\<open>init\<close>: an absent function is \<open>None\<close>; the one for output is never empty, so without a function
  for errors that of the output is taken.\<close>

definition init :: "LogLevel \<Rightarrow> 'h option \<Rightarrow> 'h option \<Rightarrow> 'h Statics \<Rightarrow> 'h Statics" where
  "init levels outLogFunc errLogFunc st =
     (let st = (case outLogFunc of Some f \<Rightarrow> st\<lparr>out_fn := f\<rparr> | None \<Rightarrow> st);
          st = (case errLogFunc of Some f \<Rightarrow> st\<lparr>err_fn := f\<rparr> | None \<Rightarrow> st\<lparr>err_fn := out_fn st\<rparr>)
      in changeLogLevels levels st)"

definition stopLogging :: "'h Statics \<Rightarrow> 'h Statics" where
  "stopLogging st = st\<lparr>allowedLevels := LOG_LEVEL_SILENCE\<rparr>"

definition allowed :: "LogLevel \<Rightarrow> 'h Statics \<Rightarrow> bool" where
  "allowed level st \<longleftrightarrow> allowedLevels st AND level \<noteq> 0"

definition enable :: "LogLevel \<Rightarrow> 'h Statics \<Rightarrow> 'h Statics" where
  "enable level st = st\<lparr>allowedLevels := allowedLevels st AND level\<rparr>"

definition disable :: "LogLevel \<Rightarrow> 'h Statics \<Rightarrow> 'h Statics" where
  "disable level st = st\<lparr>allowedLevels := allowedLevels st AND NOT level\<rparr>"

definition logImpl :: "LogLevel \<Rightarrow> string \<Rightarrow> 'h Statics \<Rightarrow> 'h Statics" where
  "logImpl filteredLevel msg st =
     (if filteredLevel \<in> {LOG_LEVEL_INFO, LOG_LEVEL_DEBUG, LOG_LEVEL_VERBOSE}
      then st\<lparr>emitted := emitted st @ [(out_fn st, msg)]\<rparr>
      else st\<lparr>emitted := emitted st @ [(err_fn st, msg)]\<rparr>)"

text \<open>\<open>to_string\<close> of a wide string.\<close>

definition to_string_wstring :: "wstring \<Rightarrow> string outcome" where
  "to_string_wstring arg = string_of_wstring arg"

section \<open>Formatting\<close>

text \<open>
  The arguments of a message: text, an integer, a \<open>bool\<close>, a wide string, or a value with an
  \<open>operator<<\<close> of its own, which writes a text or throws (\<open>None\<close>). \<open>printed\<close> is the template
  \<open>to_string\<close>, whose stream prints a \<open>bool\<close> as a number and which catches what the operator throws; a
  wide string goes to the overload for it.
\<close>

datatype log_arg = Text string | Number int | Flag bool | Wide wstring | Object "string option"

definition printed :: "log_arg \<Rightarrow> string" where
  "printed a = (case a of
       Text s \<Rightarrow> s
     | Number n \<Rightarrow> (if n < 0 then ''-'' @ Prelude.to_string (nat (- n)) else Prelude.to_string (nat n))
     | Flag b \<Rightarrow> (if b then ''1'' else ''0'')
     | Object (Some s) \<Rightarrow> s
     | _ \<Rightarrow> ''{}'')"

definition arg_string :: "log_arg \<Rightarrow> string outcome" where
  "arg_string a = (case a of Wide w \<Rightarrow> to_string_wstring w | _ \<Rightarrow> Inr (printed a))"

fun arg_strings :: "log_arg list \<Rightarrow> string list outcome" where
  "arg_strings [] = Inr []"
| "arg_strings (a # args) = (case arg_string a of Inl e \<Rightarrow> Inl e
     | Inr s \<Rightarrow> (case arg_strings args of Inl e \<Rightarrow> Inl e | Inr ss \<Rightarrow> Inr (s # ss)))"

text \<open>\<open>std::string::find(pat, idx)\<close> for a non-empty pattern, and \<open>replace(pos, len, by)\<close>.\<close>

definition find_from :: "string \<Rightarrow> string \<Rightarrow> nat \<Rightarrow> nat option" where
  "find_from s pat idx = find (\<lambda>i. take (length pat) (drop i s) = pat) [idx..<length s]"

definition replace_at :: "nat \<Rightarrow> nat \<Rightarrow> string \<Rightarrow> string \<Rightarrow> string" where
  "replace_at pos len by s = take pos s @ by @ drop (pos + len) s"

definition brace :: string where
  "brace = ''{}''"

lemma find_from_bounds:
  assumes "find_from s pat idx = Some i"
  shows "idx \<le> i" and "i < length s" and "take (length pat) (drop i s) = pat"
  using assms unfolding find_from_def find_Some_iff by (auto simp: nth_append)

text \<open>
  The loop of \<open>formatMsg\<close>: the text, the position and the arguments left. The position found is kept
  in an \<open>int32_t\<close>, which is exact below 2 GB.
\<close>

function format_loop :: "string \<Rightarrow> nat \<Rightarrow> string list \<Rightarrow> string" where
  "format_loop format_string idx args =
     (if idx < length format_string
      then case find_from format_string brace idx of
          None \<Rightarrow> format_string
        | Some found_idx \<Rightarrow>
            let (replace_str, args) = (case args of a # as \<Rightarrow> (a, as) | [] \<Rightarrow> (brace, []))
            in format_loop (replace_at found_idx (length brace) replace_str format_string)
                 (found_idx + length replace_str) args
      else format_string)"
  by pat_completeness auto

text \<open>What is left of the text behind the position shrinks, whatever is put in.\<close>

lemma brace_fits:
  assumes "find_from s brace idx = Some i" shows "i + 2 \<le> length s"
proof -
  have "length (take 2 (drop i s)) = 2"
    using find_from_bounds(3) [OF assms] by (metis brace_def length_Cons list.size(3) numeral_2_eq_2)
  then show ?thesis by simp
qed

termination format_loop
proof (relation "measure (\<lambda>(s, idx, args). length s - idx)")
  fix s idx args i r args' and p :: "string \<times> string list"
  assume a: "idx < length s" "find_from s brace idx = Some i"
    "p = (case args of [] \<Rightarrow> (brace, []) | a # as \<Rightarrow> (a, as))" "(r, args') = p"
  have "i + 2 \<le> length s" "idx \<le> i" using brace_fits [OF a(2)] find_from_bounds(1) [OF a(2)] by simp_all
  then show "((replace_at i (length brace) r s, i + length r, args'), s, idx, args) \<in> measure (\<lambda>(s, idx, args). length s - idx)"
    using a(1) by (auto simp: replace_at_def brace_def)
qed simp

declare format_loop.simps [simp del]

definition formatMsg :: "log_arg list \<Rightarrow> string outcome" where
  "formatMsg args = (case arg_strings args of Inl e \<Rightarrow> Inl e
     | Inr ss \<Rightarrow> Inr (if length ss < 2 then [] else hd ss @ format_loop (ss ! 1) 0 (drop 2 ss)))"

section \<open>Logging calls\<close>

definition log :: "LogLevel \<Rightarrow> log_arg list \<Rightarrow> 'h Statics \<Rightarrow> 'h Statics outcome" where
  "log level msg st =
     (if allowed level st
      then (case formatMsg msg of Inl e \<Rightarrow> Inl e | Inr formatedStr \<Rightarrow> Inr (logImpl level formatedStr st))
      else Inr st)"

definition debug :: "log_arg list \<Rightarrow> 'h Statics \<Rightarrow> 'h Statics outcome" where
  "debug msg = log LOG_LEVEL_DEBUG (Text ''DEBUG   :    '' # msg)"

definition info :: "log_arg list \<Rightarrow> 'h Statics \<Rightarrow> 'h Statics outcome" where
  "info msg = log LOG_LEVEL_INFO (Text ''INFO    :    '' # msg)"

definition warn :: "log_arg list \<Rightarrow> 'h Statics \<Rightarrow> 'h Statics outcome" where
  "warn msg = log LOG_LEVEL_WARN (Text ''WARN    :    '' # msg)"

definition error :: "log_arg list \<Rightarrow> 'h Statics \<Rightarrow> 'h Statics outcome" where
  "error msg = log LOG_LEVEL_ERROR (Text ''ERROR   :    '' # msg)"

definition fatal :: "log_arg list \<Rightarrow> 'h Statics \<Rightarrow> 'h Statics outcome" where
  "fatal msg = log LOG_LEVEL_FATAL (Text ''FATAL   :    '' # msg)"

definition verbose :: "log_arg list \<Rightarrow> 'h Statics \<Rightarrow> 'h Statics outcome" where
  "verbose msg = log LOG_LEVEL_VERBOSE (Text ''VERBOSE :    '' # msg)"

definition debugAllowed :: "'h Statics \<Rightarrow> bool" where "debugAllowed = allowed LOG_LEVEL_DEBUG"
definition infoAllowed :: "'h Statics \<Rightarrow> bool" where "infoAllowed = allowed LOG_LEVEL_INFO"
definition warnAllowed :: "'h Statics \<Rightarrow> bool" where "warnAllowed = allowed LOG_LEVEL_WARN"
definition errorAllowed :: "'h Statics \<Rightarrow> bool" where "errorAllowed = allowed LOG_LEVEL_ERROR"
definition fatalAllowed :: "'h Statics \<Rightarrow> bool" where "fatalAllowed = allowed LOG_LEVEL_FATAL"
definition verboseAllowed :: "'h Statics \<Rightarrow> bool" where "verboseAllowed = allowed LOG_LEVEL_VERBOSE"

text \<open>\<open>constexprPastLastSlash\<close>, on the characters of a C string.\<close>

fun constexprPastLastSlash :: "string \<Rightarrow> string \<Rightarrow> string" where
  "constexprPastLastSlash [] last_slash = last_slash"
| "constexprPastLastSlash (c # str) last_slash =
     (if c = CHR ''/'' then constexprPastLastSlash str str else constexprPastLastSlash str last_slash)"

text \<open>The macros: the arguments, and the place of the call when debug messages are allowed.\<close>

definition call_place :: "string \<Rightarrow> nat \<Rightarrow> log_arg list" where
  "call_place path line = [Text ''  --> [[ '', Text (constexprPastLastSlash path path), Text '':'', Number (int line), Text '' ]]'']"

definition BITCASK_LOGGER_DEBUG :: "string \<Rightarrow> nat \<Rightarrow> log_arg list \<Rightarrow> 'h Statics \<Rightarrow> 'h Statics outcome" where
  "BITCASK_LOGGER_DEBUG path line args st =
     (if debugAllowed st then debug (args @ call_place path line) st else Inr st)"

definition BITCASK_LOGGER_WRITE :: "('h Statics \<Rightarrow> bool) \<Rightarrow> (log_arg list \<Rightarrow> 'h Statics \<Rightarrow> 'h Statics outcome)
    \<Rightarrow> string \<Rightarrow> nat \<Rightarrow> log_arg list \<Rightarrow> 'h Statics \<Rightarrow> 'h Statics outcome" where
  "BITCASK_LOGGER_WRITE logtypeAllowed logtype path line args st =
     (if logtypeAllowed st
      then if \<not> debugAllowed st then logtype args st else logtype (args @ call_place path line) st
      else Inr st)"

text \<open>
  The macros of the single levels are chosen by the preprocessor: \<open>minLevel\<close> is the value of
  \<open>BITCASK_MIN_ALLOWED_LOG_LEVEL\<close>, which a build may define. The numbers compared are not those of the
  levels above.
\<close>

definition BITCASK_LOG_LEVEL_SILENCE :: int where "BITCASK_LOG_LEVEL_SILENCE = 0"
definition BITCASK_LOG_LEVEL_DEBUG :: int where "BITCASK_LOG_LEVEL_DEBUG = 1"
definition BITCASK_LOG_LEVEL_INFO :: int where "BITCASK_LOG_LEVEL_INFO = 2"
definition BITCASK_LOG_LEVEL_WARN :: int where "BITCASK_LOG_LEVEL_WARN = 4"
definition BITCASK_LOG_LEVEL_ERROR :: int where "BITCASK_LOG_LEVEL_ERROR = 8"
definition BITCASK_LOG_LEVEL_FATAL :: int where "BITCASK_LOG_LEVEL_FATAL = 16"
definition BITCASK_LOG_LEVEL_VERBOSE :: int where "BITCASK_LOG_LEVEL_VERBOSE = 32"

definition BITCASK_MIN_ALLOWED_LOG_LEVEL :: "int option \<Rightarrow> int" where
  "BITCASK_MIN_ALLOWED_LOG_LEVEL defined = (case defined of None \<Rightarrow> BITCASK_LOG_LEVEL_INFO | Some l \<Rightarrow> l)"

definition BITCASK_LOGGER_VERBOSE :: "int \<Rightarrow> string \<Rightarrow> nat \<Rightarrow> log_arg list \<Rightarrow> 'h Statics \<Rightarrow> 'h Statics outcome" where
  "BITCASK_LOGGER_VERBOSE minLevel path line args = (if minLevel \<le> BITCASK_LOG_LEVEL_VERBOSE
     then BITCASK_LOGGER_WRITE verboseAllowed verbose path line args else Inr)"

definition BITCASK_LOGGER_INFO :: "int \<Rightarrow> string \<Rightarrow> nat \<Rightarrow> log_arg list \<Rightarrow> 'h Statics \<Rightarrow> 'h Statics outcome" where
  "BITCASK_LOGGER_INFO minLevel path line args = (if minLevel \<le> BITCASK_LOG_LEVEL_INFO
     then BITCASK_LOGGER_WRITE infoAllowed info path line args else Inr)"

definition BITCASK_LOGGER_WARN :: "int \<Rightarrow> string \<Rightarrow> nat \<Rightarrow> log_arg list \<Rightarrow> 'h Statics \<Rightarrow> 'h Statics outcome" where
  "BITCASK_LOGGER_WARN minLevel path line args = (if minLevel \<le> BITCASK_LOG_LEVEL_WARN
     then BITCASK_LOGGER_WRITE warnAllowed warn path line args else Inr)"

definition BITCASK_LOGGER_ERROR :: "int \<Rightarrow> string \<Rightarrow> nat \<Rightarrow> log_arg list \<Rightarrow> 'h Statics \<Rightarrow> 'h Statics outcome" where
  "BITCASK_LOGGER_ERROR minLevel path line args = (if minLevel \<le> BITCASK_LOG_LEVEL_ERROR
     then BITCASK_LOGGER_WRITE errorAllowed error path line args else Inr)"

definition BITCASK_LOGGER_FATAL :: "int \<Rightarrow> string \<Rightarrow> nat \<Rightarrow> log_arg list \<Rightarrow> 'h Statics \<Rightarrow> 'h Statics outcome" where
  "BITCASK_LOGGER_FATAL minLevel path line args = (if minLevel \<le> BITCASK_LOG_LEVEL_FATAL
     then BITCASK_LOGGER_WRITE fatalAllowed fatal path line args else Inr)"

section \<open>Formatting as filling braces\<close>

fun fill_braces :: "string \<Rightarrow> string list \<Rightarrow> string" where
  "fill_braces [] args = []"
| "fill_braces [c] args = [c]"
| "fill_braces (c # c' # s) args =
     (if c = CHR ''{'' \<and> c' = CHR ''}''
      then (case args of [] \<Rightarrow> brace @ fill_braces s [] | a # as \<Rightarrow> a @ fill_braces s as)
      else c # fill_braces (c' # s) args)"

fun count_braces :: "string \<Rightarrow> nat" where
  "count_braces [] = 0"
| "count_braces [c] = 0"
| "count_braces (c # c' # s) =
     (if c = CHR ''{'' \<and> c' = CHR ''}'' then Suc (count_braces s) else count_braces (c' # s))"

lemma find_from_step:
  "idx < length s \<Longrightarrow> find_from s pat idx =
     (if take (length pat) (drop idx s) = pat then Some idx else find_from s pat (Suc idx))"
  by (simp add: find_from_def upt_rec [of idx])

lemma find_from_end: "find_from s pat (length s) = None"
  by (simp add: find_from_def)

lemma length_brace [simp]: "length brace = 2"
  by (simp add: brace_def)

lemma format_loop_fill: "format_loop (pre @ s) (length pre) args = pre @ fill_braces s args"
proof (induction s args arbitrary: pre rule: fill_braces.induct)
  case (1 args)
  show ?case by (subst format_loop.simps) simp
next
  case (2 c args)
  have "find_from (pre @ [c]) brace (length pre) = None"
    using find_from_end [of "pre @ [c]"] by (subst find_from_step) (auto simp: brace_def)
  then show ?case by (subst format_loop.simps) simp
next
  case (3 c c' s args)
  show ?case
  proof (cases "c = CHR ''{'' \<and> c' = CHR ''}''")
    case True
    then have f: "find_from (pre @ c # c' # s) brace (length pre) = Some (length pre)"
      by (subst find_from_step) (simp_all add: brace_def)
    show ?thesis
    proof (cases args)
      case Nil
      have "format_loop (pre @ c # c' # s) (length pre) args = format_loop ((pre @ brace) @ s) (length (pre @ brace)) []"
        by (subst format_loop.simps) (simp add: f Nil replace_at_def)
      then show ?thesis using "3.IH"(1) [OF True Nil, of "pre @ brace"] True Nil by simp
    next
      case (Cons a as)
      have "format_loop (pre @ c # c' # s) (length pre) args = format_loop ((pre @ a) @ s) (length (pre @ a)) as"
        by (subst format_loop.simps) (simp add: f Cons replace_at_def)
      then show ?thesis using "3.IH"(2) [OF True Cons, of "pre @ a"] True Cons by simp
    qed
  next
    case False
    then have f: "find_from (pre @ c # c' # s) brace (length pre) = find_from (pre @ c # c' # s) brace (Suc (length pre))"
      by (subst find_from_step) (auto simp: brace_def)
    have "format_loop (pre @ c # c' # s) (length pre) args = format_loop (pre @ c # c' # s) (Suc (length pre)) args"
      by (subst (1 2) format_loop.simps) (simp add: f)
    then show ?thesis using "3.IH"(3) [OF False, of "pre @ [c]"] False by auto
  qed
qed

lemma fill_braces_extra:
  "count_braces s \<le> length args \<Longrightarrow> fill_braces s (args @ extra) = fill_braces s args"
proof (induction s args rule: fill_braces.induct)
  case (3 c c' s args)
  show ?case
  proof (cases "c = CHR ''{'' \<and> c' = CHR ''}''")
    case True
    with "3.prems" obtain a as where a: "args = a # as" by (cases args) auto
    then show ?thesis using "3.IH"(2) [OF True a] "3.prems" True by simp
  next
    case False
    then show ?thesis using "3.IH"(3) [OF False] "3.prems" by (cases args) auto
  qed
qed auto

lemma arg_strings_append:
  "arg_strings (as @ bs) = (case arg_strings as of Inl e \<Rightarrow> Inl e
     | Inr xs \<Rightarrow> (case arg_strings bs of Inl e \<Rightarrow> Inl e | Inr ys \<Rightarrow> Inr (xs @ ys)))"
  by (induction as) (auto split: sum.splits)

lemma arg_strings_length: "arg_strings as = Inr ss \<Longrightarrow> length ss = length as"
  by (induction as arbitrary: ss) (auto split: sum.splits)

lemma formatMsg_fill:
  "formatMsg (lvl # fmt # args) = (case arg_strings (lvl # fmt # args) of Inl e \<Rightarrow> Inl e
     | Inr ss \<Rightarrow> Inr (ss ! 0 @ fill_braces (ss ! 1) (drop 2 ss)))"
proof (cases "arg_strings (lvl # fmt # args)")
  case (Inr ss)
  have "length ss = Suc (Suc (length args))" using arg_strings_length [OF Inr] by simp
  then obtain l f as where ss: "ss = l # f # as" by (metis length_Suc_conv)
  show ?thesis using Inr format_loop_fill [of "[]" f as] unfolding formatMsg_def by (simp add: ss)
qed (simp add: formatMsg_def)

section \<open>Properties of the logger\<close>

text \<open>C32. The loop of \<open>formatMsg\<close> puts the arguments into the braces of the format from left to right, does
  not look into what it has put in, leaves braces without an argument and drops surplus arguments;
  an argument that cannot be printed makes the call throw before anything is formatted.\<close>

theorem formatMsg_fills_braces:
  "formatMsg (lvl # fmt # args) = (case arg_strings (lvl # fmt # args) of Inl e \<Rightarrow> Inl e
     | Inr ss \<Rightarrow> Inr (ss ! 0 @ fill_braces (ss ! 1) (drop 2 ss)))"
  by (rule formatMsg_fill)

text \<open>C33. The macros append the place of the call to the arguments, but a format whose braces all have
  arguments prints without it: the place never appears in the message.\<close>

theorem call_place_not_printed:
  assumes "arg_string fmt = Inr f" and "count_braces f \<le> length args"
  shows "formatMsg (lvl # fmt # args @ call_place path line) = formatMsg (lvl # fmt # args)"
proof -
  obtain place where p: "arg_strings (call_place path line) = Inr place" by (simp add: call_place_def arg_string_def)
  show ?thesis
  proof (cases "arg_strings (lvl # fmt # args)")
    case (Inl e)
    then show ?thesis unfolding formatMsg_fill
      by (auto simp: arg_strings_append p split: sum.splits)
  next
    case (Inr ss)
    then obtain l as where as: "arg_string lvl = Inr l" "arg_strings args = Inr as" "ss = l # f # as"
      using assms(1) by (auto split: sum.splits)
    have "fill_braces f (as @ place) = fill_braces f as"
      by (rule fill_braces_extra) (use assms(2) arg_strings_length [OF as(2)] in simp)
    then show ?thesis unfolding formatMsg_fill using assms(1) as p by (simp add: arg_strings_append)
  qed
qed

theorem call_place_not_printed_witness:
  "formatMsg (Text ''DEBUG   :    '' # Text ''Key not found'' # [] @ call_place ''src/BitcaskImpl.cpp'' 154)
     = formatMsg (Text ''DEBUG   :    '' # Text ''Key not found'' # [])"
  by (rule call_place_not_printed [where f = "''Key not found''"]) (simp_all add: arg_string_def printed_def)

text \<open>A message reaches exactly one function, and only if its level is allowed: that for output for the
  levels info, debug and verbose, that for errors otherwise. If its text cannot be made it reaches none.\<close>

lemma log_routing:
  "log level msg st = (if allowedLevels st AND level = 0 then Inr st
     else case formatMsg msg of Inl e \<Rightarrow> Inl e | Inr s \<Rightarrow>
       Inr (st\<lparr>emitted := emitted st @ [(if level \<in> {1, 16, 32} then out_fn st else err_fn st, s)]\<rparr>))"
  by (simp add: log_def allowed_def logImpl_def level_defs split: sum.split)

text \<open>The levels that a build leaves out. With the minimum at fatal messages the macros for information,
  warnings and errors are empty, but verbose messages, which have the largest number of all levels, are
  still logged; the macro for debug messages has no guard and is never left out.\<close>

lemma verbose_compiled_last:
  "BITCASK_LOGGER_INFO BITCASK_LOG_LEVEL_FATAL path line args st = Inr st
   \<and> BITCASK_LOGGER_WARN BITCASK_LOG_LEVEL_FATAL path line args st = Inr st
   \<and> BITCASK_LOGGER_ERROR BITCASK_LOG_LEVEL_FATAL path line args st = Inr st
   \<and> BITCASK_LOGGER_VERBOSE BITCASK_LOG_LEVEL_FATAL path line [Text ''detail''] (changeLogLevels LOG_LEVEL_VERBOSE st) =
       Inr ((changeLogLevels LOG_LEVEL_VERBOSE st)\<lparr>emitted := emitted st @ [(out_fn st, ''VERBOSE :    detail'')]\<rparr>)"
proof -
  have "BITCASK_LOGGER_WRITE verboseAllowed verbose path line [Text ''detail''] (changeLogLevels LOG_LEVEL_VERBOSE st) =
      Inr ((changeLogLevels LOG_LEVEL_VERBOSE st)\<lparr>emitted := emitted st @ [(out_fn st, ''VERBOSE :    detail'')]\<rparr>)"
    by (simp add: BITCASK_LOGGER_WRITE_def verboseAllowed_def debugAllowed_def allowed_def changeLogLevels_def level_defs
        verbose_def log_def formatMsg_fill arg_string_def printed_def logImpl_def)
  then show ?thesis
    by (simp add: BITCASK_LOGGER_VERBOSE_def BITCASK_LOGGER_INFO_def BITCASK_LOGGER_WARN_def BITCASK_LOGGER_ERROR_def
        BITCASK_LOG_LEVEL_VERBOSE_def BITCASK_LOG_LEVEL_INFO_def BITCASK_LOG_LEVEL_WARN_def
        BITCASK_LOG_LEVEL_ERROR_def BITCASK_LOG_LEVEL_FATAL_def)
qed

text \<open>\<open>enable\<close> never allows a level that was not allowed before, and after it no level outside the given
  ones is allowed: it works as a filter, not as the opposite of \<open>disable\<close>.\<close>

lemma enable_never_allows:
  "(allowed l (enable level st) \<longleftrightarrow> allowedLevels st AND level AND l \<noteq> 0)
   \<and> \<not> allowed l (enable level (changeLogLevels LOG_LEVEL_SILENCE st))"
  by (simp add: allowed_def enable_def changeLogLevels_def level_defs and.assoc)

text \<open>\<open>init\<close> without a function for errors sends errors to the function for output, also when an earlier
  \<open>init\<close> had installed one for them.\<close>

lemma init_resets_err:
  "err_fn (init levels None None (init levels' (Some out) (Some err) st)) = out
   \<and> err_fn (init levels' (Some out) (Some err) st) = err
   \<and> allowedLevels (init levels None None (init levels' (Some out) (Some err) st)) = levels"
  by (simp add: init_def changeLogLevels_def Let_def)

text \<open>The place of a call names its file without the directories.\<close>

lemma past_last_slash:
  "constexprPastLastSlash str last_slash =
     (if CHR ''/'' \<in> set str then rev (takeWhile (\<lambda>c. c \<noteq> CHR ''/'') (rev str)) else last_slash)"
proof (induction str last_slash rule: constexprPastLastSlash.induct)
  case (2 c str last_slash)
  show ?case
  proof (cases "CHR ''/'' \<in> set str")
    case True
    then have "takeWhile (\<lambda>c. c \<noteq> CHR ''/'') (rev str @ [c]) = takeWhile (\<lambda>c. c \<noteq> CHR ''/'') (rev str)"
      by (intro takeWhile_append1 [of "CHR ''/''"]) auto
    with True 2 show ?thesis by auto
  next
    case False
    then have "takeWhile (\<lambda>c. c \<noteq> CHR ''/'') (rev str @ [c]) = rev str @ takeWhile (\<lambda>c. c \<noteq> CHR ''/'') [c]"
      by (intro takeWhile_append2) auto
    with False 2 show ?thesis by auto
  qed
qed simp

lemma constexprPastLastSlash_filename:
  "constexprPastLastSlash str str = rev (takeWhile (\<lambda>c. c \<noteq> CHR ''/'') (rev str))"
proof -
  have "takeWhile (\<lambda>c. c \<noteq> CHR ''/'') (rev str) = rev str" if "CHR ''/'' \<notin> set str"
    using that by (subst takeWhile_eq_all_conv) auto
  then have "CHR ''/'' \<notin> set str \<Longrightarrow> rev (takeWhile (\<lambda>c. c \<noteq> CHR ''/'') (rev str)) = str"
    by (metis rev_rev_ident)
  then show ?thesis unfolding past_last_slash by presburger
qed

end
