(* ===== verification/LoggedStore.thy ===== *)
theory LoggedStore
  imports Engine Logger "HOL-Library.State_Monad"
begin

text \<open>
  The engine with its log messages: the functions of theories \<open>FileStream\<close> to \<open>Engine\<close> that call the
  macros of include/bitcask/Logger.hpp, each with its calls where the code has them, over the state of
  the logger. \<open>logging_changes_nothing\<close> shows that they compute what the functions without messages
  compute, so the other theories speak of the code as it is.
\<close>

section \<open>Computations that log\<close>

text \<open>A computation changes the \<open>Statics\<close> of the logger and returns or faults; \<open>and_then\<close> is the sequence.\<close>

type_synonym ('h, 'a) logging = "('h Statics, 'a outcome) state"

definition gives :: "'a \<Rightarrow> ('h, 'a) logging" where
  "gives x = State_Monad.return (Inr x)"

definition throws :: "fault \<Rightarrow> ('h, 'a) logging" where
  "throws e = State_Monad.return (Inl e)"

definition and_then :: "('h, 'a) logging \<Rightarrow> ('a \<Rightarrow> ('h, 'b) logging) \<Rightarrow> ('h, 'b) logging" where
  "and_then m f = State_Monad.bind m (\<lambda>r. case r of Inl e \<Rightarrow> throws e | Inr x \<Rightarrow> f x)"

text \<open>A call of a macro. A build has the directory of its sources and perhaps a minimal level.\<close>

record build =
  source_dir :: string
  min_level :: "int option"

definition log_call :: "('h Statics \<Rightarrow> 'h Statics outcome) \<Rightarrow> ('h, unit) logging" where
  "log_call c = State (\<lambda>st. case c st of Inl e \<Rightarrow> (Inl e, st) | Inr st \<Rightarrow> (Inr (), st))"

definition DEBUG :: "build \<Rightarrow> string \<Rightarrow> nat \<Rightarrow> log_arg list \<Rightarrow> ('h, 'a) logging \<Rightarrow> ('h, 'a) logging" where
  "DEBUG b file_name line args m =
     and_then (log_call (BITCASK_LOGGER_DEBUG (source_dir b @ file_name) line args)) (\<lambda>_. m)"

definition INFO :: "build \<Rightarrow> string \<Rightarrow> nat \<Rightarrow> log_arg list \<Rightarrow> ('h, 'a) logging \<Rightarrow> ('h, 'a) logging" where
  "INFO b file_name line args m = and_then (log_call
     (BITCASK_LOGGER_INFO (BITCASK_MIN_ALLOWED_LOG_LEVEL (min_level b)) (source_dir b @ file_name) line args)) (\<lambda>_. m)"

definition ERROR :: "build \<Rightarrow> string \<Rightarrow> nat \<Rightarrow> log_arg list \<Rightarrow> ('h, 'a) logging \<Rightarrow> ('h, 'a) logging" where
  "ERROR b file_name line args m = and_then (log_call
     (BITCASK_LOGGER_ERROR (BITCASK_MIN_ALLOWED_LOG_LEVEL (min_level b)) (source_dir b @ file_name) line args)) (\<lambda>_. m)"

section \<open>Files and records\<close>

definition OpenFile_logged :: "build \<Rightarrow> fsys \<Rightarrow> fstream \<Rightarrow> string \<Rightarrow> ios_flag set \<Rightarrow> ('h, bool \<times> fsys \<times> fstream) logging" where
  "OpenFile_logged b F file filename mode =
     (let (F, file) = open_stream F filename mode file
      in INFO b ''File.cpp'' 11 [Text ''Open file: {}, cur pos: {}'', Text filename, Number (st_tellp file)]
           (gives (is_open file, F, file)))"

definition WriteRecord_logged ::
  "build \<Rightarrow> crc_fn \<Rightarrow> fsys \<Rightarrow> fstream \<Rightarrow> key \<Rightarrow> val \<Rightarrow> ('h, RecordInf \<times> fsys \<times> fstream) logging" where
  "WriteRecord_logged b ext F file k v =
     (let (header, sz) = fillHeader ext k v;
          (_, F, file) = WriteFile F file (header_bytes header);
          keyOffset = word_of_int (st_tellp file);
          (_, F, file) = WriteFile F file k;
          valueOffset = word_of_int (st_tellp file);
          (_, F, file) = WriteFile F file v
      in DEBUG b ''Record.cpp'' 39 [Text ''Write record: key={}, value={}, offset after write: {}'',
             Text k, Text v, Number (st_tellp file)]
           (gives (\<lparr>inf_size = ucast sz, inf_keyOffset = keyOffset, inf_valueOffset = valueOffset\<rparr>, F, file)))"

definition ReadRecord_logged ::
  "build \<Rightarrow> crc_fn \<Rightarrow> fsys \<Rightarrow> fstream \<Rightarrow> ('h, (key \<times> val \<times> RecordInf) option \<times> fstream) logging" where
  "ReadRecord_logged b ext F file =
     (let (ok, buf, file) = ReadFile_buf F file header_size
      in if \<not> ok
         then
           if st_gcount file > 0
           then ERROR b ''Record.cpp'' 49 [Text ''Failed to read record header: partial read ({} of {} bytes)'',
               Number (int (st_gcount file)), Number (int header_size)] (gives (None, file))
           else gives (None, file)
         else
           let header = header_of_bytes buf;
               keyOffset = word_of_int (st_tellp file);
               (k, file) = ReadFile_at F file keyOffset (unat (h_keySize header));
               valueOffset = keyOffset + h_keySize header;
               (v, file) = ReadFile_at F file valueOffset (unat (h_valueSize header));
               sz = word_of_nat header_size + ucast (h_keySize header) + ucast (h_valueSize header) :: u64
           in if h_crc32 header \<noteq> getCRC32 ext header k v
              then ERROR b ''Record.cpp'' 62 [Text ''CRC32 not match''] (gives (None, file))
              else gives (Some (k, v, \<lparr>inf_size = ucast sz, inf_keyOffset = keyOffset,
                                       inf_valueOffset = valueOffset\<rparr>), file))"

text \<open>The loop of the scan, and the scan. \<open>tellg\<close> differs from \<open>tellp\<close> only on a stream at its end, which it
  marks as failed; the scan asks for it behind a \<open>seekg\<close> and where \<open>eof()\<close> is false. Streams of the model have
  no bad bit, so \<open>bad()\<close> is false.\<close>

partial_function (option) read_loop_logged :: "build \<Rightarrow> crc_fn \<Rightarrow> fsys \<Rightarrow> 'x callback \<Rightarrow> fstream \<Rightarrow> u32 \<Rightarrow> 'x
    \<Rightarrow> 'h Statics \<Rightarrow> ((fstream \<times> u32 \<times> 'x) outcome \<times> 'h Statics) option" where
  "read_loop_logged b ext F callback file count x st =
     (case run_state (ReadRecord_logged b ext F file) st of
        (Inl e, st) \<Rightarrow> Some (Inl e, st)
      | (Inr (None, file), st) \<Rightarrow> Some (Inr (file, count, x), st)
      | (Inr (Some (k, v, i), file), st) \<Rightarrow>
          (case run_state (INFO b ''Record.cpp'' 82 [Text ''Record {}: key={}, value={}, size={}'',
               Number (uint (count + 1)), Text k, Text v, Number (uint (inf_size i))] (gives ())) st of
             (Inl e, st) \<Rightarrow> Some (Inl e, st)
           | (Inr _, st) \<Rightarrow> read_loop_logged b ext F callback file (count + 1) (callback k v i x) st))"

declare read_loop_logged.simps [code]

definition ReadAllRecordFromFile_logged ::
  "build \<Rightarrow> crc_fn \<Rightarrow> fsys \<Rightarrow> 'x callback \<Rightarrow> fstream \<Rightarrow> 'x \<Rightarrow> ('h, fstream \<times> 'x) logging" where
  "ReadAllRecordFromFile_logged b ext F callback file x =
     (let file = st_seekg 0 file
      in INFO b ''Record.cpp'' 76 [Text ''Starting to read all records from file, position: {}'', Number (st_tellp file)]
        (and_then (State (\<lambda>st. case read_loop_logged b ext F callback file 0 x st of
             None \<Rightarrow> (Inl NonTermination, st) | Some r \<Rightarrow> r))
           (\<lambda>(file, count, x).
              if \<not> st_eof file
              then ERROR b ''Record.cpp'' 87 [Text
                  ''Read file error, file state: is good {}, is bad {}, is_open {}, position {}'',
                  Flag (st_good file), Flag False, Flag (is_open file), Number (st_tellp file)] (gives (file, x))
              else INFO b ''Record.cpp'' 92 [Text ''Finished reading all records, total count: {}'', Number (uint count)]
                  (gives (file, x)))))"

definition ActiveFile_Create_path_logged :: "build \<Rightarrow> fsys \<Rightarrow> string \<Rightarrow> ('h, active_file option \<times> fsys) logging" where
  "ActiveFile_Create_path_logged b F path =
     and_then (OpenFile_logged b F new_fstream path {ios_binary, ios_in, ios_out, ios_trunc}) (\<lambda>(ok, F, file).
       if \<not> ok then ERROR b ''ActiveFile.cpp'' 59 [Text ''Cannot create active file: {}'', Text path] (gives (None, F))
       else gives (Some (ActiveFile_Create (Some file)), F))"

definition ActiveFile_Restore_logged :: "build \<Rightarrow> crc_fn \<Rightarrow> fsys \<Rightarrow> string \<Rightarrow> 'x callback \<Rightarrow> 'x
    \<Rightarrow> ('h, fstream option \<times> fsys \<times> 'x) logging" where
  "ActiveFile_Restore_logged b ext F filename callback x =
     (if \<not> Exist F filename
      then INFO b ''ActiveFile.cpp'' 20 [Text ''File does not exist: {}'', Text filename] (gives (None, F, x))
      else and_then (OpenFile_logged b F new_fstream filename {ios_binary, ios_in}) (\<lambda>(ok, F, rd).
        if \<not> ok
        then ERROR b ''ActiveFile.cpp'' 27 [Text ''Failed to open file for reading: {}'', Text filename] (gives (None, F, x))
        else and_then (ReadAllRecordFromFile_logged b ext F callback rd x) (\<lambda>(_, x).
          and_then (OpenFile_logged b F new_fstream filename {ios_binary, ios_in, ios_out, ios_app}) (\<lambda>(ok, F, result).
            if \<not> ok
            then ERROR b ''ActiveFile.cpp'' 42 [Text ''Failed to open file for appending: {}'', Text filename] (gives (None, F, x))
            else INFO b ''ActiveFile.cpp'' 47 [Text ''Successfully restored file: {}'', Text filename]
                (gives (Some result, F, x))))))"

definition ActiveFile_Write_logged ::
  "build \<Rightarrow> crc_fn \<Rightarrow> fsys \<Rightarrow> active_file \<Rightarrow> key \<Rightarrow> val \<Rightarrow> ('h, offset \<times> fsys \<times> active_file) logging" where
  "ActiveFile_Write_logged b ext F af k v =
     (case af_file af of None \<Rightarrow> throws NullDeref
      | Some file \<Rightarrow> and_then (WriteRecord_logged b ext F file k v) (\<lambda>(i, F, file).
          gives (inf_valueOffset i, F, af\<lparr>af_file := Some file\<rparr>)))"

definition StableFile_Restore_logged :: "build \<Rightarrow> crc_fn \<Rightarrow> fsys \<Rightarrow> string \<Rightarrow> 'x callback \<Rightarrow> 'x
    \<Rightarrow> ('h, fstream option \<times> fsys \<times> 'x) logging" where
  "StableFile_Restore_logged b ext F filename callback x =
     (if \<not> Exist F filename then gives (None, F, x)
      else and_then (OpenFile_logged b F new_fstream filename {ios_binary, ios_in}) (\<lambda>(ok, F, file).
        if \<not> ok \<or> \<not> is_open file \<or> \<not> st_good file
        then ERROR b ''StableFile.cpp'' 23 [Text ''Failed to open file: {}'', Text filename] (gives (None, F, x))
        else and_then (ReadAllRecordFromFile_logged b ext F callback file x) (\<lambda>(file, x).
          INFO b ''StableFile.cpp'' 27 [Text ''is good {}, is bad {}, is_open {}, position {}'',
              Flag (st_good file), Flag False, Flag (is_open file), Number (st_tellp file)]
            (gives (Some file, F, x)))))"

section \<open>The engine\<close>

fun restore_stable_loop_logged :: "build \<Rightarrow> ('am, 'rm) libs \<Rightarrow> string \<Rightarrow> string list \<Rightarrow> ('am, 'rm) BitcaskImpl
    \<Rightarrow> ('h, ('am, 'rm) BitcaskImpl) logging" where
  "restore_stable_loop_logged b L dbPath [] db = gives db"
| "restore_stable_loop_logged b L dbPath (name # names) db =
     (case stoul name of
        Inl e \<Rightarrow> throws e
      | Inr n \<Rightarrow>
          let fileID = ucast n :: u32;
              callback = (\<lambda>k v i. RecordMap_Put (lib_rmap L) k (value_hint fileID i v))
          in and_then (StableFile_Restore_logged b (lib_crc L) (disk db) (entry_path dbPath name) callback (recordMap db))
               (\<lambda>(file, F, rm). restore_stable_loop_logged b L dbPath names
                   (db\<lparr>disk := F, recordMap := rm,
                       stableFiles := AList.update fileID (StableFile_Create file) (stableFiles db)\<rparr>)))"

definition RestoreStableMap_logged ::
  "build \<Rightarrow> ('am, 'rm) libs \<Rightarrow> ('am, 'rm) BitcaskImpl \<Rightarrow> ('h, ('am, 'rm) BitcaskImpl) logging" where
  "RestoreStableMap_logged b L db =
     (let dbPath = GetDbPath (setting db);
          activeFileName = path_filename (getActivePathInDir (disk db) dbPath);
          entries = filter (\<lambda>name. name \<noteq> activeFileName) (regular_names (disk db) dbPath)
      in restore_stable_loop_logged b L dbPath (sort entries) db)"

definition RestoreActiveMap_logged ::
  "build \<Rightarrow> ('am, 'rm) libs \<Rightarrow> ('am, 'rm) BitcaskImpl \<Rightarrow> ('h, bool \<times> ('am, 'rm) BitcaskImpl) logging" where
  "RestoreActiveMap_logged b L db =
     (let dbPath = GetDbPath (setting db);
          activePath = getActivePathInDir (disk db) dbPath;
          stableCount = word_of_nat (stable_count (disk db) dbPath (path_filename activePath)) :: u32
      in if Exist (disk db) activePath
         then
           let callback = (\<lambda>k v i (rm, am).
                 (RecordMap_Put (lib_rmap L) k (value_hint stableCount i v) rm, ActiveMap_Put (lib_amap L) k v am))
           in and_then (ActiveFile_Restore_logged b (lib_crc L) (disk db) activePath callback (recordMap db, activeMap db))
                (\<lambda>(file, F, rm, am).
                   DEBUG b ''BitcaskImpl.cpp'' 86 [Text ''Restore active file: {}'', Text activePath]
                     (gives (True, db\<lparr>disk := F, recordMap := rm, activeMap := am,
                                      activeFile := Some (ActiveFile_Create file)\<rparr>)))
         else
           and_then (ActiveFile_Create_path_logged b (disk db) activePath) (\<lambda>(af, F).
             DEBUG b ''BitcaskImpl.cpp'' 90 [Text ''Create new active file: {}'', Text activePath]
               (gives (af \<noteq> None, db\<lparr>disk := F, activeFile := af\<rparr>))))"

definition BitcaskImpl_new_logged ::
  "build \<Rightarrow> ('am, 'rm) libs \<Rightarrow> Setting \<Rightarrow> fsys \<Rightarrow> ('h, ('am, 'rm) BitcaskImpl) logging" where
  "BitcaskImpl_new_logged b L s F =
     and_then (RestoreStableMap_logged b L (BitcaskImpl_init L s F)) (\<lambda>db.
       and_then (RestoreActiveMap_logged b L db) (\<lambda>(_, db). gives db))"

definition Get_logged ::
  "build \<Rightarrow> ('am, 'rm) libs \<Rightarrow> key \<Rightarrow> ('am, 'rm) BitcaskImpl \<Rightarrow> ('h, val option \<times> ('am, 'rm) BitcaskImpl) logging" where
  "Get_logged b L k db =
     (case RecordMap_Get (lib_rmap L) (recordMap db) k of
        None \<Rightarrow> DEBUG b ''BitcaskImpl.cpp'' 153 [Text ''Key not found''] (gives (None, db))
      | Some record \<Rightarrow>
          if hint_fd record = getActiveFD db
          then DEBUG b ''BitcaskImpl.cpp'' 158 [Text ''Get from active file'']
            (let v = ActiveMap_Get (lib_amap L) (activeMap db) k
             in if v = Some TOMBSTONE then gives (None, db) else gives (v, db))
          else case map_of (stableFiles db) (hint_fd record) of
              None \<Rightarrow> gives (None, db)
            | Some sf \<Rightarrow> DEBUG b ''BitcaskImpl.cpp'' 168 [Text ''Get from stable file'']
                (case StableFile_Read (disk db) sf (hint_offset record) (hint_size record) of
                   Inl e \<Rightarrow> throws e
                 | Inr (v, sf) \<Rightarrow>
                     let db = db\<lparr>stableFiles := AList.update (hint_fd record) sf (stableFiles db)\<rparr>
                     in if v = TOMBSTONE then gives (None, db) else gives (Some v, db)))"

text \<open>The rotation opens the file it has closed without \<open>OpenFile\<close>, so that is not logged.\<close>

definition rotate_files_logged :: "build \<Rightarrow> string \<Rightarrow> u32 \<Rightarrow> active_file \<Rightarrow> commit_state \<Rightarrow> ('h, commit_state) logging" where
  "rotate_files_logged b dbPath activeFD af cs =
     INFO b ''BitcaskImpl.cpp'' 210 [Text ''Rotate active file'']
       (case ActiveFile_Rotate af of
          Inl e \<Rightarrow> throws e
        | Inr (_, af) \<Rightarrow>
            let fd = ucast activeFD + word_of_nat (length (cs_new cs)) :: u64;
                (F, handler) = open_stream (cs_disk cs) (db_file dbPath (unat fd)) {ios_binary, ios_in, ios_app} new_fstream;
                newStable = AList.update (ucast fd) (StableFile_Create (Some handler)) (cs_new cs)
            in and_then (ActiveFile_Create_path_logged b F (db_file dbPath (unat (fd + 1)))) (\<lambda>(active, F).
                 gives (cs\<lparr>cs_disk := F, cs_active := active, cs_new := newStable, cs_last := cs_idx cs\<rparr>)))"

definition commit_one_logged ::
  "build \<Rightarrow> crc_fn \<Rightarrow> string \<Rightarrow> u64 \<Rightarrow> u32 \<Rightarrow> Write \<Rightarrow> commit_state \<Rightarrow> ('h, commit_state) logging" where
  "commit_one_logged b ext dbPath maxFileSize activeFD w cs =
     and_then (if w_value w = ''37449''
         then INFO b ''BitcaskImpl.cpp'' 202 [Text ''key: {}, value: {}'', Text (w_key w), Text (w_value w)] (gives ())
         else gives ()) (\<lambda>_.
       case cs_active cs of None \<Rightarrow> throws NullDeref
       | Some af \<Rightarrow> and_then (ActiveFile_Write_logged b ext (cs_disk cs) af (w_key w) (w_value w)) (\<lambda>(valueOffset, F, af).
           let record = \<lparr>hint_fd = activeFD, hint_offset = valueOffset, hint_size = word_of_nat (length (w_value w))\<rparr>;
               cs = cs\<lparr>cs_disk := F, cs_active := Some af, cs_records := cs_records cs @ [record], cs_idx := cs_idx cs + 1\<rparr>
           in if (ucast valueOffset :: u64) < maxFileSize then gives cs
              else rotate_files_logged b dbPath activeFD af cs))"

fun commit_loop_logged ::
  "build \<Rightarrow> crc_fn \<Rightarrow> string \<Rightarrow> u64 \<Rightarrow> u32 \<Rightarrow> Write list \<Rightarrow> commit_state \<Rightarrow> ('h, commit_state) logging" where
  "commit_loop_logged b ext dbPath maxFileSize activeFD [] cs = gives cs"
| "commit_loop_logged b ext dbPath maxFileSize activeFD (w # ws) cs =
     and_then (commit_one_logged b ext dbPath maxFileSize activeFD w cs)
       (commit_loop_logged b ext dbPath maxFileSize activeFD ws)"

definition CommitWrite_logged ::
  "build \<Rightarrow> ('am, 'rm) libs \<Rightarrow> Write list \<Rightarrow> ('am, 'rm) BitcaskImpl \<Rightarrow> ('h, ('am, 'rm) BitcaskImpl) logging" where
  "CommitWrite_logged b L ws db =
     and_then (commit_loop_logged b (lib_crc L) (GetDbPath (setting db)) (GetMaxFileSize (setting db)) (getActiveFD db)
         ws (commit_start db)) (\<lambda>cs.
       let db = db\<lparr>disk := cs_disk cs, activeFile := cs_active cs\<rparr>;
           db = insert_stable (cs_new cs) db;
           db = clear_active L (cs_new cs) db
       in gives (publish L (cs_last cs) ws (cs_records cs) db))"

text \<open>\<open>CommitWrite\<close> always returns true, so the worker's message for a failed commit is never sent.\<close>

definition worker_turn_logged ::
  "build \<Rightarrow> ('am, 'rm) libs \<Rightarrow> ('am, 'rm) BitcaskImpl \<Rightarrow> ('h, ('am, 'rm) BitcaskImpl) logging" where
  "worker_turn_logged b L db = CommitWrite_logged b L (pending db) (db\<lparr>pending := []\<rparr>)"

section \<open>What a logging computation computes\<close>

text \<open>
  \<open>computes m r\<close>: whatever the state of the logger, \<open>m\<close> ends in \<open>r\<close>; it only appends messages, and none
  when no level is allowed.
\<close>

definition appends :: "'h Statics \<Rightarrow> 'h Statics \<Rightarrow> bool" where
  "appends st st' \<longleftrightarrow> (\<exists>msgs. st' = st\<lparr>emitted := emitted st @ msgs\<rparr> \<and> (allowedLevels st = LOG_LEVEL_SILENCE \<longrightarrow> msgs = []))"

definition computes :: "('h, 'a) logging \<Rightarrow> 'a outcome \<Rightarrow> bool" where
  "computes m r \<longleftrightarrow> (\<forall>st. fst (run_state m st) = r) \<and> state_io_rel appends m"

named_theorems computing \<open>what the logging functions compute\<close>

lemma appendsI: "(allowedLevels st = LOG_LEVEL_SILENCE \<Longrightarrow> msgs = []) \<Longrightarrow> appends st (st\<lparr>emitted := emitted st @ msgs\<rparr>)"
  unfolding appends_def by blast

lemma appends_refl [simp]: "appends st st"
  using appendsI [of st "[]"] by simp

lemma appends_trans:
  assumes "appends st st1" and "appends st1 st2" shows "appends st st2"
proof -
  obtain m1 m2 where "st1 = st\<lparr>emitted := emitted st @ m1\<rparr>" "st2 = st1\<lparr>emitted := emitted st1 @ m2\<rparr>"
    "allowedLevels st = LOG_LEVEL_SILENCE \<longrightarrow> m1 = []" "allowedLevels st1 = LOG_LEVEL_SILENCE \<longrightarrow> m2 = []"
    using assms unfolding appends_def by blast
  then show ?thesis using appendsI [of st "m1 @ m2"] by simp
qed

lemma computes_run: "computes m r \<Longrightarrow> run_state m st = (r', st') \<Longrightarrow> r' = r \<and> appends st st'"
  unfolding computes_def state_io_rel_def by (metis fst_conv snd_conv)

lemma computes_let: "computes m r \<Longrightarrow> (let (r', lg') = run_state m lg in r' = r \<and> appends lg lg')"
  using computes_run [of m r lg] by (cases "run_state m lg") simp

lemma computesI: "(\<And>st. \<exists>st'. run_state m st = (r, st') \<and> appends st st') \<Longrightarrow> computes m r"
  unfolding computes_def state_io_rel_def by (metis fst_conv snd_conv)

lemma computes_gives [computing]: "computes (gives x) (Inr x)"
  by (rule computesI) (simp add: gives_def)

lemma computes_throws [computing]: "computes (throws e) (Inl e)"
  by (rule computesI) (simp add: throws_def)

lemma run_and_then: "run_state (and_then m f) st =
    (case run_state m st of (Inl e, st) \<Rightarrow> (Inl e, st) | (Inr x, st) \<Rightarrow> run_state (f x) st)"
  by (auto simp: and_then_def throws_def split: prod.splits sum.splits)

lemma computes_and_then:
  assumes "computes m r" and "\<And>x. r = Inr x \<Longrightarrow> computes (f x) (g x)"
  shows "computes (and_then m f) (case r of Inl e \<Rightarrow> Inl e | Inr x \<Rightarrow> g x)"
proof (rule computesI)
  fix st
  obtain st1 where m: "run_state m st = (r, st1)" "appends st st1"
    using computes_run [OF assms(1)] by (cases "run_state m st") auto
  show "\<exists>st'. run_state (and_then m f) st = (case r of Inl e \<Rightarrow> Inl e | Inr x \<Rightarrow> g x, st') \<and> appends st st'"
  proof (cases r)
    case (Inr x)
    obtain st2 where "run_state (f x) st1 = (g x, st2)" "appends st1 st2"
      using computes_run [OF assms(2) [OF Inr]] by (cases "run_state (f x) st1") auto
    then show ?thesis using m Inr appends_trans by (auto simp: run_and_then)
  qed (use m in \<open>simp add: run_and_then\<close>)
qed

lemma computes_seq:
  assumes "computes m r" and "\<And>x. r = Inr x \<Longrightarrow> computes (f x) r'" and "\<And>e. r = Inl e \<Longrightarrow> r' = Inl e"
  shows "computes (and_then m f) r'"
proof (cases r)
  case (Inl e)
  then show ?thesis using computes_and_then [OF assms(1), of f "\<lambda>_. undefined"] assms(3) by simp
next
  case (Inr x)
  then show ?thesis using computes_and_then [OF assms(1), of f "\<lambda>_. r'"] assms(2) by simp
qed

text \<open>A message whose arguments are no wide strings is sent or not, but never throws.\<close>

definition narrow :: "log_arg list \<Rightarrow> bool" where
  "narrow args \<longleftrightarrow> list_all (\<lambda>a. case a of Wide _ \<Rightarrow> False | _ \<Rightarrow> True) args"

lemma narrow_simps [simp]: "narrow []" "narrow (Text s # args) = narrow args" "narrow (Number n # args) = narrow args"
  "narrow (Flag f # args) = narrow args" "narrow (as @ bs) \<longleftrightarrow> narrow as \<and> narrow bs" "narrow (call_place p l)"
  by (auto simp: narrow_def call_place_def)

lemma narrow_strings: "narrow args \<Longrightarrow> arg_strings args = Inr (map printed args)"
  by (induction args) (auto simp: narrow_def arg_string_def split: log_arg.splits)

lemma narrow_format: "narrow args \<Longrightarrow> \<exists>s. formatMsg args = Inr s"
  by (simp add: formatMsg_def narrow_strings)

lemma silent_allows_nothing: "allowedLevels st = LOG_LEVEL_SILENCE \<Longrightarrow> \<not> allowed level st"
  by (simp add: allowed_def level_defs)

lemma log_appends: "narrow args \<Longrightarrow> \<exists>st'. log level args st = Inr st' \<and> appends st st'"
  using narrow_format [of args] silent_allows_nothing [of st level] by (auto simp: log_def logImpl_def intro!: appendsI)

lemma macro_appends:
  assumes "narrow args"
  shows "\<exists>st'. BITCASK_LOGGER_DEBUG path line args st = Inr st' \<and> appends st st'"
    and "\<exists>st'. BITCASK_LOGGER_INFO minLevel path line args st = Inr st' \<and> appends st st'"
    and "\<exists>st'. BITCASK_LOGGER_ERROR minLevel path line args st = Inr st' \<and> appends st st'"
  using assms
  by (simp_all add: BITCASK_LOGGER_DEBUG_def BITCASK_LOGGER_INFO_def BITCASK_LOGGER_ERROR_def BITCASK_LOGGER_WRITE_def
      debug_def info_def error_def log_appends)

lemma computes_message [computing]:
  fixes m :: "('h, 'a) logging"
  assumes "narrow args" and "computes m r"
  shows "computes (DEBUG b file_name line args m) r" and "computes (INFO b file_name line args m) r"
    and "computes (ERROR b file_name line args m) r"
proof -
  have c: "computes (log_call c) (Inr ())" if "\<And>st. \<exists>st'. c st = Inr st' \<and> appends st st'" for c :: "'h Statics \<Rightarrow> 'h Statics outcome"
  proof (rule computesI)
    fix st
    show "\<exists>st'. run_state (log_call c) st = (Inr (), st') \<and> appends st st'"
      using that [of st] by (auto simp: log_call_def)
  qed
  have m: "computes (and_then (log_call c) (\<lambda>_. m)) r" if "\<And>st. \<exists>st'. c st = Inr st' \<and> appends st st'" for c :: "'h Statics \<Rightarrow> 'h Statics outcome"
    using computes_and_then [OF c [OF that], of "\<lambda>_. m" "\<lambda>_. r"] assms(2) by simp
  show "computes (DEBUG b file_name line args m) r" unfolding DEBUG_def by (rule m, rule macro_appends(1) [OF assms(1)])
  show "computes (INFO b file_name line args m) r" unfolding INFO_def by (rule m, rule macro_appends(2) [OF assms(1)])
  show "computes (ERROR b file_name line args m) r" unfolding ERROR_def by (rule m, rule macro_appends(3) [OF assms(1)])
qed

section \<open>The functions with messages compute what those without do\<close>

lemma computes_OpenFile [computing]:
  "computes (OpenFile_logged b F file filename mode) (Inr (OpenFile F file filename mode))"
  by (auto simp: OpenFile_logged_def OpenFile_def split: prod.split intro!: computing)

lemma computes_WriteRecord [computing]:
  "computes (WriteRecord_logged b ext F file k v) (Inr (WriteRecord ext F file k v))"
  by (auto simp: WriteRecord_logged_def WriteRecord_def Let_def split: prod.split intro!: computing)

lemma computes_ReadRecord [computing]: "computes (ReadRecord_logged b ext F file) (Inr (ReadRecord ext F file))"
  by (auto simp: ReadRecord_logged_def ReadRecord_def Let_def split: prod.split intro!: computing)

text \<open>The loop: both return, and the same, or neither does.\<close>

lemma read_loop_logged_step:
  obtains (stop) s1 st1 where "ReadRecord ext F s = (None, s1)"
      and "run_state (ReadRecord_logged b ext F s) st = (Inr (None, s1), st1)" and "appends st st1"
    | (found) k v i s1 st1 st2 where "ReadRecord ext F s = (Some (k, v, i), s1)"
      and "run_state (ReadRecord_logged b ext F s) st = (Inr (Some (k, v, i), s1), st1)"
      and "run_state (INFO b ''Record.cpp'' 82 [Text ''Record {}: key={}, value={}, size={}'', Number (uint (count + 1 :: u32)),
             Text k, Text v, Number (uint (inf_size i))] (gives ())) st1 = (Inr (), st2)" and "appends st st2"
proof -
  obtain o1 s1 st1 where r: "run_state (ReadRecord_logged b ext F s) st = (Inr (o1, s1), st1)"
    "ReadRecord ext F s = (o1, s1)" "appends st st1"
    using computes_run [OF computes_ReadRecord, of b ext F s st]
    by (cases "run_state (ReadRecord_logged b ext F s) st"; cases "ReadRecord ext F s") auto
  show ?thesis
  proof (cases o1)
    case None
    then show ?thesis using stop r by blast
  next
    case (Some rec)
    obtain k v i where rec: "rec = (k, v, i)" by (cases rec)
    let ?m = "INFO b ''Record.cpp'' 82 [Text ''Record {}: key={}, value={}, size={}'', Number (uint (count + 1 :: u32)),
        Text k, Text v, Number (uint (inf_size i))] (gives ())"
    have "computes ?m (Inr ())" by (intro computing) simp
    then obtain st2 where "run_state ?m st1 = (Inr (), st2)" "appends st1 st2"
      using computes_run [of ?m "Inr ()" st1] by (cases "run_state ?m st1") auto
    then show ?thesis using found r appends_trans unfolding Some rec by blast
  qed
qed

lemmas read_loop_run = read_loop.raw_induct [where xa = "((((ext, F), cb), s), x)", unfolded prod.case]
  and read_loop_logged_run = read_loop_logged.raw_induct
    [where xa = "(((((((b, ext), F), cb), s), count), x), st)", unfolded prod.case]
  for b :: build and ext F cb s count x st

lemma read_loop_logged_sound:
  assumes "read_loop_logged b ext F cb s count x st = Some y"
  shows "\<exists>s' count' x'. fst y = Inr (s', count', x') \<and> read_loop ext F cb s x = Some (s', x') \<and> appends st (snd y)"
proof (rule read_loop_logged_run [OF _ assms, where P = "\<lambda>b ext F cb s count x st y. \<exists>s' count' x'.
      fst y = Inr (s', count', x') \<and> read_loop ext F cb s x = Some (s', x') \<and> appends st (snd y)"], goal_cases)
  case (1 loop b ext F cb s count x st y)
  show ?case
  proof (cases rule: read_loop_logged_step [of ext F s b st _ count])
    case (stop s1 st1)
    then show ?thesis using 1(2) by (auto simp: read_loop.simps [of ext F cb s])
  next
    case (found k v i s1 st1 st2)
    have "loop b ext F cb s1 (count + 1) (cb k v i x) st2 = Some y" using 1(2) found by simp
    from 1(1) [OF this] show ?thesis
      using found appends_trans by (auto simp: read_loop.simps [of ext F cb s])
  qed
qed

lemma read_loop_logged_complete:
  assumes "read_loop ext F cb s x = Some y"
  shows "read_loop_logged b ext F cb s count x st \<noteq> None"
proof -
  have "\<forall>count st. read_loop_logged b ext F cb s count x st \<noteq> None"
  proof (rule read_loop_run [OF _ assms, where P = "\<lambda>ext F cb s x y. \<forall>count st. read_loop_logged b ext F cb s count x st \<noteq> None"],
      intro allI, goal_cases)
    case (1 loop ext F cb s x y count st)
    show ?case
    proof (cases rule: read_loop_logged_step [of ext F s b st _ count])
      case (stop s1 st1)
      then show ?thesis by (simp add: read_loop_logged.simps [of b ext F cb s])
    next
      case (found k v i s1 st1 st2)
      have "loop ext F cb s1 (cb k v i x) = Some y" using 1(2) found by simp
      from 1(1) [OF this] show ?thesis
        using found by (simp add: read_loop_logged.simps [of b ext F cb s])
    qed
  qed
  then show ?thesis by blast
qed

text \<open>What \<open>read_loop\<close> and the scan return, as an outcome.\<close>

definition returned :: "'a option \<Rightarrow> 'a outcome" where
  "returned r = (case r of None \<Rightarrow> Inl NonTermination | Some y \<Rightarrow> Inr y)"

lemma computes_ReadAll [computing]:
  "computes (ReadAllRecordFromFile_logged b ext F cb file x) (returned (ReadAllRecordFromFile ext F cb file x))"
proof -
  let ?file = "st_seekg 0 file" and ?scan = "\<lambda>st. read_loop_logged b ext F cb (st_seekg 0 file) 0 x st"
  let ?rest = "\<lambda>(file, count :: u32, x). if \<not> st_eof file
      then ERROR b ''Record.cpp'' 87 [Text ''Read file error, file state: is good {}, is bad {}, is_open {}, position {}'',
        Flag (st_good file), Flag False, Flag (is_open file), Number (st_tellp file)] (gives (file, x))
      else INFO b ''Record.cpp'' 92 [Text ''Finished reading all records, total count: {}'', Number (uint count)] (gives (file, x))"
  have rest: "computes (?rest (file', count', x')) (Inr (file', x'))" for file' count' x'
    by (auto intro!: computing)
  have "computes (and_then (State (\<lambda>st. case ?scan st of None \<Rightarrow> (Inl NonTermination, st) | Some r \<Rightarrow> r)) ?rest)
      (returned (read_loop ext F cb ?file x))"
  proof (rule computesI)
    fix st
    show "\<exists>st'. run_state (and_then (State (\<lambda>st. case ?scan st of None \<Rightarrow> (Inl NonTermination, st) | Some r \<Rightarrow> r)) ?rest) st
        = (returned (read_loop ext F cb ?file x), st') \<and> appends st st'"
    proof (cases "?scan st")
      case None
      then have "read_loop ext F cb ?file x = None"
        using read_loop_logged_complete [where count = 0 and st = st and b = b and ext = ext and F = F and cb = cb] by (metis option.exhaust)
      then show ?thesis using None by (simp add: run_and_then returned_def)
    next
      case (Some y)
      then obtain file' count' x' st1 where y: "y = (Inr (file', count', x'), st1)"
        "read_loop ext F cb ?file x = Some (file', x')" "appends st st1"
        using read_loop_logged_sound [OF Some] by (cases y) auto
      obtain st2 where "run_state (?rest (file', count', x')) st1 = (Inr (file', x'), st2)" "appends st1 st2"
        using computes_run [OF rest, of file' count' x' st1] by (cases "run_state (?rest (file', count', x')) st1") blast
      then show ?thesis using Some y appends_trans by (auto simp: run_and_then returned_def)
    qed
  qed
  then show ?thesis
    unfolding ReadAllRecordFromFile_logged_def ReadAllRecordFromFile_def Let_def by (intro computing) simp_all
qed

lemma computes_Create_path [computing]:
  "computes (ActiveFile_Create_path_logged b F path) (Inr (ActiveFile_Create_path F path))"
  by (auto simp: ActiveFile_Create_path_logged_def ActiveFile_Create_path_def split: prod.split intro!: computing computes_seq)

lemmas then_computing = computes_seq [OF computes_OpenFile] computes_seq [OF computes_ReadAll]

lemma computes_ActiveFile_Restore [computing]:
  "computes (ActiveFile_Restore_logged b ext F filename cb x) (ActiveFile_Restore ext F filename cb x)"
  unfolding ActiveFile_Restore_logged_def ActiveFile_Restore_def
  by (auto simp: returned_def split: prod.split option.split intro!: computing then_computing)

lemma computes_StableFile_Restore [computing]:
  "computes (StableFile_Restore_logged b ext F filename cb x) (StableFile_Restore ext F filename cb x)"
  unfolding StableFile_Restore_logged_def StableFile_Restore_def
  by (auto simp: returned_def split: prod.split option.split intro!: computing then_computing)

lemma computes_ActiveFile_Write [computing]:
  "computes (ActiveFile_Write_logged b ext F af k v) (ActiveFile_Write ext F af k v)"
  by (auto simp: ActiveFile_Write_logged_def ActiveFile_Write_def split: prod.split option.split
      intro!: computing computes_seq)

lemma computes_restore_stable_loop [computing]:
  "computes (restore_stable_loop_logged b L dbPath names db) (restore_stable_loop L dbPath names db)"
  by (induction names arbitrary: db)
    (auto simp: Let_def split: sum.split prod.split intro!: computing computes_seq)

lemma computes_RestoreStableMap [computing]:
  "computes (RestoreStableMap_logged b L db) (RestoreStableMap L db)"
  unfolding RestoreStableMap_logged_def RestoreStableMap_def Let_def by (rule computing)

lemma computes_RestoreActiveMap [computing]:
  "computes (RestoreActiveMap_logged b L db) (RestoreActiveMap L db)"
  unfolding RestoreActiveMap_logged_def RestoreActiveMap_def Let_def
  by (auto split: sum.split prod.split intro!: computing computes_seq)

lemma computes_BitcaskImpl_new [computing]:
  "computes (BitcaskImpl_new_logged b L s F) (BitcaskImpl_new L s F)"
  unfolding BitcaskImpl_new_logged_def BitcaskImpl_new_def
  by (auto split: sum.split prod.split intro!: computing computes_seq)

lemma computes_Get [computing]: "computes (Get_logged b L k db) (Get L k db)"
  unfolding Get_logged_def Get_def Let_def
  by (auto split: sum.split prod.split option.split intro!: computing)

lemma computes_rotate_files [computing]:
  "computes (rotate_files_logged b dbPath fd af cs) (rotate_files dbPath fd af cs)"
  unfolding rotate_files_logged_def rotate_files_def Let_def OpenFile_def
  by (auto split: sum.split prod.split intro!: computing computes_seq)

lemma computes_commit_one [computing]:
  "computes (commit_one_logged b ext dbPath limit fd w cs) (commit_one ext dbPath limit fd w cs)"
  unfolding commit_one_logged_def commit_one_def Let_def
  by (rule computes_seq [where r = "Inr ()"])
    (auto split: sum.split prod.split option.split intro!: computing computes_seq)

lemma computes_commit_loop [computing]:
  "computes (commit_loop_logged b ext dbPath limit fd ws cs) (commit_loop ext dbPath limit fd ws cs)"
  by (induction ws arbitrary: cs) (auto split: sum.split intro!: computing computes_seq)

lemma computes_CommitWrite [computing]: "computes (CommitWrite_logged b L ws db) (CommitWrite L ws db)"
  unfolding CommitWrite_logged_def CommitWrite_def commit_files_def Let_def
  by (auto split: sum.split intro!: computing computes_seq)

lemma computes_worker_turn [computing]: "computes (worker_turn_logged b L db) (worker_turn L db)"
  unfolding worker_turn_logged_def worker_turn_def by (rule computing)

text \<open>C17. Logging changes nothing. Whatever the levels and functions of the logger and whatever it has been
  sent, the constructor, a turn of the worker and \<open>Get\<close> with their messages return, throw and store what
  they do without them; the levels and functions of the logger stay, messages are only appended, and
  none is when no level is allowed.\<close>
theorem logging_changes_nothing:
  "(let (r, lg') = run_state (BitcaskImpl_new_logged b L st F) lg in r = BitcaskImpl_new L st F \<and> appends lg lg')
   \<and> (let (r, lg') = run_state (worker_turn_logged b L db) lg in r = worker_turn L db \<and> appends lg lg')
   \<and> (let (r, lg') = run_state (Get_logged b L k db) lg in r = Get L k db \<and> appends lg lg')"
  by (intro conjI computes_let computing)

section \<open>The messages of a scan\<close>

text \<open>With the level info alone a macro for info sends its text with the braces filled, one for errors nothing.\<close>

definition only_info :: "build \<Rightarrow> 'h Statics \<Rightarrow> bool" where
  "only_info b lg \<longleftrightarrow> min_level b = None \<and> allowedLevels lg = LOG_LEVEL_INFO"

definition sent :: "string list \<Rightarrow> 'h Statics \<Rightarrow> 'h Statics" where
  "sent msgs lg = lg\<lparr>emitted := emitted lg @ map (\<lambda>m. (out_fn lg, ''INFO    :    '' @ m)) msgs\<rparr>"

lemma only_info_sent [simp]: "only_info b (sent msgs lg) \<longleftrightarrow> only_info b lg"
  by (simp add: only_info_def sent_def)

lemma sent_sent [simp]: "sent ms' (sent ms lg) = sent (ms @ ms') lg" "sent [] lg = lg"
  by (simp_all add: sent_def)

lemma run_message:
  assumes "only_info b lg"
  shows "narrow args \<Longrightarrow> run_state (INFO b file_name line (Text fmt # args) m) lg =
      run_state m (sent [fill_braces fmt (map printed args)] lg)"
    and "run_state (ERROR b file_name line args m) lg = run_state m lg"
  using assms
  by (simp_all add: INFO_def ERROR_def run_and_then log_call_def BITCASK_LOGGER_INFO_def BITCASK_LOGGER_ERROR_def
      BITCASK_MIN_ALLOWED_LOG_LEVEL_def BITCASK_LOG_LEVEL_INFO_def BITCASK_LOG_LEVEL_ERROR_def BITCASK_LOGGER_WRITE_def
      infoAllowed_def errorAllowed_def debugAllowed_def allowed_def only_info_def level_defs info_def log_def
      formatMsg_fill narrow_strings arg_string_def printed_def logImpl_def sent_def)

lemma run_ReadRecord:
  assumes "only_info b lg"
  shows "run_state (ReadRecord_logged b ext F s) lg = (Inr (ReadRecord ext F s), lg)"
  unfolding ReadRecord_logged_def ReadRecord_def Let_def
  by (auto simp: run_message(2) [OF assms] gives_def split: prod.split)

definition number_text :: "int \<Rightarrow> string" where
  "number_text n = printed (Number n)"

text \<open>The messages for the records of a scan, which are counted in 32 bits.\<close>

fun record_messages :: "u32 \<Rightarrow> (key \<times> val \<times> RecordInf) list \<Rightarrow> string list" where
  "record_messages count [] = []"
| "record_messages count ((k, v, i) # found) =
     (''Record '' @ number_text (uint (count + 1)) @ '': key='' @ k @ '', value='' @ v @ '', size='' @ number_text (uint (inf_size i)))
     # record_messages (count + 1) found"

definition collect :: "(key \<times> val \<times> RecordInf) list callback" where
  "collect k v i found = found @ [(k, v, i)]"

lemma record_text:
  "fill_braces ''Record {}: key={}, value={}, size={}'' [a, b, c, d] = ''Record '' @ a @ '': key='' @ b @ '', value='' @ c @ '', size='' @ d"
  by simp

lemma printed_simps: "printed (Text s) = s" "printed (Number n) = number_text n"
  by (simp_all add: printed_def number_text_def)

lemma read_loop_messages:
  assumes "read_loop ext F collect s found = Some y"
  shows "\<exists>new. snd y = found @ new \<and> (\<forall>count (lg :: 'h Statics). only_info b lg \<longrightarrow> read_loop_logged b ext F collect s count found lg =
      Some (Inr (fst y, count + word_of_nat (length new), snd y), sent (record_messages count new) lg))"
proof -
  let ?says = "\<lambda>ext F s found y new. \<forall>count (lg :: 'h Statics). only_info b lg \<longrightarrow> read_loop_logged b ext F collect s count found lg =
      Some (Inr (fst y, count + word_of_nat (length new), snd y), sent (record_messages count new) lg)"
  have "cb = collect \<longrightarrow> (\<exists>new. snd y = found @ new \<and> ?says ext F s found y new)"
    if "read_loop ext F cb s found = Some y" for cb
  proof (rule read_loop_run [OF _ that, where P = "\<lambda>ext F cb s found y. cb = collect \<longrightarrow>
      (\<exists>new. snd y = found @ new \<and> ?says ext F s found y new)"], intro impI, goal_cases)
    case (1 loop ext F cb s found y)
    note unf = read_loop_logged.simps [of b ext F collect s] run_ReadRecord
    obtain o1 s1 where r: "ReadRecord ext F s = (o1, s1)" by (cases "ReadRecord ext F s")
    show ?case
    proof (cases o1)
      case None
      then show ?thesis using 1 r by (intro exI [of _ "[]"]) (auto simp: unf)
    next
      case (Some rec)
      obtain k v i where rec: "rec = (k, v, i)" by (cases rec)
      have "loop ext F collect s1 (found @ [(k, v, i)]) = Some y" using 1(2,3) r by (simp add: Some rec collect_def)
      from 1(1) [OF this] obtain new
        where n: "snd y = (found @ [(k, v, i)]) @ new" "?says ext F s1 (found @ [(k, v, i)]) y new" by blast
      have "?says ext F s found y ((k, v, i) # new)"
        using n(2) by (auto simp: unf r Some rec run_message(1) record_text printed_simps collect_def gives_def add.assoc)
      then show ?thesis using n(1) by (intro exI [of _ "(k, v, i) # new"]) simp
    qed
  qed
  then show ?thesis using assms by blast
qed

text \<open>C21. The messages of a scan. With the level info alone a scan sends its position, one message for each
  record it reports, with the number of the record, its key, value and size, in order, and at the end
  of the file the number of records; a scan that stops before the end sends no closing message.\<close>
theorem scan_messages:
  assumes "min_level b = None" and "allowedLevels lg = LOG_LEVEL_INFO"
    and "ReadAllRecordFromFile ext F collect s [] = Some (s', found)"
  shows "run_state (ReadAllRecordFromFile_logged b ext F collect s []) lg = (Inr (s', found),
    sent ((''Starting to read all records from file, position: '' @ number_text (st_tellp (st_seekg 0 s)))
        # record_messages 0 found
        @ (if st_eof s' then [''Finished reading all records, total count: '' @ number_text (uint (word_of_nat (length found) :: u32))]
           else [])) lg)"
proof -
  have oi: "only_info b lg" using assms(1,2) by (simp add: only_info_def)
  have "read_loop ext F collect (st_seekg 0 s) [] = Some (s', found)"
    using assms(3) by (simp add: ReadAllRecordFromFile_def)
  from read_loop_messages [OF this, of b] have "only_info b lg1 \<Longrightarrow>
      read_loop_logged b ext F collect (st_seekg 0 s) 0 [] lg1 =
        Some (Inr (s', word_of_nat (length found), found), sent (record_messages 0 found) lg1)" for lg1 :: "'a Statics"
    by (metis add_0 append_Nil fst_conv snd_conv)
  then show ?thesis
    using oi by (simp add: ReadAllRecordFromFile_logged_def Let_def run_message run_and_then gives_def printed_simps)
qed

text \<open>A scan of a file with one record.\<close>

theorem scan_messages_witness:
  "\<exists>F s rest. emitted (snd (run_state (ReadAllRecordFromFile_logged \<lparr>source_dir = ''src/'', min_level = None\<rparr> (\<lambda>c bs. c) F collect s [])
       (init LOG_LEVEL_INFO (Some ''out'') None (statics ''nop'')))) =
     [(''out'', ''INFO    :    Starting to read all records from file, position: 0''),
      (''out'', ''INFO    :    Record 1: key=k, value=v, size=14'')] @ rest"
proof -
  let ?F = "\<lparr>nodes = [(''f'', Regular (enc_log (\<lambda>c bs. c) [(''k'', ''v'')]))], denied = []\<rparr>"
  let ?lg = "init LOG_LEVEL_INFO (Some ''out'') None (statics ''nop'')" and ?s = "st_opened ''f'' False new_fstream"
  have c: "file_content ?F ''f'' = enc_log (\<lambda>c bs. c) [(''k'', ''v'')] @ []" by (simp add: file_content_def)
  have "length (file_content ?F ''f'') < 2 ^ 32" unfolding c by (simp add: length_enc_record rec_size_def header_size_def)
  from ReadAll_log [OF ready_opened(1) c this tail_stops_Nil] obtain s' where
    r: "ReadAllRecordFromFile (\<lambda>c bs. c) ?F collect ?s [] = Some (s', feed collect (log_entries 0 [(''k'', ''v'')]) [])" by metis
  have lg: "allowedLevels ?lg = LOG_LEVEL_INFO" "emitted ?lg = []" "out_fn ?lg = ''out''"
    by (simp_all add: init_def changeLogLevels_def statics_def)
  have n: "number_text 0 = ''0''" "number_text 1 = ''1''" "number_text 14 = ''14''"
    by (simp_all add: number_text_def printed_def to_string.simps digit_def, code_simp+)
  have pos: "st_tellp (st_seekg 0 ?s) = 0" by (simp add: st_seekg_def st_tellp_def st_opened_def new_fstream_def is_open_def)
  show ?thesis
    using scan_messages [OF _ lg(1) r, of "\<lparr>source_dir = ''src/'', min_level = None\<rparr>"]
    by (intro exI [of _ ?F] exI [of _ ?s]) (simp add: sent_def lg pos n collect_def rec_size_def header_size_def)
qed

end
