(* ===== verification/Spec2Isabelle.thy ===== *)
theory Spec2Isabelle
  imports Prelude FileStream DiskRecord KeyMaps DataFiles Setting Engine EngineInv Commit Recovery Client
    Overflow BesideDir Batches Concurrency Threads Simulation Reads Rotation RotatingReads ReadOrder Liveness Crash Shutdown
    StringCast CastTest FloatCast CastPlatforms Logger LoggedStore
begin

text \<open>
  A verification of memkvinC, a key-value store after the Bitcask design: every write is appended to
  a log file, an index in memory maps each key to the place of its last value, and a start of the
  program rebuilds the index by scanning the files.

  The program and its model.

  src/Record.cpp, src/CRC32.hpp define the record format (a header with checksum, key size and value
  size, then key and value) and its writing, reading and scanning: theory \<open>DiskRecord\<close>. src/File.cpp
  wraps the standard streams: theory \<open>FileStream\<close>, which also holds the model of a file system (a list
  of paths with contents) and of \<open>std::fstream\<close> (the file it is open on, position and state bits).
  src/ActiveFile.cpp and src/StableFile.cpp are the file that is written and the files that are only
  read: theory \<open>DataFiles\<close>. src/ActiveMap.cpp, src/RecordMap.cpp and src/Hint.hpp are the two tables in
  memory: theory \<open>KeyMaps\<close>. src/Setting.cpp is theory \<open>Setting\<close>, src/Logger.cpp and
  include/bitcask/Logger.hpp are theory \<open>Logger\<close>, src/utils/StringCast.hpp, the conversions between
  string types, is theory \<open>StringCast\<close> as a build with a 32-bit \<open>wchar_t\<close> has it, with the test function
  of that header in theory \<open>CastTest\<close>, and theory \<open>CastPlatforms\<close> for every width of \<open>wchar_t\<close>, with the
  templates that choose among the conversions; theory \<open>FloatCast\<close> prints floating-point numbers.
  src/BitcaskImpl.cpp and src/Bitcask.cpp, the engine and its public interface, are theory \<open>Engine\<close>: the record \<open>BitcaskImpl\<close> has the members of the class
  with the file system they work on, and every member function is a function of the same name that
  takes the state and returns it updated; exceptions, the use of a null handler and a loop that does
  not end are values of the type \<open>fault\<close>. Promises are numbers, and \<open>fulfilled\<close> lists those set.
  The threads (clients, \<open>CommitWorker\<close>, destructor) are the step relation \<open>sys_step\<close> of theory
  \<open>Concurrency\<close>, whose steps are the critical sections, and in finer grain \<open>thread_step\<close> of theory
  \<open>Threads\<close>: there the worker stops between any two statements of \<open>CommitWrite\<close> that touch a member
  (its place and locals are the datatype \<open>point\<close>), and every \<open>Get\<close> has its own place (\<open>reader\<close>), also
  between the \<open>seekg\<close> and the read of \<open>StableFile::Read\<close>. \<open>small_steps_alone\<close> says that either, run
  alone, is the function of theory \<open>Engine\<close>. The rest of the destructor, \<open>join\<close> and the destruction of
  the members with the promises in \<open>_writes\<close>, is \<open>BitcaskImpl_destroy\<close> of theory \<open>Shutdown\<close>. These theories leave out the messages the functions send to
  the logger; theory \<open>LoggedStore\<close> has the functions with them, in the state monad of the library over
  the state of the logger, and \<open>logging_changes_nothing\<close> says that they compute the same.

  Third-party code is a parameter: \<open>libs\<close> holds the checksum function of crc32c, of which nothing is
  assumed, and the two instances of the libcuckoo table, of which \<open>libs_ok\<close> assumes the laws of a
  finite map (find after insert, erase and clear). \<open>example_libs\<close> is an instance.

  What is shown.

  \<open>DiskRecord\<close>: records written are scanned back; a scan stops exactly at bytes that are no record, and
  it returns on every file below 4 GB. \<open>DataFiles\<close>: a restore of a file reports its log and ignores a
  torn tail; a read at the offset of a hint gives the value. \<open>EngineInv\<close> defines the abstract store, a
  list of logs, and the invariant \<open>store_ok\<close> that ties files, handlers and tables to it; \<open>Get\<close> reads the
  last write. \<open>Commit\<close>: the loop of \<open>CommitWrite\<close> fills the files as the function \<open>fill\<close> says, whatever the
  rotations, and keeps \<open>store_ok\<close> if only the last write of a batch rotates. \<open>Recovery\<close>: a start finds the
  logs, in the order of the file names. \<open>Client\<close>: calls one at a time refine a map (the locale
  \<open>kv_engine\<close>, of which the engine is an instance), also across a restart (\<open>durable_engine\<close>). \<open>Batches\<close>:
  several queued writes in one turn of the worker. \<open>Overflow\<close> and \<open>BesideDir\<close>: stores with a limit of
  4 GB or more, and with the path of a directory without its final slash. \<open>Concurrency\<close>: the queue is
  first in first out and the worker never gets stuck. \<open>Threads\<close>: the same in small steps; no
  interleaving of worker and readers uses a null handler or loses a file, and a write is in the files
  before its future is ready. \<open>Simulation\<close>: every run of the large steps is a run of the small ones
  (\<open>large_steps_simulated\<close>). \<open>Crash\<close>: if the process stops at any point of such an interleaving, also inside
  a write or a rotation (\<open>crash_disks\<close>), the next start finds the stable files and a beginning of the
  active file's log, unless a record that is cut off looks whole (\<open>looks_whole\<close>). \<open>Shutdown\<close>: the destructor
  returns, and then the writes whose futures have a value are those the files hold; the other futures
  are broken promises. Only then is this an equivalence: during a commit the files hold writes whose
  futures are not ready yet.
  \<open>Reads\<close>: without a rotation overlapping reads are linearizable, if each read is alone on its stream
  between the seek and the read (\<open>locked_run\<close>). \<open>Rotation\<close> has the invariant of the runs whose batches
  rotate at their last write only, as those of clients that wait for their futures do, and in which
  each read is alone on its stream as in \<open>locked_run\<close> (both together are \<open>tidy_run\<close>), and \<open>RotatingReads\<close> shows what a read returns in them: the store as of its call or as of its return, save
  when a rotation ends in between; \<open>ReadOrder\<close>: of two reads one after the other the later does not
  return an older value. \<open>Liveness\<close>: every future becomes ready, however readers and clients
  interleave with the worker, by a measure of the worker's moves. \<open>Logger\<close>: the
  formatting loop fills braces from left to right and messages are routed by level. \<open>StringCast\<close>: the
  conversion back gives the text it came from, without the beginning of a character at its end (such a
  beginning is left out silently, as libstdc++ does); what the conversions write is the UTF-8 or UTF-16
  of the text, and numbers are read back (the codecs of the standard library are instances of the
  locale \<open>codec\<close>, a conversion one of \<open>transcoder\<close>). \<open>CastTest\<close>: the assertions of the
  test function on texts hold for every text, nine of those on numbers do not. \<open>CastPlatforms\<close>: a text
  is cast to the same text in every string type on every platform. \<open>FloatCast\<close>: the text of a
  floating-point number is its nearest multiple of a millionth. \<open>LoggedStore\<close>: messages change nothing,
  and those of a scan are the records it reports.

  Where the code departs from what it means to do, a theorem states what it does instead: a rotation
  before the last write of a batch misplaces hints (\<open>mid_batch_rotation\<close>), recovery with eleven stable
  files takes an old value (\<open>restart_stale\<close>), a file without a numeric name stops the constructor
  (\<open>junk_file_throws\<close>), writes queued just before the destructor are lost and their promises broken
  (\<open>put_lost_at_shutdown\<close>), a setting from a path without a final slash loses what follows the first
  rotation (\<open>constructor_path_beside_dir\<close>), a read that overlaps a rotation misses its key (\<open>get_misses_during_rotation\<close>), two reads of one
  stable file return each other's values (\<open>shared_stream_mixes\<close>), acknowledged writes that the stream
  still buffers are lost in a crash (\<open>acknowledged_write_lost\<close>), records behind a torn tail are lost
  (\<open>append_after_torn_tail\<close>), with a limit of 4 GB or more a start may never end (\<open>start_never_ends\<close> in
  theory \<open>Overflow\<close>), \<open>enable\<close> does not enable (\<open>enable_never_allows\<close>), a build that leaves out messages
  up to errors keeps the verbose ones (\<open>verbose_compiled_last\<close>), the test function of StringCast.hpp does not pass
  (\<open>UnitTest_fails\<close>).

  Bounds. Offsets and sizes are 32 bits wide in the code and in the model; the theorems ask for the
  sizes that make them exact: records below 1 GB and a rotation limit of at most 2 GB in \<open>Client\<close> (the
  default is 1 GB), all writes together below 4 GB in \<open>Concurrency\<close>, no
  bound on them in \<open>Threads\<close>, \<open>Liveness\<close>, \<open>Crash\<close> and \<open>Shutdown\<close>, below the rotation limit in \<open>reads_linearize\<close>, records
  below 1 GB in \<open>reads_across_rotations\<close> (\<open>fitting\<close>), file numbers below \<open>2 ^ 31\<close> because
  \<open>getActivePathInDir\<close> keeps them in an \<open>int\<close>. The scan of a file is a partial function
  whose result is \<open>None\<close> when it does not end, and \<open>scan_returns\<close> shows that it does for
  files below 4 GB (theory \<open>Overflow\<close> has one beyond, where it does not); the steps of a thread
  that runs alone (\<open>commit_alone\<close>, \<open>Get_alone\<close>) are counted, and \<open>small_steps_alone\<close> gives the count that
  is enough; \<open>8 n + 10\<close> moves of the worker in \<open>futures_become_ready\<close> are four for each of the \<open>n\<close> writes of
  the batch it holds and of the next one, and the steps around them.

  Not modelled. The put buffer of a stream (output is written through; what a crash leaves of it is a
  parameter of \<open>crashed\<close>; a stream opened for appending has its position at the end after a write,
  where a library may report less before the buffer is passed on), calls that are still under way when
  the destructor runs to its end (they are undefined behaviour), the C++ memory model (a variable is read and written atomically, and the
  unlocked accesses of \<open>CommitWrite\<close> to \<open>_stableFiles\<close> and \<open>_activeMap\<close> are ordered as written), I/O
  errors in the middle of a file (so no stream has its bad bit set), rounding modes of floating-point
  numbers other than to nearest, messages of several threads at the same time (the logger's functions
  are called one at a time in the model), the compaction settings beyond being stored (the code has no
  compaction).
\<close>

end
